(* ===== verification/Prelude.thy ===== *)
theory Prelude
  imports Main "HOL-Library.Word" "HOL-Library.Monad_Syntax"
begin

text \<open>
  Shared ground of the development: the widths of the C++ integer types, checked signed
  arithmetic, the ordered container \<^verbatim>\<open>std::map\<close> as an ascending association list, and the
  generic lemmas on lists and words that the components share.

  Unsigned integers of the source are words (\<open>8 word\<close>, \<open>16 word\<close>, \<open>32 word\<close>,
  \<open>64 word\<close>), on which \<open>+\<close> and \<open>-\<close> wrap around as C++ prescribes.  Signed 64-bit
  integers are \<open>int\<close>; C++ leaves their overflow undefined, so every signed addition,
  subtraction and negation of the source goes through \<open>chk64\<close>, which is \<open>None\<close> outside the
  range of \<^verbatim>\<open>std::int64_t\<close>.  A function of the model that returns \<open>None\<close> has run into
  undefined behaviour, and the theorems show under which conditions none does.
\<close>

unbundle bit_operations_syntax

type_synonym u8 = "8 word"
type_synonym u16 = "16 word"
type_synonym u32 = "32 word"
type_synonym u64 = "64 word"

text \<open>Facts that unfold the source's functions, by component, and the facts on machine arithmetic.\<close>

named_theorems arith64 "range facts on signed 64-bit arithmetic"

named_theorems smap_simps "the ordered map"

section \<open>Signed 64-bit arithmetic\<close>

definition i64_ok :: "int \<Rightarrow> bool" where
  "i64_ok x \<longleftrightarrow> - (2 ^ 63) \<le> x \<and> x < 2 ^ 63"

definition chk64 :: "int \<Rightarrow> int option" where
  "chk64 x = (if i64_ok x then Some x else None)"

lemma chk64_Some [arith64]: "i64_ok x \<Longrightarrow> chk64 x = Some x"
  by (simp add: chk64_def)

lemma chk64_eq_Some [arith64]: "chk64 x = Some y \<longleftrightarrow> i64_ok x \<and> y = x"
  by (auto simp: chk64_def)

lemma i64_ok_between: "i64_ok a \<Longrightarrow> i64_ok b \<Longrightarrow> a \<le> x \<Longrightarrow> x \<le> b \<Longrightarrow> i64_ok x"
  by (simp add: i64_ok_def)

lemma i64_ok_0 [simp]: "i64_ok 0"
  by (simp add: i64_ok_def)

lemma i64_ok_sub_nonneg: "i64_ok a \<Longrightarrow> 0 \<le> b \<Longrightarrow> b \<le> a \<Longrightarrow> i64_ok (a - b)"
  by (simp add: i64_ok_def)

lemma i64_ok_sint [simp]: "i64_ok (sint (w :: u64))"
  using sint_greater_eq [of w] sint_less [of w] by (simp add: i64_ok_def)

section \<open>Ordered maps\<close>

text \<open>
  \<^verbatim>\<open>std::map<K, V>\<close> iterates its keys in ascending order, so it is a list of pairs with
  strictly ascending keys: \<^verbatim>\<open>begin()\<close> is the head, \<^verbatim>\<open>rbegin()\<close> the last pair,
  \<^verbatim>\<open>find\<close> is \<^const>\<open>map_of\<close>, assignment through \<^verbatim>\<open>operator[]\<close> is \<open>smap_put\<close> and
  \<^verbatim>\<open>erase\<close> is \<open>smap_erase\<close>.
\<close>

type_synonym ('k, 'v) smap = "('k \<times> 'v) list"

abbreviation smap_ok :: "('k::linorder, 'v) smap \<Rightarrow> bool" where
  "smap_ok m \<equiv> sorted_wrt (<) (map fst m)"

fun smap_put :: "'k::linorder \<Rightarrow> 'v \<Rightarrow> ('k, 'v) smap \<Rightarrow> ('k, 'v) smap" where
  "smap_put k v [] = [(k, v)]"
| "smap_put k v ((a, w) # m) =
     (if k < a then (k, v) # (a, w) # m
      else if k = a then (k, v) # m
      else (a, w) # smap_put k v m)"

definition smap_erase :: "'k \<Rightarrow> ('k, 'v) smap \<Rightarrow> ('k, 'v) smap" where
  "smap_erase k m = filter (\<lambda>p. fst p \<noteq> k) m"

lemma map_of_smap_put [smap_simps]:
  "map_of (smap_put k v m) = (map_of m)(k \<mapsto> v)"
  by (induction k v m rule: smap_put.induct) (auto simp: fun_eq_iff)

lemma keys_smap_put [smap_simps]: "fst ` set (smap_put k v m) = insert k (fst ` set m)"
  by (induction k v m rule: smap_put.induct) auto

lemma smap_ok_put [smap_simps]: "smap_ok m \<Longrightarrow> smap_ok (smap_put k v m)"
proof (induction k v m rule: smap_put.induct)
  case (2 k v a w m)
  then show ?case
    using keys_smap_put [of k v m] by auto
qed simp

lemma map_of_smap_erase [smap_simps]:
  "map_of (smap_erase k m) = (map_of m)(k := None)"
  by (induction m) (auto simp: smap_erase_def fun_eq_iff)

lemma smap_ok_erase [smap_simps]: "smap_ok m \<Longrightarrow> smap_ok (smap_erase k m)"
  by (induction m) (auto simp: smap_erase_def)

lemma smap_ok_distinct: "smap_ok m \<Longrightarrow> distinct (map fst m)"
  by (simp add: strict_sorted_iff)

lemma set_smap_erase [smap_simps]: "set (smap_erase k m) = {p \<in> set m. fst p \<noteq> k}"
  by (auto simp: smap_erase_def)

lemma set_smap_put:
  "smap_ok m \<Longrightarrow> set (smap_put k v m) = insert (k, v) {p \<in> set m. fst p \<noteq> k}"
proof (induction k v m rule: smap_put.induct)
  case (2 k v a w m)
  then show ?case by auto
qed simp

lemma smap_in_set_map_of: "smap_ok m \<Longrightarrow> (k, v) \<in> set m \<longleftrightarrow> map_of m k = Some v"
  by (simp add: smap_ok_distinct)

lemma smap_erase_hd: "smap_ok ((k, v) # m) \<Longrightarrow> smap_erase k ((k, v) # m) = m"
  by (auto simp: smap_erase_def filter_id_conv)

lemma smap_erase_last: "smap_ok (m @ [(k, v)]) \<Longrightarrow> smap_erase k (m @ [(k, v)]) = m"
  by (fastforce simp: smap_erase_def filter_id_conv sorted_wrt_append)

lemma smap_put_hd: "smap_put k v ((k, w) # m) = (k, v) # m"
  by simp

lemma smap_put_last:
  "smap_ok (m @ [(k, w)]) \<Longrightarrow> smap_put k v (m @ [(k, w)]) = m @ [(k, v)]"
  by (induction m) (auto simp: sorted_wrt_append)

section \<open>Bytes in memory\<close>

text \<open>
  A byte region is a list; \<open>slice\<close> reads and \<open>patch\<close> overwrites a run of bytes in it, as
  \<^verbatim>\<open>memcpy\<close> does.  Both are used only within the region, where a patch keeps its length.
\<close>

definition slice :: "nat \<Rightarrow> nat \<Rightarrow> 'a list \<Rightarrow> 'a list" where
  "slice off n m = take n (drop off m)"

definition patch :: "nat \<Rightarrow> 'a list \<Rightarrow> 'a list \<Rightarrow> 'a list" where
  "patch off bs m = take off m @ bs @ drop (off + length bs) m"

lemma length_slice [simp]: "off + n \<le> length m \<Longrightarrow> length (slice off n m) = n"
  by (simp add: slice_def)

lemma length_patch [simp]: "off + length bs \<le> length m \<Longrightarrow> length (patch off bs m) = length m"
  by (simp add: patch_def)

lemma slice_patch_same:
  "off + length bs \<le> length m \<Longrightarrow> n = length bs \<Longrightarrow> slice off n (patch off bs m) = bs"
  by (simp add: slice_def patch_def)

lemma nth_patch:
  "off + length bs \<le> length m \<Longrightarrow> i < length m \<Longrightarrow>
   patch off bs m ! i = (if off \<le> i \<and> i < off + length bs then bs ! (i - off) else m ! i)"
  by (auto simp: patch_def nth_append)

lemma nth_slice [simp]: "off + n \<le> length m \<Longrightarrow> i < n \<Longrightarrow> slice off n m ! i = m ! (off + i)"
  by (simp add: slice_def)

lemma slice_patch_other:
  assumes "off + length bs \<le> length m" "o2 + n \<le> length m" "o2 + n \<le> off \<or> off + length bs \<le> o2"
  shows "slice o2 n (patch off bs m) = slice o2 n m"
proof (rule nth_equalityI)
  fix i assume "i < length (slice o2 n (patch off bs m))"
  then have "i < n" using assms by simp
  then show "slice o2 n (patch off bs m) ! i = slice o2 n m ! i"
    using assms by (auto simp: nth_patch)
qed (use assms in simp)

lemma take_patch [simp]: "k \<le> off \<Longrightarrow> off \<le> length m \<Longrightarrow> take k (patch off bs m) = take k m"
  by (simp add: patch_def)

lemma drop_patch [simp]:
  "off + length bs \<le> k \<Longrightarrow> off + length bs \<le> length m \<Longrightarrow> drop k (patch off bs m) = drop k m"
  by (simp add: patch_def)

lemma patch_adjacent:
  "q = p + length xs \<Longrightarrow> p + length xs + length ys \<le> length m \<Longrightarrow>
   patch q ys (patch p xs m) = patch p (xs @ ys) m"
  by (simp add: patch_def add.assoc add.commute add.left_commute)

lemma slice_add: "slice p n xs @ slice (p + n) m xs = slice p (n + m) xs"
  by (simp add: slice_def take_add add.commute [of p])

lemma slice_patch_within:
  "off + length bs \<le> length m \<Longrightarrow> k + n \<le> length bs \<Longrightarrow> slice (off + k) n (patch off bs m) = slice k n bs"
  by (simp add: slice_def patch_def)

section \<open>Reachable states\<close>

text \<open>
  The states an object of the program can be in: those that its constructors give and its public
  operations lead to.  An invariant that the constructors establish and every operation keeps
  holds in all of them.
\<close>

inductive reach :: "('s \<Rightarrow> bool) \<Rightarrow> ('s \<Rightarrow> 's \<Rightarrow> bool) \<Rightarrow> 's \<Rightarrow> bool"
  for init :: "'s \<Rightarrow> bool" and step :: "'s \<Rightarrow> 's \<Rightarrow> bool" where
  start: "init s \<Longrightarrow> reach init step s"
| more: "reach init step s \<Longrightarrow> step s s' \<Longrightarrow> reach init step s'"

lemma reach_steps: "step\<^sup>*\<^sup>* s s' \<Longrightarrow> reach init step s \<Longrightarrow> reach init step s'"
  by (induction rule: rtranclp_induct) (auto intro: reach.more)

lemma reach_init_mono: "reach init step s \<Longrightarrow> (\<And>s. init s \<Longrightarrow> init' s) \<Longrightarrow> reach init' step s"
  by (induction rule: reach.induct) (auto intro: reach.intros)

locale invariant_system =
  fixes init :: "'s \<Rightarrow> bool" and step :: "'s \<Rightarrow> 's \<Rightarrow> bool" and inv :: "'s \<Rightarrow> bool"
  assumes init_inv: "init s \<Longrightarrow> inv s"
    and step_inv: "inv s \<Longrightarrow> step s s' \<Longrightarrow> inv s'"
begin

lemma reach_inv: "reach init step s \<Longrightarrow> inv s"
  by (induction rule: reach.induct) (auto intro: init_inv step_inv)

lemma reach_step_inv: "reach init step s \<Longrightarrow> step s s' \<Longrightarrow> inv s'"
  by (rule step_inv [OF reach_inv])

end

end
