(* ===== verification/Order_Types.thy ===== *)
theory Order_Types
  imports Prelude
begin

text \<open>
  The value types of \<^verbatim>\<open>include/lloms/order.hpp\<close>: sides, order types, orders and fills.
  Prices and quantities are the signed 64-bit integers of the source, as \<open>int\<close>.
\<close>

datatype Side = Buy | Sell

datatype Type = Limit | Market

type_synonym OrderId = u64
type_synonym Symbol = u32
type_synonym Price = int
type_synonym Qty = int

definition opposite :: "Side \<Rightarrow> Side" where
  "opposite s = (if s = Buy then Sell else Buy)"

record Order =
  o_id :: OrderId
  o_symbol :: Symbol
  o_side :: Side
  o_type :: Type
  o_price :: Price
  o_qty :: Qty

record Fill =
  f_taker_id :: OrderId
  f_maker_id :: OrderId
  f_symbol :: Symbol
  f_price :: Price
  f_qty :: Qty

text \<open>What the declared types of the fields guarantee of any order of the program.\<close>

definition order_typed :: "Order \<Rightarrow> bool" where
  "order_typed ord \<longleftrightarrow> i64_ok (o_price ord) \<and> i64_ok (o_qty ord)"

lemma opposite_simps [simp]: "opposite Buy = Sell" "opposite Sell = Buy"
  by (simp_all add: opposite_def)

lemma opposite_opposite [simp]: "opposite (opposite s) = s"
  by (cases s) simp_all

lemma opposite_neq [simp]: "opposite s \<noteq> s" "s \<noteq> opposite s"
  by (cases s; simp)+

lemma side_cases2: "s' = s \<or> s' = opposite s"
  by (cases s; cases s') simp_all

end
