(* ===== verification/Order_Book.thy ===== *)
theory Order_Book
  imports Order_Types
begin

text \<open>
  The price-time priority limit book of \<^verbatim>\<open>include/lloms/order_book.hpp\<close> and
  \<^verbatim>\<open>src/order_book.cpp\<close>.

  A price level is a \<^verbatim>\<open>std::list<Order>\<close>.  Its iterators stay valid until the node they
  point at is erased, and the id index of the book stores such iterators, so a level is the list
  of its nodes, each with its address (\<open>iter\<close>); \<open>next_node\<close> is the allocator that gives every
  \<^verbatim>\<open>push_back\<close> a fresh address.  Erasing through an iterator whose node is gone is undefined
  behaviour, the value \<open>None\<close>.
\<close>

type_synonym iter = nat
type_synonym Level = "(iter \<times> Order) list"

record Location =
  loc_side :: Side
  loc_price :: Price
  loc_it :: iter

record OrderBook =
  bk_symbol :: Symbol
  bk_bids :: "(Price, Level) smap"
  bk_asks :: "(Price, Level) smap"
  bk_index :: "OrderId \<rightharpoonup> Location"
  next_node :: iter

section \<open>Operations\<close>

definition new_book :: "Symbol \<Rightarrow> OrderBook" where
  "new_book sm = \<lparr>bk_symbol = sm, bk_bids = [], bk_asks = [], bk_index = Map.empty, next_node = 0\<rparr>"

definition book :: "OrderBook \<Rightarrow> Side \<Rightarrow> (Price, Level) smap" where
  "book b s = (if s = Buy then bk_bids b else bk_asks b)"

text \<open>Writing through the reference that \<^verbatim>\<open>book(Side)\<close> returns.\<close>

definition set_book :: "OrderBook \<Rightarrow> Side \<Rightarrow> (Price, Level) smap \<Rightarrow> OrderBook" where
  "set_book b s m = (if s = Buy then b\<lparr>bk_bids := m\<rparr> else b\<lparr>bk_asks := m\<rparr>)"

definition add :: "OrderBook \<Rightarrow> Order \<Rightarrow> OrderBook" where
  "add b ord =
     (let m = book b (o_side ord);
          lvl = (case map_of m (o_price ord) of None \<Rightarrow> [] | Some l \<Rightarrow> l);
          it = next_node b;
          b1 = set_book b (o_side ord) (smap_put (o_price ord) (lvl @ [(it, ord)]) m)
      in b1\<lparr>next_node := Suc it,
            bk_index := (bk_index b1)(o_id ord \<mapsto>
              \<lparr>loc_side = o_side ord, loc_price = o_price ord, loc_it = it\<rparr>)\<rparr>)"

text \<open>\<^verbatim>\<open>std::list::erase(it)\<close>: undefined unless \<open>it\<close> points at a node of this list.\<close>

definition list_erase :: "iter \<Rightarrow> Level \<Rightarrow> Level option" where
  "list_erase it lvl =
     (if it \<in> fst ` set lvl then Some (filter (\<lambda>n. fst n \<noteq> it) lvl) else None)"

definition cancel :: "OrderBook \<Rightarrow> OrderId \<Rightarrow> (bool \<times> OrderBook) option" where
  "cancel b oid =
     (case bk_index b oid of
        None \<Rightarrow> Some (False, b)
      | Some loc \<Rightarrow> do {
          let m = book b (loc_side loc);
          m' \<leftarrow> (case map_of m (loc_price loc) of
                   None \<Rightarrow> Some m
                 | Some lvl \<Rightarrow> do {
                     lvl' \<leftarrow> list_erase (loc_it loc) lvl;
                     Some (if lvl' = [] then smap_erase (loc_price loc) m
                           else smap_put (loc_price loc) lvl' m)
                   });
          let b1 = set_book b (loc_side loc) m';
          Some (True, b1\<lparr>bk_index := (bk_index b1)(oid := None)\<rparr>)
        })"

text \<open>The pair that \<^verbatim>\<open>rbegin()\<close> of the bids and \<^verbatim>\<open>begin()\<close> of the asks give.\<close>

definition best_level :: "OrderBook \<Rightarrow> Side \<Rightarrow> (Price \<times> Level) option" where
  "best_level b s =
     (let m = book b s in
      if m = [] then None else Some (if s = Buy then last m else hd m))"

definition best_price :: "OrderBook \<Rightarrow> Side \<Rightarrow> Price option" where
  "best_price b s = map_option fst (best_level b s)"

definition best :: "OrderBook \<Rightarrow> Side \<Rightarrow> Order option" where
  "best b s =
     (case best_level b s of
        None \<Rightarrow> None
      | Some (px, lvl) \<Rightarrow> (case lvl of [] \<Rightarrow> None | n # _ \<Rightarrow> Some (snd n)))"

definition reduce_front :: "OrderBook \<Rightarrow> Side \<Rightarrow> Qty \<Rightarrow> OrderBook option" where
  "reduce_front b s qty =
     (case best_level b s of
        None \<Rightarrow> Some b
      | Some (px, lvl) \<Rightarrow>
          (case lvl of
             [] \<Rightarrow> Some (set_book b s (smap_erase px (book b s)))
           | (it, front) # rest \<Rightarrow> do {
               q \<leftarrow> chk64 (o_qty front - qty);
               if q \<le> 0
               then let m = (if rest = [] then smap_erase px (book b s)
                             else smap_put px rest (book b s));
                        b1 = set_book b s m
                    in Some (b1\<lparr>bk_index := (bk_index b1)(o_id front := None)\<rparr>)
               else Some (set_book b s
                      (smap_put px ((it, front\<lparr>o_qty := q\<rparr>) # rest) (book b s)))
             }))"

text \<open>The summation loop of \<^verbatim>\<open>qty_at\<close>, from the running total \<open>t\<close>.\<close>

fun sum_level :: "Qty \<Rightarrow> Level \<Rightarrow> Qty option" where
  "sum_level t [] = Some t"
| "sum_level t (n # ns) = do { t' \<leftarrow> chk64 (t + o_qty (snd n)); sum_level t' ns }"

definition qty_at :: "OrderBook \<Rightarrow> Side \<Rightarrow> Price \<Rightarrow> Qty option" where
  "qty_at b s px = (case map_of (book b s) px of None \<Rightarrow> Some 0 | Some lvl \<Rightarrow> sum_level 0 lvl)"

definition level_count :: "OrderBook \<Rightarrow> Side \<Rightarrow> nat" where
  "level_count b s = length (book b s)"

section \<open>Resting orders and the invariant of the book\<close>

text \<open>The nodes of a side, each with its price, from the lowest price up and oldest first.\<close>

definition nodes :: "(Price, Level) smap \<Rightarrow> (Price \<times> iter \<times> Order) list" where
  "nodes m = concat (map (\<lambda>(px, lvl). map (\<lambda>(it, ord). (px, it, ord)) lvl) m)"

text \<open>
  A side: prices ascend, no level is empty, each level holds its nodes in the order in which they
  were allocated (arrival order) and each order rests on its own side at its own price.
\<close>

definition side_ok :: "Side \<Rightarrow> (Price, Level) smap \<Rightarrow> bool" where
  "side_ok s m \<longleftrightarrow> smap_ok m \<and>
     (\<forall>(px, lvl) \<in> set m. lvl \<noteq> [] \<and> sorted_wrt (<) (map fst lvl) \<and>
        (\<forall>(it, ord) \<in> set lvl. o_side ord = s \<and> o_price ord = px))"

text \<open>Addresses are those of allocated nodes, and no two nodes share one.\<close>

definition iters_ok :: "OrderBook \<Rightarrow> bool" where
  "iters_ok b \<longleftrightarrow>
     (\<forall>s px it ord. (px, it, ord) \<in> set (nodes (book b s)) \<longrightarrow> it < next_node b) \<and>
     (\<forall>s px it ord s' px' ord'.
        (px, it, ord) \<in> set (nodes (book b s)) \<longrightarrow> (px', it, ord') \<in> set (nodes (book b s')) \<longrightarrow>
        s = s' \<and> px = px' \<and> ord = ord')"

definition located :: "OrderBook \<Rightarrow> OrderId \<Rightarrow> Location \<Rightarrow> bool" where
  "located b oid loc \<longleftrightarrow>
     (\<exists>ord. (loc_price loc, loc_it loc, ord) \<in> set (nodes (book b (loc_side loc))) \<and> o_id ord = oid)"

text \<open>
  No stored iterator dangles: every entry of the index points at a live node that holds the
  order with the entry's id.
\<close>

definition index_ok :: "OrderBook \<Rightarrow> bool" where
  "index_ok b \<longleftrightarrow> (\<forall>oid loc. bk_index b oid = Some loc \<longrightarrow> located b oid loc)"

definition book_inv :: "OrderBook \<Rightarrow> bool" where
  "book_inv b \<longleftrightarrow> (\<forall>s. side_ok s (book b s)) \<and> iters_ok b \<and> index_ok b"

text \<open>Every resting order can be found through the index, so that no two share an id.\<close>

definition fully_indexed :: "OrderBook \<Rightarrow> bool" where
  "fully_indexed b \<longleftrightarrow>
     (\<forall>s px it ord. (px, it, ord) \<in> set (nodes (book b s)) \<longrightarrow>
        bk_index b (o_id ord) = Some \<lparr>loc_side = s, loc_price = px, loc_it = it\<rparr>)"

text \<open>Resting quantities are positive and in the range of the type.\<close>

definition qtys_ok :: "OrderBook \<Rightarrow> bool" where
  "qtys_ok b \<longleftrightarrow>
     (\<forall>s px it ord. (px, it, ord) \<in> set (nodes (book b s)) \<longrightarrow> 0 < o_qty ord \<and> i64_ok (o_qty ord))"

section \<open>Replacing one level\<close>

text \<open>Every operation that changes a side writes one level, or erases it when it is empty.\<close>

definition put_level :: "Price \<Rightarrow> Level \<Rightarrow> (Price, Level) smap \<Rightarrow> (Price, Level) smap" where
  "put_level px lvl m = (if lvl = [] then smap_erase px m else smap_put px lvl m)"

definition level_of :: "(Price, Level) smap \<Rightarrow> Price \<Rightarrow> Level" where
  "level_of m px = (case map_of m px of None \<Rightarrow> [] | Some l \<Rightarrow> l)"

lemma book_set_book [simp]: "book (set_book b s m) s' = (if s' = s then m else book b s')"
  by (cases s; cases s') (simp_all add: book_def set_book_def)

lemma set_book_fields [simp]:
  "bk_index (set_book b s m) = bk_index b"
  "next_node (set_book b s m) = next_node b"
  "bk_symbol (set_book b s m) = bk_symbol b"
  by (simp_all add: set_book_def)

lemma book_frame [simp]:
  "book (b\<lparr>bk_index := ix\<rparr>) s = book b s"
  "book (b\<lparr>next_node := k\<rparr>) s = book b s"
  by (simp_all add: book_def)

lemma mem_nodes:
  "(px, it, ord) \<in> set (nodes m) \<longleftrightarrow> (\<exists>lvl. (px, lvl) \<in> set m \<and> (it, ord) \<in> set lvl)"
  by (auto simp: nodes_def split: prod.splits)

lemma smap_ok_put_level: "smap_ok m \<Longrightarrow> smap_ok (put_level px lvl m)"
  by (simp add: put_level_def smap_simps)

lemma set_put_level:
  "smap_ok m \<Longrightarrow> set (put_level px lvl m) =
     (if lvl = [] then {} else {(px, lvl)}) \<union> {p \<in> set m. fst p \<noteq> px}"
  by (auto simp: put_level_def smap_simps set_smap_put)

lemma nodes_put_level:
  "smap_ok m \<Longrightarrow> (px', it, ord) \<in> set (nodes (put_level px lvl m)) \<longleftrightarrow>
     (if px' = px then (it, ord) \<in> set lvl else (px', it, ord) \<in> set (nodes m))"
  by (auto simp: mem_nodes set_put_level)

lemma nodes_level_of:
  "smap_ok m \<Longrightarrow> (px, it, ord) \<in> set (nodes m) \<longleftrightarrow> (it, ord) \<in> set (level_of m px)"
  by (cases "map_of m px") (auto simp: mem_nodes level_of_def smap_in_set_map_of)

lemma side_ok_put_level:
  assumes "side_ok s m" "sorted_wrt (<) (map fst lvl)"
    and "\<forall>(it, ord) \<in> set lvl. o_side ord = s \<and> o_price ord = px"
  shows "side_ok s (put_level px lvl m)"
proof -
  have ok: "smap_ok m" using assms(1) by (simp add: side_ok_def)
  show ?thesis
    using assms smap_ok_put_level [OF ok]
    by (auto simp: side_ok_def set_put_level [OF ok] split: if_splits)
qed

text \<open>
  The one preservation argument of the book: a level of side \<open>s\<close> is replaced by nodes that were
  in it already (with orders that may have changed) or are freshly allocated, and the new index
  holds live locations only.
\<close>

lemma book_inv_put_level:
  assumes inv: "book_inv b"
    and b': "b' = (set_book b s (put_level px lvl (book b s)))\<lparr>bk_index := ix, next_node := k\<rparr>"
    and lvl: "sorted_wrt (<) (map fst lvl)" "\<forall>(it, ord) \<in> set lvl. o_side ord = s \<and> o_price ord = px"
    and iters: "\<forall>(it, ord) \<in> set lvl. it < k \<and>
      (it \<in> fst ` set (level_of (book b s) px) \<or> next_node b \<le> it)"
    and k: "next_node b \<le> k"
    and ix: "\<And>oid loc. ix oid = Some loc \<Longrightarrow> located b' oid loc"
  shows "book_inv b'"
proof -
  have ok: "smap_ok (book b s)" using inv by (simp add: book_inv_def side_ok_def)
  have nodes': "(q, it, ord) \<in> set (nodes (book b' s')) \<longleftrightarrow>
      (if s' = s \<and> q = px then (it, ord) \<in> set lvl else (q, it, ord) \<in> set (nodes (book b s')))"
    for q it ord s'
    by (simp add: b' nodes_put_level [OF ok])
  have old: "\<exists>ord'. (px, it, ord') \<in> set (nodes (book b s))"
    if "(it, ord) \<in> set lvl" "it < next_node b" for it ord
    using iters that by (force simp: nodes_level_of [OF ok])
  have below: "it < next_node b" if "(q, it, ord) \<in> set (nodes (book b s'))" for q it ord s'
    using inv that unfolding book_inv_def iters_ok_def by blast
  have uniq: "s1 = s2 \<and> q1 = q2 \<and> o1 = o2"
    if "(q1, it, o1) \<in> set (nodes (book b s1))" "(q2, it, o2) \<in> set (nodes (book b s2))"
    for q1 it o1 s1 q2 o2 s2
    using inv that unfolding book_inv_def iters_ok_def by blast
  have same: "o1 = o2" if "(it, o1) \<in> set lvl" "(it, o2) \<in> set lvl" for it o1 o2
    using lvl(1) that by (auto simp: strict_sorted_iff dest: eq_key_imp_eq_value)
  have "iters_ok b'"
    unfolding iters_ok_def
  proof (intro conjI allI impI)
    fix s' q it ord assume "(q, it, ord) \<in> set (nodes (book b' s'))"
    moreover have "next_node b' = k" by (simp add: b')
    ultimately show "it < next_node b'"
      using iters k below [of q it ord s'] unfolding nodes' by (auto split: if_splits)
  next
    fix s1 q1 it o1 s2 q2 o2
    assume n1: "(q1, it, o1) \<in> set (nodes (book b' s1))"
      and n2: "(q2, it, o2) \<in> set (nodes (book b' s2))"
    show "s1 = s2" "q1 = q2" "o1 = o2"
      using n1 n2 same [of it o1 o2] old [of it o1] old [of it o2] uniq [of _ it] below
      unfolding nodes' by (metis (full_types))+
  qed
  moreover have "side_ok s' (book b' s')" for s'
    using inv lvl by (simp add: b' book_inv_def side_ok_put_level)
  moreover have "index_ok b'"
    using ix by (simp add: index_ok_def b')
  ultimately show ?thesis by (simp add: book_inv_def)
qed

section \<open>The operations keep the invariant\<close>

lemma book_inv_side: "book_inv b \<Longrightarrow> side_ok s (book b s)"
  by (simp add: book_inv_def)

lemma side_ok_level:
  assumes "side_ok s m" "(px, lvl) \<in> set m"
  shows "lvl \<noteq> []" and "sorted_wrt (<) (map fst lvl)"
    and "n \<in> set lvl \<Longrightarrow> o_side (snd n) = s \<and> o_price (snd n) = px"
  using assms by (cases n; fastforce simp: side_ok_def)+

lemma book_inv_smap: "book_inv b \<Longrightarrow> smap_ok (book b s)"
  by (simp add: book_inv_def side_ok_def)

lemma book_inv_index: "book_inv b \<Longrightarrow> bk_index b oid = Some loc \<Longrightarrow> located b oid loc"
  by (simp add: book_inv_def index_ok_def)

lemma book_inv_below:
  "book_inv b \<Longrightarrow> (px, it, ord) \<in> set (nodes (book b s)) \<Longrightarrow> it < next_node b"
  unfolding book_inv_def iters_ok_def by blast

lemma book_inv_unique:
  assumes "book_inv b" "(px, it, ord) \<in> set (nodes (book b s))"
    and "(px', it, ord') \<in> set (nodes (book b s'))"
  shows "s = s' \<and> px = px' \<and> ord = ord'"
  using assms unfolding book_inv_def iters_ok_def by blast

lemma book_inv_level:
  assumes "book_inv b"
  shows "sorted_wrt (<) (map fst (level_of (book b s) px))"
    and "(it, ord) \<in> set (level_of (book b s) px) \<Longrightarrow> o_side ord = s \<and> o_price ord = px"
  using book_inv_side [OF assms, of s]
  by (cases "map_of (book b s) px"; fastforce simp: level_of_def side_ok_def dest: map_of_SomeD)+

lemma book_inv_new_book: "book_inv (new_book sm)"
  by (auto simp: book_inv_def side_ok_def iters_ok_def index_ok_def new_book_def book_def nodes_def)

lemma add_put_level:
  "add b ord =
     (set_book b (o_side ord)
        (put_level (o_price ord)
          (level_of (book b (o_side ord)) (o_price ord) @ [(next_node b, ord)])
          (book b (o_side ord))))
     \<lparr>bk_index := (bk_index b)(o_id ord \<mapsto>
        \<lparr>loc_side = o_side ord, loc_price = o_price ord, loc_it = next_node b\<rparr>),
      next_node := Suc (next_node b)\<rparr>"
  by (simp add: add_def put_level_def level_of_def Let_def)

lemma nodes_add:
  assumes "book_inv b"
  shows "(px, it, x) \<in> set (nodes (book (add b ord) s)) \<longleftrightarrow>
    (px, it, x) \<in> set (nodes (book b s)) \<or>
    (s = o_side ord \<and> px = o_price ord \<and> it = next_node b \<and> x = ord)"
  using book_inv_smap [OF assms, of "o_side ord"]
  by (auto simp: add_put_level nodes_put_level nodes_level_of)

lemma book_inv_add:
  assumes inv: "book_inv b"
  shows "book_inv (add b ord)"
proof (rule book_inv_put_level [OF inv add_put_level])
  note ok = book_inv_smap [OF inv, of "o_side ord"]
  let ?old = "level_of (book b (o_side ord)) (o_price ord)"
  have below: "it < next_node b" if "(it, x) \<in> set ?old" for it x
    using that book_inv_below [OF inv] by (simp flip: nodes_level_of [OF ok])
  show "sorted_wrt (<) (map fst (?old @ [(next_node b, ord)]))"
    using book_inv_level(1) [OF inv] below by (auto simp: sorted_wrt_append)
  show "\<forall>(it, x) \<in> set (?old @ [(next_node b, ord)]). o_side x = o_side ord \<and> o_price x = o_price ord"
    using book_inv_level(2) [OF inv] by auto
  show "\<forall>(it, x) \<in> set (?old @ [(next_node b, ord)]). it < Suc (next_node b) \<and>
      (it \<in> fst ` set ?old \<or> next_node b \<le> it)"
    using below by (force simp: less_Suc_eq)
  show "located (add b ord) oid loc"
    if "((bk_index b)(o_id ord \<mapsto>
        \<lparr>loc_side = o_side ord, loc_price = o_price ord, loc_it = next_node b\<rparr>)) oid = Some loc"
    for oid loc
    using that book_inv_index [OF inv, of oid loc]
    by (auto simp: located_def nodes_add [OF inv] split: if_splits)
qed simp

lemma best_level_mem: "best_level b s = Some (px, lvl) \<Longrightarrow> (px, lvl) \<in> set (book b s)"
  by (auto simp: best_level_def Let_def split: if_splits intro: last_in_set list.set_sel(1))
     (metis last_in_set list.set_sel(1))+

lemma best_level_level_of:
  "book_inv b \<Longrightarrow> best_level b s = Some (px, lvl) \<Longrightarrow> level_of (book b s) px = lvl \<and> lvl \<noteq> []"
  using best_level_mem [of b s px lvl] book_inv_side [of b s]
  by (auto simp: level_of_def side_ok_def smap_in_set_map_of)

text \<open>The two ways \<^verbatim>\<open>reduce_front\<close> changes a book: the front order goes, or it shrinks.\<close>

definition drop_front :: "OrderBook \<Rightarrow> Side \<Rightarrow> Price \<Rightarrow> OrderId \<Rightarrow> Level \<Rightarrow> OrderBook" where
  "drop_front b s px oid rest =
     (set_book b s (put_level px rest (book b s)))
       \<lparr>bk_index := (bk_index b)(oid := None), next_node := next_node b\<rparr>"

definition shrink_front :: "OrderBook \<Rightarrow> Side \<Rightarrow> Price \<Rightarrow> iter \<Rightarrow> Order \<Rightarrow> Level \<Rightarrow> OrderBook" where
  "shrink_front b s px it front rest =
     (set_book b s (put_level px ((it, front) # rest) (book b s)))
       \<lparr>bk_index := bk_index b, next_node := next_node b\<rparr>"

lemma same_fields [simp]:
  "(set_book b s m)\<lparr>bk_index := ix, next_node := next_node b\<rparr> = (set_book b s m)\<lparr>bk_index := ix\<rparr>"
  "(set_book b s m)\<lparr>bk_index := bk_index b\<rparr> = set_book b s m"
  by (simp_all add: set_book_def)

lemma reduce_front_cons:
  assumes "best_level b s = Some (px, (it, front) # rest)"
  shows "reduce_front b s q =
    (if i64_ok (o_qty front - q)
     then Some (if o_qty front \<le> q then drop_front b s px (o_id front) rest
                else shrink_front b s px it (front\<lparr>o_qty := o_qty front - q\<rparr>) rest)
     else None)"
  using assms
  by (simp add: reduce_front_def drop_front_def shrink_front_def put_level_def chk64_def Let_def)

lemma best_front_node:
  assumes "book_inv b" "best_level b s = Some (px, (it, front) # rest)"
  shows "(px, it, front) \<in> set (nodes (book b s))" and "o_side front = s" and "o_price front = px"
    and "it \<notin> fst ` set rest"
proof -
  have lvl: "level_of (book b s) px = (it, front) # rest"
    using best_level_level_of [OF assms] by simp
  then show "(px, it, front) \<in> set (nodes (book b s))"
    by (simp add: nodes_level_of [OF book_inv_smap [OF assms(1)]])
  show "o_side front = s" "o_price front = px"
    using book_inv_level(2) [OF assms(1), of it front s px] lvl by simp_all
  show "it \<notin> fst ` set rest"
    using book_inv_level(1) [OF assms(1), of s px] lvl by (auto simp: strict_sorted_iff)
qed

lemma best_level_nodes:
  assumes "book_inv b" "best_level b s = Some (px, (it, front) # rest)"
  shows "(px, i, x) \<in> set (nodes (book b s)) \<longleftrightarrow> (i = it \<and> x = front) \<or> (i, x) \<in> set rest"
  using best_level_level_of [OF assms] nodes_level_of [OF book_inv_smap [OF assms(1)], of px i x]
  by simp

lemma best_front_unique:
  assumes "book_inv b" "best_level b s = Some (px, (it, front) # rest)"
    and "(q, it, x) \<in> set (nodes (book b s'))"
  shows "s' = s \<and> q = px \<and> x = front"
  using book_inv_unique [OF assms(1,3) best_front_node(1) [OF assms(1,2)]] .

lemma nodes_drop_front:
  assumes "book_inv b" "best_level b s = Some (px, (it, front) # rest)"
  shows "(q, i, x) \<in> set (nodes (book (drop_front b s px oid rest) s')) \<longleftrightarrow>
    (q, i, x) \<in> set (nodes (book b s')) \<and> i \<noteq> it"
proof (cases "s' = s \<and> q = px")
  case True
  then show ?thesis
    using best_front_node(4) [OF assms]
    by (auto simp: drop_front_def nodes_put_level [OF book_inv_smap [OF assms(1)]]
        best_level_nodes [OF assms] image_iff)
next
  case False
  then show ?thesis
    using best_front_unique [OF assms]
    by (auto simp: drop_front_def nodes_put_level [OF book_inv_smap [OF assms(1)]])
qed

lemma nodes_shrink_front:
  assumes "book_inv b" "best_level b s = Some (px, (it, front) # rest)"
  shows "(q, i, x) \<in> set (nodes (book (shrink_front b s px it front' rest) s')) \<longleftrightarrow>
    (if i = it then s' = s \<and> q = px \<and> x = front' else (q, i, x) \<in> set (nodes (book b s')))"
proof (cases "s' = s \<and> q = px")
  case True
  then show ?thesis
    using best_front_node(4) [OF assms]
    by (auto simp: shrink_front_def nodes_put_level [OF book_inv_smap [OF assms(1)]]
        best_level_nodes [OF assms] image_iff)
next
  case False
  then show ?thesis
    using best_front_unique [OF assms]
    by (auto simp: shrink_front_def nodes_put_level [OF book_inv_smap [OF assms(1)]])
qed

lemma best_rest:
  assumes inv: "book_inv b" and best: "best_level b s = Some (px, (it, front) # rest)"
  shows "level_of (book b s) px = (it, front) # rest" and "sorted_wrt (<) (map fst ((it, front) # rest))"
    and "it < next_node b"
    and "(i, x) \<in> set rest \<Longrightarrow> o_side x = s \<and> o_price x = px \<and> i < next_node b"
proof -
  show lvl: "level_of (book b s) px = (it, front) # rest"
    using best_level_level_of [OF inv best] by simp
  show "sorted_wrt (<) (map fst ((it, front) # rest))"
    using book_inv_level(1) [OF inv, of s px] by (simp only: lvl)
  show "it < next_node b"
    by (rule book_inv_below [OF inv best_front_node(1) [OF inv best]])
  show "o_side x = s \<and> o_price x = px \<and> i < next_node b" if "(i, x) \<in> set rest"
  proof -
    have "(i, x) \<in> set (level_of (book b s) px)" using that lvl by simp
    moreover have "(px, i, x) \<in> set (nodes (book b s))"
      using that by (simp add: best_level_nodes [OF inv best])
    ultimately show ?thesis
      using book_inv_level(2) [OF inv] book_inv_below [OF inv] by blast
  qed
qed

lemma book_inv_drop_front:
  assumes inv: "book_inv b" and best: "best_level b s = Some (px, (it, front) # rest)"
  shows "book_inv (drop_front b s px (o_id front) rest)"
proof (rule book_inv_put_level [OF inv drop_front_def])
  note rest = best_rest [OF inv best]
  show "sorted_wrt (<) (map fst rest)"
    using rest(2) by simp
  show "\<forall>(it, ord) \<in> set rest. o_side ord = s \<and> o_price ord = px"
    using rest(4) by blast
  show "\<forall>(i, ord) \<in> set rest. i < next_node b \<and>
      (i \<in> fst ` set (level_of (book b s) px) \<or> next_node b \<le> i)"
    using rest(4) by (force simp: rest(1))
  show "located (drop_front b s px (o_id front) rest) oid loc"
    if "((bk_index b)(o_id front := None)) oid = Some loc" for oid loc
  proof -
    from that have "located b oid loc" and neq: "oid \<noteq> o_id front"
      using book_inv_index [OF inv, of oid loc] by (auto split: if_splits)
    then obtain x where x: "(loc_price loc, loc_it loc, x) \<in> set (nodes (book b (loc_side loc)))"
      and "o_id x = oid" by (auto simp: located_def)
    moreover from this neq have "loc_it loc \<noteq> it"
      using best_front_unique [OF inv best] by metis
    ultimately show ?thesis
      by (auto simp: located_def nodes_drop_front [OF inv best])
  qed
qed simp

lemma book_inv_shrink_front:
  assumes inv: "book_inv b" and best: "best_level b s = Some (px, (it, front) # rest)"
  shows "book_inv (shrink_front b s px it (front\<lparr>o_qty := q\<rparr>) rest)"
proof (rule book_inv_put_level [OF inv shrink_front_def])
  note rest = best_rest [OF inv best]
  let ?new = "(it, front\<lparr>o_qty := q\<rparr>) # rest"
  show "sorted_wrt (<) (map fst ?new)"
    using rest(2) by simp
  show "\<forall>(it, ord) \<in> set ?new. o_side ord = s \<and> o_price ord = px"
    using rest(4) best_front_node(2,3) [OF inv best] by simp blast
  show "\<forall>(i, ord) \<in> set ?new. i < next_node b \<and>
      (i \<in> fst ` set (level_of (book b s) px) \<or> next_node b \<le> i)"
    using rest(3,4) by (force simp: rest(1))
  show "located (shrink_front b s px it (front\<lparr>o_qty := q\<rparr>) rest) oid loc"
    if "bk_index b oid = Some loc" for oid loc
  proof -
    from book_inv_index [OF inv that] obtain x
      where x: "(loc_price loc, loc_it loc, x) \<in> set (nodes (book b (loc_side loc)))" "o_id x = oid"
      by (auto simp: located_def)
    show ?thesis
    proof (cases "loc_it loc = it")
      case True
      with x best_front_unique [OF inv best, of "loc_price loc" x "loc_side loc"]
      show ?thesis by (simp add: located_def nodes_shrink_front [OF inv best])
    next
      case False
      with x show ?thesis by (auto simp: located_def nodes_shrink_front [OF inv best])
    qed
  qed
qed simp

lemma best_level_cases:
  assumes "book_inv b"
  obtains "best_level b s = None" "book b s = []"
  | px it front rest where "best_level b s = Some (px, (it, front) # rest)"
proof (cases "best_level b s")
  case None
  then have "book b s = []" by (simp add: best_level_def Let_def split: if_splits)
  with None show ?thesis by (rule that(1))
next
  case (Some p)
  then obtain px lvl where p: "best_level b s = Some (px, lvl)" by (cases p) auto
  with best_level_level_of [OF assms p] obtain it front rest where "lvl = (it, front) # rest"
    by (cases lvl) auto
  with p show ?thesis by (auto intro: that(2))
qed

lemma book_inv_reduce_front:
  assumes "book_inv b" "reduce_front b s q = Some b'"
  shows "book_inv b'"
proof (rule best_level_cases [OF assms(1), of s], goal_cases)
  case 1
  with assms show ?case by (simp add: reduce_front_def)
next
  case (2 px it front rest)
  with assms show ?case
    by (auto simp: reduce_front_cons book_inv_drop_front book_inv_shrink_front split: if_splits)
qed

text \<open>A known id is cancelled without touching a dead node, and only its node leaves the book.\<close>

definition cancelled :: "OrderBook \<Rightarrow> OrderId \<Rightarrow> Location \<Rightarrow> OrderBook" where
  "cancelled b oid loc =
     (set_book b (loc_side loc)
        (put_level (loc_price loc)
          (filter (\<lambda>n. fst n \<noteq> loc_it loc) (level_of (book b (loc_side loc)) (loc_price loc)))
          (book b (loc_side loc))))
       \<lparr>bk_index := (bk_index b)(oid := None), next_node := next_node b\<rparr>"

lemma cancel_known:
  assumes inv: "book_inv b" and loc: "bk_index b oid = Some loc"
  shows "cancel b oid = Some (True, cancelled b oid loc)"
proof -
  from book_inv_index [OF inv loc] obtain ord
    where "(loc_price loc, loc_it loc, ord) \<in> set (nodes (book b (loc_side loc)))"
    by (auto simp: located_def)
  then have mem: "(loc_it loc, ord) \<in> set (level_of (book b (loc_side loc)) (loc_price loc))"
    by (simp add: nodes_level_of [OF book_inv_smap [OF inv]])
  then obtain lvl where "map_of (book b (loc_side loc)) (loc_price loc) = Some lvl"
    by (cases "map_of (book b (loc_side loc)) (loc_price loc)") (auto simp: level_of_def)
  then show ?thesis
    using mem by (force simp: cancel_def loc list_erase_def level_of_def cancelled_def put_level_def Let_def)
qed

lemma cancel_unknown: "bk_index b oid = None \<Longrightarrow> cancel b oid = Some (False, b)"
  by (simp add: cancel_def)

lemma nodes_cancelled:
  assumes inv: "book_inv b" and loc: "bk_index b oid = Some loc"
  shows "(q, i, x) \<in> set (nodes (book (cancelled b oid loc) s)) \<longleftrightarrow>
    (q, i, x) \<in> set (nodes (book b s)) \<and> i \<noteq> loc_it loc"
proof -
  note ok = book_inv_smap [OF inv, of "loc_side loc"]
  have "s = loc_side loc \<and> q = loc_price loc" if "(q, loc_it loc, x) \<in> set (nodes (book b s))"
    using book_inv_index [OF inv loc] book_inv_unique [OF inv that] by (auto simp: located_def)
  then show ?thesis
    by (cases "s = loc_side loc \<and> q = loc_price loc")
       (auto simp: cancelled_def nodes_put_level [OF ok] nodes_level_of [OF ok])
qed

lemma book_inv_cancelled:
  assumes inv: "book_inv b" and loc: "bk_index b oid = Some loc"
  shows "book_inv (cancelled b oid loc)"
proof (rule book_inv_put_level [OF inv cancelled_def])
  note ok = book_inv_smap [OF inv, of "loc_side loc"]
  let ?lvl = "level_of (book b (loc_side loc)) (loc_price loc)"
  let ?new = "filter (\<lambda>n. fst n \<noteq> loc_it loc) ?lvl"
  have below: "i < next_node b" if "(i, x) \<in> set ?lvl" for i x
    using that book_inv_below [OF inv] by (simp flip: nodes_level_of [OF ok])
  show "sorted_wrt (<) (map fst ?new)"
    using book_inv_level(1) [OF inv] by (simp add: sorted_wrt_map sorted_wrt_filter)
  show "\<forall>(it, ord) \<in> set ?new. o_side ord = loc_side loc \<and> o_price ord = loc_price loc"
    using book_inv_level(2) [OF inv] by auto
  show "\<forall>(it, ord) \<in> set ?new. it < next_node b \<and>
      (it \<in> fst ` set ?lvl \<or> next_node b \<le> it)"
    using below by force
  show "located (cancelled b oid loc) oid' loc'"
    if "((bk_index b)(oid := None)) oid' = Some loc'" for oid' loc'
  proof -
    from that have neq: "oid' \<noteq> oid" and "located b oid' loc'"
      using book_inv_index [OF inv, of oid' loc'] by (auto split: if_splits)
    then obtain x where x: "(loc_price loc', loc_it loc', x) \<in> set (nodes (book b (loc_side loc')))"
      and "o_id x = oid'" by (auto simp: located_def)
    moreover have "loc_it loc' \<noteq> loc_it loc"
    proof
      assume "loc_it loc' = loc_it loc"
      with book_inv_index [OF inv loc] obtain y where "o_id y = oid"
        and "(loc_price loc, loc_it loc', y) \<in> set (nodes (book b (loc_side loc)))"
        by (auto simp: located_def)
      with book_inv_unique [OF inv x] \<open>o_id x = oid'\<close> neq show False by blast
    qed
    ultimately show ?thesis
      by (auto simp: located_def nodes_cancelled [OF inv loc])
  qed
qed simp

lemma book_inv_cancel:
  "book_inv b \<Longrightarrow> cancel b oid = Some (found, b') \<Longrightarrow> book_inv b'"
  by (cases "bk_index b oid") (auto simp: cancel_unknown cancel_known book_inv_cancelled)

end
