(* ===== verification/Book_Priority.thy ===== *)
theory Book_Priority
  imports Order_Book
begin

text \<open>
  The book read as the queue in which its orders trade: best price first, oldest first within a
  price.  Each operation of \<^verbatim>\<open>OrderBook\<close> is characterised by what it does to that queue.
\<close>

section \<open>The trading queue of a side\<close>

definition priority :: "OrderBook \<Rightarrow> Side \<Rightarrow> Level" where
  "priority b s = concat (map snd (if s = Buy then rev (book b s) else book b s))"

definition makers :: "OrderBook \<Rightarrow> Side \<Rightarrow> Order list" where
  "makers b s = map snd (priority b s)"

text \<open>\<open>at_least_as_good s p q\<close>: on side \<open>s\<close> an order at price \<open>p\<close> trades before one that arrives later at \<open>q\<close>.\<close>

definition at_least_as_good :: "Side \<Rightarrow> Price \<Rightarrow> Price \<Rightarrow> bool" where
  "at_least_as_good s p q = (if s = Buy then q \<le> p else p \<le> q)"

definition better :: "Side \<Rightarrow> Price \<Rightarrow> Price \<Rightarrow> bool" where
  "better s p q = (if s = Buy then q < p else p < q)"

definition trades_before :: "Side \<Rightarrow> iter \<times> Order \<Rightarrow> iter \<times> Order \<Rightarrow> bool" where
  "trades_before s m n \<longleftrightarrow>
     better s (o_price (snd m)) (o_price (snd n)) \<or>
     (o_price (snd m) = o_price (snd n) \<and> fst m < fst n)"

lemma better_simps [simp]: "better Buy = (>)" "better Sell = (<)"
  by (simp_all add: fun_eq_iff better_def)

lemma set_priority: "set (priority b s) = {(it, ord). \<exists>px. (px, it, ord) \<in> set (nodes (book b s))}"
  by (auto simp: priority_def mem_nodes) force+

lemma in_priority:
  assumes "book_inv b"
  shows "(it, ord) \<in> set (priority b s) \<longleftrightarrow> (o_price ord, it, ord) \<in> set (nodes (book b s))"
proof -
  have "o_price ord = px" if "(px, it, ord) \<in> set (nodes (book b s))" for px
    using that book_inv_level(2) [OF assms, of it ord s px]
    by (simp add: nodes_level_of [OF book_inv_smap [OF assms]])
  then show ?thesis by (auto simp: set_priority)
qed

lemma sorted_concat_levels:
  assumes "\<forall>(px, lvl) \<in> set m. sorted_wrt (<) (map fst lvl) \<and> (\<forall>n \<in> set lvl. o_price (snd n) = px)"
    and "sorted_wrt (better s) (map fst m)"
  shows "sorted_wrt (trades_before s) (concat (map snd m))"
  using assms
proof (induction m)
  case (Cons p m)
  obtain px lvl where p: "p = (px, lvl)" by (cases p)
  have "sorted_wrt (trades_before s) lvl"
  proof -
    have px: "\<forall>n \<in> set lvl. o_price (snd n) = px" using Cons.prems(1) by (simp add: p)
    have "sorted_wrt (\<lambda>n n'. fst n < fst n') lvl"
      using Cons.prems(1) by (simp add: p sorted_wrt_map)
    then show ?thesis
      by (rule sorted_wrt_mono_rel [rotated]) (simp add: px trades_before_def)
  qed
  moreover have "trades_before s n n'" if "n \<in> set lvl" "n' \<in> set (concat (map snd m))" for n n'
  proof -
    from that(2) obtain qx l where l: "(qx, l) \<in> set m" "n' \<in> set l" by auto
    then have "better s px qx" using Cons.prems(2) by (auto simp: p)
    moreover have "o_price (snd n) = px" using Cons.prems(1) that(1) by (auto simp: p)
    moreover have "o_price (snd n') = qx" using Cons.prems(1) l by auto
    ultimately show ?thesis by (simp add: trades_before_def)
  qed
  ultimately show ?case using Cons by (auto simp: p sorted_wrt_append)
qed simp

lemma priority_sorted:
  assumes "book_inv b"
  shows "sorted_wrt (trades_before s) (priority b s)"
  unfolding priority_def
proof (rule sorted_concat_levels)
  have ok: "side_ok s (book b s)" using assms by (rule book_inv_side)
  show "\<forall>(px, lvl) \<in> set (if s = Buy then rev (book b s) else book b s).
      sorted_wrt (<) (map fst lvl) \<and> (\<forall>n \<in> set lvl. o_price (snd n) = px)"
    using side_ok_level [OF ok] by auto
  show "sorted_wrt (better s) (map fst (if s = Buy then rev (book b s) else book b s))"
    using ok by (cases s) (simp_all add: side_ok_def sorted_wrt_rev rev_map [symmetric])
qed

section \<open>How the operations change the queue\<close>

lemma priority_frame [simp]:
  "priority (b\<lparr>bk_index := ix\<rparr>) s = priority b s"
  "priority (b\<lparr>next_node := k\<rparr>) s = priority b s"
  by (simp_all add: priority_def)

lemma priority_set_book:
  "priority (set_book b s m) s' =
     (if s' = s then concat (map snd (if s = Buy then rev m else m)) else priority b s')"
  by (simp add: priority_def)

text \<open>Writing an existing level keeps every other level in its place.\<close>

lemma put_level_existing:
  assumes "smap_ok m" "px \<in> fst ` set m" "\<forall>p \<in> set m. snd p \<noteq> []"
  shows "put_level px lvl m =
    filter (\<lambda>p. snd p \<noteq> []) (map (\<lambda>p. (fst p, if fst p = px then lvl else snd p)) m)"
  using assms
proof (induction m)
  case (Cons p m)
  obtain q l where p: "p = (q, l)" by (cases p)
  show ?case
  proof (cases "q = px")
    case True
    then have "\<forall>r \<in> set m. fst r \<noteq> px" using Cons.prems(1) by (auto simp: p)
    then have "map (\<lambda>p. (fst p, if fst p = px then lvl else snd p)) m = m"
      by (auto intro!: map_idI)
    moreover have "filter (\<lambda>p. snd p \<noteq> []) m = m" "filter (\<lambda>r. fst r \<noteq> px) m = m"
      using Cons.prems(3) \<open>\<forall>r \<in> set m. fst r \<noteq> px\<close> by (auto simp: filter_id_conv)
    ultimately show ?thesis using True by (simp add: p put_level_def smap_erase_def)
  next
    case False
    with Cons.prems have "px \<in> fst ` set m" "q < px" by (auto simp: p)
    with Cons False show ?thesis by (auto simp: p put_level_def smap_erase_def)
  qed
qed simp

lemma concat_filter_nonempty: "concat (map snd (filter (\<lambda>p. snd p \<noteq> []) m)) = concat (map snd m)"
  by (induction m) auto

lemma priority_put_existing:
  assumes "book_inv b" "level_of (book b s) px \<noteq> []"
  shows "priority (set_book b s (put_level px lvl (book b s))) s =
    concat (map (\<lambda>p. if fst p = px then lvl else snd p) (if s = Buy then rev (book b s) else book b s))"
proof -
  have "px \<in> fst ` set (book b s)"
    using assms(2) by (force simp: level_of_def split: option.splits dest: map_of_SomeD)
  moreover have "\<forall>p \<in> set (book b s). snd p \<noteq> []"
    using book_inv_side [OF assms(1), of s] by (auto simp: side_ok_def)
  ultimately have "put_level px lvl (book b s) =
      filter (\<lambda>p. snd p \<noteq> []) (map (\<lambda>p. (fst p, if fst p = px then lvl else snd p)) (book b s))"
    using book_inv_smap [OF assms(1)] by (intro put_level_existing)
  then show ?thesis
    by (simp add: priority_set_book rev_filter rev_map concat_filter_nonempty comp_def)
qed

text \<open>Cancelling takes one node out of the queue and moves no other.\<close>

text \<open>Filtering a node out of its level is filtering it out of every level.\<close>

lemma cancelled_level:
  assumes inv: "book_inv b" and ord: "(p, it, ord) \<in> set (nodes (book b s))" and m: "set m \<subseteq> set (book b s)"
  shows "concat (map (\<lambda>l. if fst l = p then filter (\<lambda>n. fst n \<noteq> it) (level_of (book b s) p) else snd l) m) =
    filter (\<lambda>n. fst n \<noteq> it) (concat (map snd m))"
proof -
  have eq: "(if fst l = p then filter (\<lambda>n. fst n \<noteq> it) (level_of (book b s) p) else snd l) = filter (\<lambda>n. fst n \<noteq> it) (snd l)"
    if l: "l \<in> set (book b s)" for l
  proof (cases "fst l = p")
    case True
    then show ?thesis using l book_inv_smap [OF inv, of s] by (cases l) (simp add: level_of_def smap_in_set_map_of)
  next
    case False
    have "filter (\<lambda>n. fst n \<noteq> it) (snd l) = snd l"
    proof (intro filter_True ballI notI)
      fix n assume n: "n \<in> set (snd l)" "fst n = it"
      then have "(fst l, it, snd n) \<in> set (nodes (book b s))" using l unfolding mem_nodes by (metis prod.collapse)
      then show False using book_inv_unique [OF inv _ ord] False by blast
    qed
    with False show ?thesis by simp
  qed
  have "map (\<lambda>l. if fst l = p then filter (\<lambda>n. fst n \<noteq> it) (level_of (book b s) p) else snd l) m =
      map (\<lambda>l. filter (\<lambda>n. fst n \<noteq> it) (snd l)) m"
    using m by (intro map_cong refl eq) auto
  then show ?thesis by (simp only: filter_concat map_map comp_def)
qed

lemma priority_cancelled:
  assumes inv: "book_inv b" and loc: "bk_index b oid = Some loc"
  shows "priority (cancelled b oid loc) s = filter (\<lambda>n. fst n \<noteq> loc_it loc) (priority b s)"
proof -
  obtain ord where ord: "(loc_price loc, loc_it loc, ord) \<in> set (nodes (book b (loc_side loc)))"
    using book_inv_index [OF inv loc] by (auto simp: located_def)
  show ?thesis
  proof (cases "s = loc_side loc")
    case True
    have lvl: "level_of (book b s) (loc_price loc) \<noteq> []"
      using ord True by (auto simp: nodes_level_of [OF book_inv_smap [OF inv, of "loc_side loc"]])
    have "priority (cancelled b oid loc) s =
        concat (map (\<lambda>p. if fst p = loc_price loc
            then filter (\<lambda>n. fst n \<noteq> loc_it loc) (level_of (book b s) (loc_price loc)) else snd p)
          (if s = Buy then rev (book b s) else book b s))"
      unfolding cancelled_def True [symmetric] by (simp only: priority_frame priority_put_existing [OF inv lvl])
    also have "\<dots> = filter (\<lambda>n. fst n \<noteq> loc_it loc) (concat (map snd (if s = Buy then rev (book b s) else book b s)))"
      by (rule cancelled_level [OF inv ord [folded True]]) simp
    finally show ?thesis by (simp only: priority_def)
  next
    case False
    then have "filter (\<lambda>n. fst n \<noteq> loc_it loc) (priority b s) = priority b s"
      using book_inv_unique [OF inv ord] by (auto simp: set_priority filter_id_conv)
    with False show ?thesis by (simp add: cancelled_def priority_set_book)
  qed
qed

text \<open>Adding an order puts it behind every order that is at least as good, in front of the others.\<close>

lemma good_simps [simp]: "at_least_as_good Buy p q \<longleftrightarrow> q \<le> p" "at_least_as_good Sell p q \<longleftrightarrow> p \<le> q"
  by (simp_all add: at_least_as_good_def)

abbreviation ahead :: "Side \<Rightarrow> Price \<Rightarrow> iter \<times> Order \<Rightarrow> bool" where
  "ahead s px \<equiv> \<lambda>n. at_least_as_good s (o_price (snd n)) px"

definition insert_behind :: "Side \<Rightarrow> iter \<times> Order \<Rightarrow> Level \<Rightarrow> Level" where
  "insert_behind s n ns =
     takeWhile (ahead s (o_price (snd n))) ns @ n # dropWhile (ahead s (o_price (snd n))) ns"

lemma insert_behind_all:
  "\<forall>x \<in> set ns. ahead s (o_price (snd n)) x \<Longrightarrow> insert_behind s n ns = ns @ [n]"
  by (simp add: insert_behind_def takeWhile_eq_all_conv [THEN iffD2] dropWhile_eq_Nil_conv [THEN iffD2])

lemma none_while: "\<forall>x \<in> set xs. \<not> P x \<Longrightarrow> takeWhile P xs = [] \<and> dropWhile P xs = xs"
  by (cases xs) auto

lemma level_prices:
  "\<forall>(q, l) \<in> set m. l \<noteq> [] \<and> (\<forall>n \<in> set l. o_price (snd n) = q) \<Longrightarrow>
   n \<in> set (concat (map snd m)) \<Longrightarrow> o_price (snd n) \<in> fst ` set m"
  by force

lemma insert_ask:
  assumes "smap_ok m" "\<forall>(q, l) \<in> set m. l \<noteq> [] \<and> (\<forall>n \<in> set l. o_price (snd n) = q)"
  shows "concat (map snd (smap_put (o_price (snd n)) (level_of m (o_price (snd n)) @ [n]) m)) =
    insert_behind Sell n (concat (map snd m))"
  using assms
proof (induction m)
  case (Cons p m)
  obtain q l where p: "p = (q, l)" by (cases p)
  let ?px = "o_price (snd n)"
  have l: "l \<noteq> []" "\<And>x. x \<in> set l \<Longrightarrow> o_price (snd x) = q" using Cons.prems(2) by (auto simp: p)
  have after: "q < o_price (snd x)" if "x \<in> set (concat (map snd m))" for x
    using that level_prices [of m x] Cons.prems by (auto simp: p)
  consider "?px < q" | "?px = q" | "q < ?px" by linarith
  then show ?case
  proof cases
    case 1
    then have "map_of m ?px = None"
      using Cons.prems(1) by (force simp: p map_of_eq_None_iff)
    then show ?thesis
      using 1 l by (cases l) (auto simp: p insert_behind_def level_of_def)
  next
    case 2
    have "\<forall>x \<in> set (concat (map snd m)). \<not> ahead Sell ?px x"
      using after 2 by (auto simp: not_le)
    from none_while [OF this] show ?thesis
      using 2 l by (auto simp: p insert_behind_def level_of_def takeWhile_append dropWhile_append)
  next
    case 3
    then show ?thesis
      using Cons l by (auto simp: p insert_behind_def level_of_def takeWhile_append dropWhile_append)
  qed
qed (simp add: insert_behind_def level_of_def)

lemma insert_bid:
  assumes "smap_ok m" "\<forall>(q, l) \<in> set m. l \<noteq> [] \<and> (\<forall>n \<in> set l. o_price (snd n) = q)"
  shows "concat (map snd (rev (smap_put (o_price (snd n)) (level_of m (o_price (snd n)) @ [n]) m))) =
    insert_behind Buy n (concat (map snd (rev m)))"
  using assms
proof (induction m)
  case (Cons p m)
  obtain q l where p: "p = (q, l)" by (cases p)
  let ?px = "o_price (snd n)" and ?above = "concat (map snd (rev m))"
  have l: "l \<noteq> []" "\<And>x. x \<in> set l \<Longrightarrow> o_price (snd x) = q" using Cons.prems(2) by (auto simp: p)
  have above: "q < o_price (snd x)" if "x \<in> set ?above" for x
    using that level_prices [of m x] Cons.prems by (auto simp: p)
  consider "?px < q" | "?px = q" | "q < ?px" by linarith
  then show ?case
  proof cases
    case 1
    then have "map_of m ?px = None"
      using Cons.prems(1) by (force simp: p map_of_eq_None_iff)
    moreover have "\<forall>x \<in> set (?above @ l). ahead Buy ?px x"
      using 1 l above by fastforce
    ultimately show ?thesis
      using 1 insert_behind_all [of "?above @ l" Buy n] by (simp add: p level_of_def)
  next
    case 2
    then have "\<forall>x \<in> set (?above @ l). ahead Buy ?px x"
      using l above by fastforce
    then show ?thesis
      using 2 insert_behind_all [of "?above @ l" Buy n] by (simp add: p level_of_def)
  next
    case 3
    then have "takeWhile (ahead Buy ?px) l = []" "dropWhile (ahead Buy ?px) l = l"
      using l by (cases l; simp)+
    with 3 show ?thesis
      using Cons by (auto simp: p insert_behind_def level_of_def takeWhile_append dropWhile_append)
  qed
qed (simp add: insert_behind_def level_of_def)

lemma priority_add:
  assumes "book_inv b"
  shows "priority (add b ord) s =
    (if s = o_side ord then insert_behind s (next_node b, ord) (priority b s) else priority b s)"
proof -
  have "\<forall>(q, l) \<in> set (book b s). l \<noteq> [] \<and> (\<forall>n \<in> set l. o_price (snd n) = q)"
    using side_ok_level [OF book_inv_side [OF assms]] by blast
  note * = insert_ask [OF book_inv_smap [OF assms] this, of "(next_node b, ord)"]
    insert_bid [OF book_inv_smap [OF assms] this, of "(next_node b, ord)"]
  show ?thesis
    using * by (cases s) (auto simp: add_put_level priority_set_book put_level_def priority_def)
qed

text \<open>Reducing the front order works on the head of the queue.\<close>

lemma best_level_split:
  assumes "best_level b s = Some (px, lvl)"
  obtains others where "(if s = Buy then rev (book b s) else book b s) = (px, lvl) # others"
proof -
  define m where "m = (if s = Buy then rev (book b s) else book b s)"
  have "m \<noteq> []" "hd m = (px, lvl)"
    using assms by (auto simp: m_def best_level_def Let_def hd_rev split: if_splits)
  then have "m = (px, lvl) # tl m" by (metis list.collapse)
  then show ?thesis by (intro that) (simp only: m_def)
qed

lemma priority_best_level:
  assumes inv: "book_inv b" and best: "best_level b s = Some (px, lvl)"
  obtains others where "priority b s = lvl @ others"
    and "\<And>lvl'. priority (set_book b s (put_level px lvl' (book b s))) s = lvl' @ others"
proof -
  obtain os where os: "(if s = Buy then rev (book b s) else book b s) = (px, lvl) # os"
    using best by (rule best_level_split)
  have "distinct (map fst (if s = Buy then rev (book b s) else book b s))"
    using smap_ok_distinct [OF book_inv_smap [OF inv, of s]] by (cases s) (simp_all add: rev_map [symmetric])
  then have "\<forall>p \<in> set os. fst p \<noteq> px" unfolding os by auto
  then have rest: "map (\<lambda>p. if fst p = px then lvl' else snd p) os = map snd os" for lvl' :: Level
    by simp
  have ne: "level_of (book b s) px \<noteq> []"
    using best_level_level_of [OF inv best] by simp
  show ?thesis
  proof (rule that [of "concat (map snd os)"])
    show "priority b s = lvl @ concat (map snd os)"
      by (simp add: priority_def os)
    show "priority (set_book b s (put_level px lvl' (book b s))) s = lvl' @ concat (map snd os)" for lvl'
      unfolding priority_put_existing [OF inv ne] os by (simp add: rest)
  qed
qed

section \<open>The maker side as an interface\<close>

text \<open>
  What the matching engine relies on when it consumes one side of the book: the best price and the
  front order are those of the head of the queue, and reducing the front by at most its quantity
  takes it off the queue or leaves it there with the rest, touching nothing else.
\<close>

locale maker_queue =
  fixes best_px :: "'b \<Rightarrow> Price option"
    and front :: "'b \<Rightarrow> Order option"
    and reduce :: "'b \<Rightarrow> Qty \<Rightarrow> 'b option"
    and queue :: "'b \<Rightarrow> Order list"
    and frame :: "'b \<Rightarrow> 'f"
    and inv :: "'b \<Rightarrow> bool"
    and kept :: "'b \<Rightarrow> bool"
  assumes best_px: "inv b \<Longrightarrow> best_px b = (case queue b of [] \<Rightarrow> None | m # _ \<Rightarrow> Some (o_price m))"
    and front: "inv b \<Longrightarrow> front b = (case queue b of [] \<Rightarrow> None | m # _ \<Rightarrow> Some m)"
    and queue_qty: "inv b \<Longrightarrow> m \<in> set (queue b) \<Longrightarrow> 0 < o_qty m \<and> i64_ok (o_qty m)"
    and reduce_all: "inv b \<Longrightarrow> queue b = m # ms \<Longrightarrow>
      \<exists>b'. reduce b (o_qty m) = Some b' \<and> inv b' \<and> queue b' = ms \<and> frame b' = frame b"
    and reduce_part: "inv b \<Longrightarrow> queue b = m # ms \<Longrightarrow> 0 < q \<Longrightarrow> q < o_qty m \<Longrightarrow>
      \<exists>b'. reduce b q = Some b' \<and> inv b' \<and> queue b' = m\<lparr>o_qty := o_qty m - q\<rparr> # ms \<and>
        frame b' = frame b"
    and reduce_kept: "inv b \<Longrightarrow> kept b \<Longrightarrow> reduce b q = Some b' \<Longrightarrow> kept b'"

definition live_book :: "OrderBook \<Rightarrow> bool" where
  "live_book b \<longleftrightarrow> book_inv b \<and> qtys_ok b"

lemma makers_best_level:
  assumes inv: "book_inv b" and best: "best_level b s = Some (px, (it, ord) # rest)"
  obtains others where "makers b s = ord # map snd rest @ others"
    and "makers (drop_front b s px (o_id ord) rest) s = map snd rest @ others"
    and "\<And>ord'. makers (shrink_front b s px it ord' rest) s = ord' # map snd rest @ others"
proof -
  obtain os where "priority b s = ((it, ord) # rest) @ os"
    and "\<And>lvl'. priority (set_book b s (put_level px lvl' (book b s))) s = lvl' @ os"
    using inv best by (rule priority_best_level) blast
  then show ?thesis
    by (intro that [of "map snd os"]) (simp_all add: makers_def drop_front_def shrink_front_def)
qed

lemma makers_empty: "book b s = [] \<Longrightarrow> makers b s = []"
  by (cases s) (simp_all add: makers_def priority_def)

lemma best_is_head:
  assumes "book_inv b"
  shows "best_price b s = (case makers b s of [] \<Rightarrow> None | m # _ \<Rightarrow> Some (o_price m))"
    and "best b s = (case makers b s of [] \<Rightarrow> None | m # _ \<Rightarrow> Some m)"
proof -
  have "best_price b s = (case makers b s of [] \<Rightarrow> None | m # _ \<Rightarrow> Some (o_price m)) \<and>
    best b s = (case makers b s of [] \<Rightarrow> None | m # _ \<Rightarrow> Some m)"
  proof (rule best_level_cases [OF assms, of s], goal_cases)
    case 1
    then show ?case by (simp add: best_price_def best_def makers_empty)
  next
    case (2 px it ord rest)
    then obtain others where "makers b s = ord # map snd rest @ others"
      using makers_best_level [OF assms] by blast
    then show ?case
      using 2 best_front_node(3) [OF assms 2] by (simp add: best_price_def best_def)
  qed
  then show "best_price b s = (case makers b s of [] \<Rightarrow> None | m # _ \<Rightarrow> Some (o_price m))"
    and "best b s = (case makers b s of [] \<Rightarrow> None | m # _ \<Rightarrow> Some m)" by simp_all
qed

lemma qtys_ok_drop_front:
  "book_inv b \<Longrightarrow> best_level b s = Some (px, (it, ord) # rest) \<Longrightarrow> qtys_ok b \<Longrightarrow>
   qtys_ok (drop_front b s px oid rest)"
  unfolding qtys_ok_def by (simp add: nodes_drop_front) blast

lemma qtys_ok_shrink_front:
  assumes "book_inv b" "best_level b s = Some (px, (it, ord) # rest)" "qtys_ok b"
    and "0 < o_qty ord'" "i64_ok (o_qty ord')"
  shows "qtys_ok (shrink_front b s px it ord' rest)"
  using assms unfolding qtys_ok_def by (auto simp: nodes_shrink_front split: if_splits)

lemma fully_indexed_drop_front:
  assumes inv: "book_inv b" and best: "best_level b s = Some (px, (it, ord) # rest)"
    and full: "fully_indexed b"
  shows "fully_indexed (drop_front b s px (o_id ord) rest)"
  unfolding fully_indexed_def
proof (intro allI impI)
  fix s' q i x assume "(q, i, x) \<in> set (nodes (book (drop_front b s px (o_id ord) rest) s'))"
  then have x: "(q, i, x) \<in> set (nodes (book b s'))" "i \<noteq> it"
    by (simp_all add: nodes_drop_front [OF inv best])
  moreover have "bk_index b (o_id ord) = Some \<lparr>loc_side = s, loc_price = px, loc_it = it\<rparr>"
    using full best_front_node(1) [OF inv best] by (simp add: fully_indexed_def)
  ultimately have "o_id x \<noteq> o_id ord" using full unfolding fully_indexed_def by fastforce
  with x full show "bk_index (drop_front b s px (o_id ord) rest) (o_id x) =
      Some \<lparr>loc_side = s', loc_price = q, loc_it = i\<rparr>"
    by (simp add: fully_indexed_def drop_front_def)
qed

lemma fully_indexed_shrink_front:
  assumes "book_inv b" "best_level b s = Some (px, (it, ord) # rest)" "fully_indexed b" "o_id ord' = o_id ord"
  shows "fully_indexed (shrink_front b s px it ord' rest)"
  using assms best_front_node(1) [OF assms(1,2)] unfolding fully_indexed_def
  by (auto simp: nodes_shrink_front split: if_splits) (simp_all add: shrink_front_def)

lemma fully_indexed_reduce_front:
  assumes "book_inv b" "fully_indexed b" "reduce_front b s q = Some b'"
  shows "fully_indexed b'"
proof (rule best_level_cases [OF assms(1), of s], goal_cases)
  case 1
  with assms show ?case by (simp add: reduce_front_def)
next
  case (2 px it ord rest)
  with assms show ?case
    by (auto simp: reduce_front_cons fully_indexed_drop_front fully_indexed_shrink_front split: if_splits)
qed

text \<open>Both sides of the book implement the interface.\<close>

definition maker_frame :: "Side \<Rightarrow> OrderBook \<Rightarrow> Symbol \<times> Level \<times> iter" where
  "maker_frame s b = (bk_symbol b, priority b (opposite s), next_node b)"

lemma maker_frame_front [simp]:
  "maker_frame s (drop_front b s px oid rest) = maker_frame s b"
  "maker_frame s (shrink_front b s px it ord rest) = maker_frame s b"
  by (simp_all add: maker_frame_def drop_front_def shrink_front_def priority_set_book)

lemma maker_queue_book:
  "maker_queue (\<lambda>b. best_price b s) (\<lambda>b. best b s) (\<lambda>b. reduce_front b s) (\<lambda>b. makers b s)
     (maker_frame s) live_book fully_indexed"
proof (unfold_locales, goal_cases)
  case (1 b) then show ?case by (simp add: live_book_def best_is_head)
next
  case (2 b) then show ?case by (simp add: live_book_def best_is_head)
next
  case (3 b m)
  then show ?case
    by (auto simp: live_book_def makers_def in_priority qtys_ok_def)
next
  case (4 b m ms)
  then have inv: "book_inv b" and q: "qtys_ok b" by (simp_all add: live_book_def)
  show ?case
  proof (rule best_level_cases [OF inv, of s], goal_cases)
    case 1 with 4 show ?case by (simp add: makers_empty)
  next
    case best: (2 px it ord rest)
    obtain os where "makers b s = ord # map snd rest @ os"
      and "makers (drop_front b s px (o_id ord) rest) s = map snd rest @ os"
      using inv best by (rule makers_best_level) blast
    with 4 best show ?case
      by (simp add: reduce_front_cons live_book_def book_inv_drop_front qtys_ok_drop_front)
  qed
next
  case (5 b m ms q)
  then have inv: "book_inv b" and q: "qtys_ok b" by (simp_all add: live_book_def)
  show ?case
  proof (rule best_level_cases [OF inv, of s], goal_cases)
    case 1 with 5 show ?case by (simp add: makers_empty)
  next
    case best: (2 px it ord rest)
    obtain os where mk: "makers b s = ord # map snd rest @ os"
      and mk': "\<And>ord'. makers (shrink_front b s px it ord' rest) s = ord' # map snd rest @ os"
      using inv best by (rule makers_best_level) blast
    have "i64_ok (o_qty ord)"
      using q best_front_node(1) [OF inv best] by (simp add: qtys_ok_def)
    then have "i64_ok (o_qty ord - q)" using 5 mk by (auto intro: i64_ok_sub_nonneg)
    with 5 best mk mk' q show ?case
      by (simp add: reduce_front_cons live_book_def book_inv_shrink_front qtys_ok_shrink_front)
  qed
next
  case (6 b q b') then show ?case by (auto simp: live_book_def intro: fully_indexed_reduce_front)
qed

interpretation bid_side: maker_queue "\<lambda>b. best_price b Buy" "\<lambda>b. best b Buy"
  "\<lambda>b. reduce_front b Buy" "\<lambda>b. makers b Buy" "maker_frame Buy" live_book fully_indexed
  by (rule maker_queue_book)

interpretation ask_side: maker_queue "\<lambda>b. best_price b Sell" "\<lambda>b. best b Sell"
  "\<lambda>b. reduce_front b Sell" "\<lambda>b. makers b Sell" "maker_frame Sell" live_book fully_indexed
  by (rule maker_queue_book)

section \<open>Every book the public operations can build\<close>

definition book_init :: "OrderBook \<Rightarrow> bool" where
  "book_init b \<longleftrightarrow> b = new_book (bk_symbol b)"

inductive book_step :: "OrderBook \<Rightarrow> OrderBook \<Rightarrow> bool" where
  add: "book_step b (add b ord)"
| cancel: "cancel b oid = Some (found, b') \<Longrightarrow> book_step b b'"
| reduce: "reduce_front b s q = Some b' \<Longrightarrow> book_step b b'"

inductive_simps book_step_iff: "book_step b b'"

interpretation book_sys: invariant_system book_init book_step book_inv
proof
  show "book_inv b" if "book_init b" for b
    using that book_inv_new_book by (metis book_init_def)
  show "book_inv b'" if "book_inv b" "book_step b b'" for b b'
    using that(2,1)
    by (cases rule: book_step.cases) (auto intro: book_inv_add book_inv_cancel book_inv_reduce_front)
qed

abbreviation built_book :: "OrderBook \<Rightarrow> bool" where
  "built_book \<equiv> reach book_init book_step"

lemma built_new_book: "built_book (new_book sm)"
  by (rule reach.start) (simp add: book_init_def new_book_def)

lemma built_add: "built_book b \<Longrightarrow> built_book (add b ord)"
  by (erule reach.more) (rule book_step.add)

lemma fully_indexed_new_book: "fully_indexed (new_book sm)"
  by (simp add: fully_indexed_def new_book_def book_def nodes_def)

lemma fully_indexed_add:
  assumes "book_inv b" "fully_indexed b"
    and "\<forall>s. \<forall>n \<in> set (priority b s). o_id (snd n) \<noteq> o_id ord"
  shows "fully_indexed (add b ord)"
  unfolding fully_indexed_def
proof (intro allI impI)
  fix s px it x assume x: "(px, it, x) \<in> set (nodes (book (add b ord) s))"
  have "o_id y \<noteq> o_id ord" if "(q, i, y) \<in> set (nodes (book b s))" for q i y
    using assms(3) that unfolding set_priority by fastforce
  with x assms(2) show "bk_index (add b ord) (o_id x) = Some \<lparr>loc_side = s, loc_price = px, loc_it = it\<rparr>"
    by (auto simp: nodes_add [OF assms(1)] fully_indexed_def) (simp_all add: add_put_level)
qed

lemma fully_indexed_cancelled:
  assumes inv: "book_inv b" and full: "fully_indexed b" and loc: "bk_index b oid = Some loc"
  shows "fully_indexed (cancelled b oid loc)"
  unfolding fully_indexed_def
proof (intro allI impI)
  fix s px it x assume "(px, it, x) \<in> set (nodes (book (cancelled b oid loc) s))"
  then have x: "(px, it, x) \<in> set (nodes (book b s))" "it \<noteq> loc_it loc"
    by (simp_all add: nodes_cancelled [OF inv loc])
  then have ix: "bk_index b (o_id x) = Some \<lparr>loc_side = s, loc_price = px, loc_it = it\<rparr>"
    using full by (simp add: fully_indexed_def)
  with x loc have "o_id x \<noteq> oid" by auto
  with ix show "bk_index (cancelled b oid loc) (o_id x) =
      Some \<lparr>loc_side = s, loc_price = px, loc_it = it\<rparr>"
    by (simp add: cancelled_def)
qed

lemma fully_indexed_id:
  assumes inv: "book_inv b" and full: "fully_indexed b" and loc: "bk_index b oid = Some loc"
    and n: "n \<in> set (priority b s)"
  shows "fst n = loc_it loc \<longleftrightarrow> o_id (snd n) = oid"
proof -
  obtain it x where n': "n = (it, x)" "(o_price x, it, x) \<in> set (nodes (book b s))"
    using n in_priority [OF inv, of "fst n" "snd n" s] by (metis prod.collapse)
  then have "bk_index b (o_id x) = Some \<lparr>loc_side = s, loc_price = o_price x, loc_it = it\<rparr>"
    using full by (simp add: fully_indexed_def)
  then have "loc_it loc = it" if "o_id x = oid" using loc that by simp
  moreover obtain y where y: "o_id y = oid"
    "(loc_price loc, loc_it loc, y) \<in> set (nodes (book b (loc_side loc)))"
    using book_inv_index [OF inv loc] by (auto simp: located_def)
  have "o_id x = oid" if "it = loc_it loc"
    using y(1) book_inv_unique [OF inv n'(2) y(2) [folded that]] by simp
  ultimately show ?thesis using n'(1) by auto
qed

section \<open>Properties\<close>

text \<open>
  (C17) Whatever sequence of additions, cancels and reductions built a book, also with repeated
  ids, cancelling any id is defined: the iterator that the index holds for it points at a live
  node, so no erased node is ever touched.  The answer is true exactly when the index knows the
  id, and one node leaves the trading queues, in which no other order moves.
\<close>

theorem cancel_never_dangles:
  assumes "built_book b"
  shows "\<exists>b'. cancel b oid = Some (bk_index b oid \<noteq> None, b') \<and>
    (\<forall>s. priority b' s = (case bk_index b oid of
        None \<Rightarrow> priority b s
      | Some loc \<Rightarrow> filter (\<lambda>n. fst n \<noteq> loc_it loc) (priority b s)))"
  using book_sys.reach_inv [OF assms]
  by (cases "bk_index b oid") (auto simp: cancel_unknown cancel_known priority_cancelled)

theorem cancel_never_dangles_witness:
  "\<exists>b'. cancel (add (new_book 1) \<lparr>o_id = 7, o_symbol = 1, o_side = Buy, o_type = Limit, o_price = 100, o_qty = 5\<rparr>) 7 =
     Some (True, b') \<and> priority b' Buy = []"
proof -
  let ?b = "add (new_book 1) \<lparr>o_id = 7, o_symbol = 1, o_side = Buy, o_type = Limit, o_price = 100, o_qty = 5\<rparr>"
  have "built_book ?b" by (intro built_add built_new_book)
  moreover have "bk_index ?b 7 = Some \<lparr>loc_side = Buy, loc_price = 100, loc_it = 0\<rparr>"
    and "map fst (priority ?b Buy) = [0]"
    by (simp_all add: add_def new_book_def book_def set_book_def priority_def)
  ultimately show ?thesis
    using cancel_never_dangles [of ?b 7] by (auto simp: filter_empty_conv)
qed

text \<open>
  (C16) Price-time priority, in every book that can be built: the trading queue of a side is ordered
  by price, and at one price by arrival; the best price and the best order are those of its head;
  and a new order goes behind every order whose price is at least as good and in front of all
  others, leaving the other side alone.
\<close>

theorem price_time_priority:
  assumes "built_book b"
  shows "sorted_wrt (trades_before s) (priority b s) \<and>
    best_price b s = (case priority b s of [] \<Rightarrow> None | n # _ \<Rightarrow> Some (o_price (snd n))) \<and>
    best b s = (case priority b s of [] \<Rightarrow> None | n # _ \<Rightarrow> Some (snd n)) \<and>
    priority (add b ord) s =
      (if s = o_side ord
       then takeWhile (\<lambda>n. at_least_as_good s (o_price (snd n)) (o_price ord)) (priority b s) @
            (next_node b, ord) #
            dropWhile (\<lambda>n. at_least_as_good s (o_price (snd n)) (o_price ord)) (priority b s)
       else priority b s)"
  using book_sys.reach_inv [OF assms]
  by (simp add: priority_sorted best_is_head priority_add insert_behind_def makers_def split: list.splits)

theorem price_time_priority_witness:
  "best_price (add (new_book 1) \<lparr>o_id = 7, o_symbol = 1, o_side = Sell, o_type = Limit, o_price = 100, o_qty = 5\<rparr>) Sell
     = Some 100"
proof -
  let ?b = "add (new_book 1) \<lparr>o_id = 7, o_symbol = 1, o_side = Sell, o_type = Limit, o_price = 100, o_qty = 5\<rparr>"
  have "built_book ?b" by (intro built_add built_new_book)
  from price_time_priority [OF this, of Sell] show ?thesis
    by (simp add: add_def new_book_def book_def set_book_def priority_def)
qed

text \<open>
  When every resting order is in the index (as long as no id is added twice), a cancel
  removes exactly the order with that id from the trading queues, keeps all others in their
  places and in the index, and reports whether there was such an order.
\<close>

theorem cancel_exact:
  assumes "built_book b" "fully_indexed b"
  shows "\<exists>b'. cancel b oid = Some (\<exists>s. \<exists>n \<in> set (priority b s). o_id (snd n) = oid, b') \<and>
    fully_indexed b' \<and> (\<forall>s. priority b' s = filter (\<lambda>n. o_id (snd n) \<noteq> oid) (priority b s))"
proof (cases "bk_index b oid")
  case None
  have inv: "book_inv b" using assms(1) by (rule book_sys.reach_inv)
  have "o_id (snd n) \<noteq> oid" if "n \<in> set (priority b s)" for n s
    using that None assms(2) in_priority [OF inv, of "fst n" "snd n" s]
    unfolding fully_indexed_def by (metis option.distinct(1) prod.collapse)
  then show ?thesis using None assms(2) by (auto simp: cancel_unknown filter_id_conv)
next
  case (Some loc)
  have inv: "book_inv b" using assms(1) by (rule book_sys.reach_inv)
  obtain y where y: "(loc_price loc, loc_it loc, y) \<in> set (nodes (book b (loc_side loc)))" "o_id y = oid"
    using book_inv_index [OF inv Some] by (auto simp: located_def)
  then have "(loc_it loc, y) \<in> set (priority b (loc_side loc))"
    by (auto simp: set_priority)
  then have "\<exists>s. \<exists>n \<in> set (priority b s). o_id (snd n) = oid"
    using y(2) by (metis snd_conv)
  moreover have "priority (cancelled b oid loc) s = filter (\<lambda>n. o_id (snd n) \<noteq> oid) (priority b s)" for s
    unfolding priority_cancelled [OF inv Some]
    by (rule filter_cong [OF refl]) (simp add: fully_indexed_id [OF inv assms(2) Some])
  ultimately show ?thesis
    using fully_indexed_cancelled [OF inv assms(2) Some] by (auto simp: cancel_known [OF inv Some])
qed

theorem cancel_exact_witness:
  "\<exists>b'. cancel (add (new_book 1) \<lparr>o_id = 7, o_symbol = 1, o_side = Buy, o_type = Limit, o_price = 100, o_qty = 5\<rparr>) 7 =
     Some (True, b') \<and> fully_indexed b' \<and> priority b' Buy = []"
proof -
  let ?b = "add (new_book 1) \<lparr>o_id = 7, o_symbol = 1, o_side = Buy, o_type = Limit, o_price = 100, o_qty = 5\<rparr>"
  have b: "built_book ?b" by (intro built_add built_new_book)
  have "priority (new_book 1) s = []" for s by (simp add: priority_def new_book_def book_def)
  then have full: "fully_indexed ?b"
    by (intro fully_indexed_add book_inv_new_book fully_indexed_new_book) simp
  have q: "map (o_id \<circ> snd) (priority ?b Buy) = [7]"
    by (simp add: add_def new_book_def book_def set_book_def priority_def)
  then have "\<exists>s. \<exists>n \<in> set (priority ?b s). o_id (snd n) = 7"
    by (intro exI [of _ Buy]) (cases "priority ?b Buy"; simp)
  with cancel_exact [OF b full, of 7] q show ?thesis
    by (auto simp: filter_empty_conv)
qed

end
