(* ===== verification/Matching_Engine.thy ===== *)
theory Matching_Engine
  imports Book_Priority
begin

text \<open>
  Continuous matching, \<^verbatim>\<open>include/lloms/matching_engine.hpp\<close> and
  \<^verbatim>\<open>src/matching_engine.cpp\<close>.  The engine's only state is its book.  \<open>submit_loop\<close> is the
  \<^verbatim>\<open>while\<close> loop of \<^verbatim>\<open>submit\<close>: its value is \<open>None\<close> if the loop runs into undefined
  behaviour or does not end, and the theorems show that on a live book it always returns.
\<close>

section \<open>Operations\<close>

definition crosses :: "Side \<Rightarrow> Type \<Rightarrow> Price \<Rightarrow> Price \<Rightarrow> bool" where
  "crosses taker_side taker_type taker_px book_px =
     (if taker_type = Market then True
      else if taker_side = Buy then taker_px \<ge> book_px else taker_px \<le> book_px)"

definition make_fill :: "Order \<Rightarrow> Order \<Rightarrow> Price \<Rightarrow> Qty \<Rightarrow> Fill" where
  "make_fill taker maker px traded =
     \<lparr>f_taker_id = o_id taker, f_maker_id = o_id maker, f_symbol = o_symbol taker,
      f_price = px, f_qty = traded\<rparr>"

partial_function (option) submit_loop ::
  "OrderBook \<Rightarrow> Order \<Rightarrow> Fill list \<Rightarrow> Qty \<Rightarrow> (OrderBook \<times> Order \<times> Fill list \<times> Qty) option" where
  "submit_loop b taker out filled =
     (if 0 < o_qty taker then
        (case best_price b (opposite (o_side taker)) of
           None \<Rightarrow> Some (b, taker, out, filled)
         | Some book_px \<Rightarrow>
             if \<not> crosses (o_side taker) (o_type taker) (o_price taker) book_px
             then Some (b, taker, out, filled)
             else
               (case best b (opposite (o_side taker)) of
                  None \<Rightarrow> Some (b, taker, out, filled)
                | Some maker \<Rightarrow> do {
                    let traded = min (o_qty taker) (o_qty maker);
                    let out' = out @ [make_fill taker maker book_px traded];
                    q \<leftarrow> chk64 (o_qty taker - traded);
                    filled' \<leftarrow> chk64 (filled + traded);
                    b' \<leftarrow> reduce_front b (opposite (o_side taker)) traded;
                    submit_loop b' (taker\<lparr>o_qty := q\<rparr>) out' filled'
                  }))
      else Some (b, taker, out, filled))"

definition submit :: "OrderBook \<Rightarrow> Order \<Rightarrow> Fill list \<Rightarrow> (Qty \<times> Fill list \<times> OrderBook) option" where
  "submit b taker out = do {
     (b1, taker1, out1, filled) \<leftarrow> submit_loop b taker out 0;
     let b2 = (if 0 < o_qty taker1 \<and> o_type taker1 = Limit then add b1 taker1 else b1);
     Some (filled, out1, b2)
   }"

section \<open>The specification: matching against a queue\<close>

text \<open>
  The reference the engine is measured against: the taker walks the queue of makers from its
  head, takes each maker in full while it can, and the last one in part.
\<close>

fun match_queue :: "Order \<Rightarrow> Order list \<Rightarrow> Fill list \<times> Order \<times> Order list" where
  "match_queue t [] = ([], t, [])"
| "match_queue t (m # ms) =
     (if o_qty t \<le> 0 \<or> \<not> crosses (o_side t) (o_type t) (o_price t) (o_price m) then ([], t, m # ms)
      else if o_qty m \<le> o_qty t then
        (let (fs, t', ms') = match_queue (t\<lparr>o_qty := o_qty t - o_qty m\<rparr>) ms
         in (make_fill t m (o_price m) (o_qty m) # fs, t', ms'))
      else ([make_fill t m (o_price m) (o_qty t)], t\<lparr>o_qty := 0\<rparr>,
            m\<lparr>o_qty := o_qty m - o_qty t\<rparr> # ms))"

section \<open>The loop over any maker queue\<close>

text \<open>One iteration of the loop, with \<open>continue\<close> for the iterations after it.\<close>

definition match_step ::
  "('b \<Rightarrow> Price option) \<Rightarrow> ('b \<Rightarrow> Order option) \<Rightarrow> ('b \<Rightarrow> Qty \<Rightarrow> 'b option) \<Rightarrow>
   ('b \<Rightarrow> Order \<Rightarrow> Fill list \<Rightarrow> Qty \<Rightarrow> ('b \<times> Order \<times> Fill list \<times> Qty) option) \<Rightarrow>
   'b \<Rightarrow> Order \<Rightarrow> Fill list \<Rightarrow> Qty \<Rightarrow> ('b \<times> Order \<times> Fill list \<times> Qty) option" where
  "match_step best_px front reduce continue b t out f =
     (if 0 < o_qty t then
        (case best_px b of
           None \<Rightarrow> Some (b, t, out, f)
         | Some px \<Rightarrow>
             if \<not> crosses (o_side t) (o_type t) (o_price t) px then Some (b, t, out, f)
             else (case front b of
                     None \<Rightarrow> Some (b, t, out, f)
                   | Some m \<Rightarrow> do {
                       let tr = min (o_qty t) (o_qty m);
                       q \<leftarrow> chk64 (o_qty t - tr);
                       f' \<leftarrow> chk64 (f + tr);
                       b' \<leftarrow> reduce b tr;
                       continue b' (t\<lparr>o_qty := q\<rparr>) (out @ [make_fill t m px tr]) f'
                     }))
      else Some (b, t, out, f))"

lemma submit_loop_step:
  "o_side t = opposite s \<Longrightarrow> submit_loop b t out f =
     match_step (\<lambda>b. best_price b s) (\<lambda>b. best b s) (\<lambda>b. reduce_front b s) submit_loop b t out f"
  by (subst submit_loop.simps) (simp add: match_step_def Let_def split: option.splits)

definition total_fill :: "Fill list \<Rightarrow> Qty" where
  "total_fill fs = sum_list (map f_qty fs)"

lemma total_fill_simps [simp]: "total_fill [] = 0" "total_fill (f # fs) = f_qty f + total_fill fs"
  by (simp_all add: total_fill_def)

context maker_queue begin

text \<open>The three outcomes of an iteration that finds an order at the front: it stops, takes all of it, takes a part.\<close>

lemma step_stops:
  assumes "inv b" "queue b = m # ms" "o_qty t \<le> 0 \<or> \<not> crosses (o_side t) (o_type t) (o_price t) (o_price m)"
  shows "match_step best_px front reduce loop b t out f = Some (b, t, out, f)"
  using assms by (auto simp: match_step_def best_px)

lemma step_takes_all:
  assumes "inv b" "queue b = m # ms" "0 < o_qty t" "crosses (o_side t) (o_type t) (o_price t) (o_price m)"
    and "o_qty m \<le> o_qty t" "0 \<le> f" "i64_ok (f + o_qty t)"
  shows "\<exists>b1. match_step best_px front reduce loop b t out f =
      loop b1 (t\<lparr>o_qty := o_qty t - o_qty m\<rparr>) (out @ [make_fill t m (o_price m) (o_qty m)]) (f + o_qty m)
    \<and> inv b1 \<and> queue b1 = ms \<and> frame b1 = frame b \<and> (kept b \<longrightarrow> kept b1)"
proof -
  have pos: "0 < o_qty m" using queue_qty [OF assms(1), of m] assms(2) by simp
  obtain b1 where b1: "reduce b (o_qty m) = Some b1" "inv b1" "queue b1 = ms" "frame b1 = frame b"
    using reduce_all [OF assms(1,2)] by blast
  have "kept b \<longrightarrow> kept b1" using reduce_kept [OF assms(1)] b1 by blast
  moreover have "i64_ok (o_qty t - o_qty m)" "i64_ok (f + o_qty m)" using assms(3,5-7) pos by (auto simp: i64_ok_def)
  ultimately show ?thesis
    using assms(1-5) b1 by (intro exI [of _ b1]) (simp add: match_step_def best_px front min_absorb2 chk64_Some Let_def)
qed

lemma step_takes_part:
  assumes "inv b" "queue b = m # ms" "0 < o_qty t" "crosses (o_side t) (o_type t) (o_price t) (o_price m)"
    and "o_qty t < o_qty m" "i64_ok (f + o_qty t)"
  shows "\<exists>b1. match_step best_px front reduce loop b t out f =
      loop b1 (t\<lparr>o_qty := 0\<rparr>) (out @ [make_fill t m (o_price m) (o_qty t)]) (f + o_qty t)
    \<and> inv b1 \<and> queue b1 = m\<lparr>o_qty := o_qty m - o_qty t\<rparr> # ms \<and> frame b1 = frame b \<and> (kept b \<longrightarrow> kept b1)"
proof -
  obtain b1 where b1: "reduce b (o_qty t) = Some b1" "inv b1"
    "queue b1 = m\<lparr>o_qty := o_qty m - o_qty t\<rparr> # ms" "frame b1 = frame b"
    using reduce_part [OF assms(1,2,3,5)] by blast
  moreover have "kept b \<longrightarrow> kept b1" using reduce_kept [OF assms(1)] b1 by blast
  ultimately show ?thesis
    using assms by (intro exI [of _ b1]) (simp add: match_step_def best_px front min_absorb1 chk64_Some Let_def)
qed

lemma loop_matches:
  assumes eq: "\<And>b t out f. o_side t = sd \<Longrightarrow>
      loop b t out f = match_step best_px front reduce loop b t out f"
    and "inv b" "o_side t = sd" "0 \<le> f" "0 \<le> o_qty t" "i64_ok (f + o_qty t)"
    and "match_queue t (queue b) = (fs, t', ms')"
  shows "\<exists>b'. loop b t out f = Some (b', t', out @ fs, f + total_fill fs) \<and>
    inv b' \<and> queue b' = ms' \<and> frame b' = frame b \<and> (kept b \<longrightarrow> kept b')"
  using assms(2-)
proof (induction "queue b" arbitrary: b t out f fs)
  case Nil
  then show ?case
    using eq [OF Nil.prems(2), of b out f] by (auto simp: match_step_def best_px simp flip: Nil.hyps)
next
  case (Cons m ms)
  note q = Cons.hyps(2) [symmetric] and step = eq [OF Cons.prems(2), of b out f]
  have pos: "0 < o_qty m" "i64_ok (o_qty m)" using queue_qty [OF \<open>inv b\<close>, of m] q by simp_all
  consider (stops) "o_qty t \<le> 0 \<or> \<not> crosses (o_side t) (o_type t) (o_price t) (o_price m)"
    | (all) "0 < o_qty t" "crosses (o_side t) (o_type t) (o_price t) (o_price m)" "o_qty m \<le> o_qty t"
    | (part) "0 < o_qty t" "crosses (o_side t) (o_type t) (o_price t) (o_price m)" "o_qty t < o_qty m" by linarith
  then show ?case
  proof cases
    case stops
    then show ?thesis using step_stops [OF \<open>inv b\<close> q stops] Cons.prems(1,6) q step by auto
  next
    case all
    let ?t = "t\<lparr>o_qty := o_qty t - o_qty m\<rparr>" and ?out = "out @ [make_fill t m (o_price m) (o_qty m)]"
    obtain b1 where b1: "loop b t out f = loop b1 ?t ?out (f + o_qty m)" "inv b1" "queue b1 = ms" "frame b1 = frame b" "kept b \<longrightarrow> kept b1"
      using step_takes_all [OF \<open>inv b\<close> q all Cons.prems(3,5), of loop out] step by auto
    obtain gs where gs: "match_queue ?t ms = (gs, t', ms')" "fs = make_fill t m (o_price m) (o_qty m) # gs"
      using Cons.prems(6) all q by (auto split: prod.splits)
    have "\<exists>b'. loop b1 ?t ?out (f + o_qty m) = Some (b', t', ?out @ gs, f + o_qty m + total_fill gs) \<and>
        inv b' \<and> queue b' = ms' \<and> frame b' = frame b1 \<and> (kept b1 \<longrightarrow> kept b')"
      using Cons.prems all pos b1 gs by (intro Cons.hyps(1)) auto
    then show ?thesis using b1 gs(2) by (auto simp: make_fill_def)
  next
    case part
    let ?out = "out @ [make_fill t m (o_price m) (o_qty t)]"
    obtain b1 where b1: "loop b t out f = loop b1 (t\<lparr>o_qty := 0\<rparr>) ?out (f + o_qty t)" "inv b1"
      "queue b1 = m\<lparr>o_qty := o_qty m - o_qty t\<rparr> # ms" "frame b1 = frame b" "kept b \<longrightarrow> kept b1"
      using step_takes_part [OF \<open>inv b\<close> q part Cons.prems(5), of loop out] step by auto
    have "loop b1 (t\<lparr>o_qty := 0\<rparr>) ?out (f + o_qty t) = Some (b1, t\<lparr>o_qty := 0\<rparr>, ?out, f + o_qty t)"
      using Cons.prems(2) by (simp add: eq [of "t\<lparr>o_qty := 0\<rparr>"] match_step_def)
    then show ?thesis using b1 part Cons.prems(6) q by (auto simp: make_fill_def)
  qed
qed

end

section \<open>The specification's own properties\<close>

text \<open>Quantities: what the taker loses is what it was filled, and so do the makers.\<close>

lemma match_queue_conserves:
  assumes "match_queue t ms = (fs, t', ms')" "\<forall>m \<in> set ms. 0 < o_qty m" "0 \<le> o_qty t"
  shows "o_qty t = total_fill fs + o_qty t'" and "0 \<le> o_qty t'" and "0 \<le> total_fill fs"
    and "sum_list (map o_qty ms) = total_fill fs + sum_list (map o_qty ms')"
    and "t' = t\<lparr>o_qty := o_qty t'\<rparr>" and "\<forall>m \<in> set ms'. 0 < o_qty m"
proof -
  have "o_qty t = total_fill fs + o_qty t' \<and> 0 \<le> o_qty t' \<and> 0 \<le> total_fill fs \<and>
    sum_list (map o_qty ms) = total_fill fs + sum_list (map o_qty ms') \<and>
    t' = t\<lparr>o_qty := o_qty t'\<rparr> \<and> (\<forall>m \<in> set ms'. 0 < o_qty m)"
    using assms
  proof (induction t ms arbitrary: fs t' ms' rule: match_queue.induct)
    case (2 t m ms)
    show ?case
    proof (cases "o_qty t \<le> 0 \<or> \<not> crosses (o_side t) (o_type t) (o_price t) (o_price m)")
      case False
      show ?thesis
      proof (cases "o_qty m \<le> o_qty t")
        case True
        obtain gs where gs: "match_queue (t\<lparr>o_qty := o_qty t - o_qty m\<rparr>) ms = (gs, t', ms')"
          and "fs = make_fill t m (o_price m) (o_qty m) # gs"
          using 2(2) False True by (auto split: prod.splits)
        with 2(1) [OF False True gs] 2(3,4) True show ?thesis
          by (auto simp: make_fill_def)
      next
        case part: False
        with 2 False show ?thesis by (auto simp: make_fill_def)
      qed
    qed (use 2 in auto)
  qed simp
  then show "o_qty t = total_fill fs + o_qty t'" and "0 \<le> o_qty t'" and "0 \<le> total_fill fs"
    and "sum_list (map o_qty ms) = total_fill fs + sum_list (map o_qty ms')"
    and "t' = t\<lparr>o_qty := o_qty t'\<rparr>" and "\<forall>m \<in> set ms'. 0 < o_qty m" by blast+
qed

text \<open>
  Which makers trade: a prefix of the queue, in its order, each at its own price, in full but for
  the last.
\<close>

lemma match_queue_prefix:
  assumes "match_queue t ms = (fs, t', ms')"
  shows "map (\<lambda>f. (f_maker_id f, f_price f)) fs = map (\<lambda>m. (o_id m, o_price m)) (take (length fs) ms)"
    and "\<forall>f \<in> set fs. f_taker_id f = o_id t \<and> f_symbol f = o_symbol t \<and>
      crosses (o_side t) (o_type t) (o_price t) (f_price f)"
    and "length ms' \<le> length ms"
    and "map (\<lambda>m. m\<lparr>o_qty := 0\<rparr>) ms' = map (\<lambda>m. m\<lparr>o_qty := 0\<rparr>) (drop (length ms - length ms') ms)"
  using assms
  by (induction t ms arbitrary: fs t' ms' rule: match_queue.induct)
     (auto simp: make_fill_def Suc_diff_le split: if_splits prod.splits)

text \<open>When the taker still has quantity, nothing it crosses is left at the head of the queue.\<close>

lemma match_queue_exhausts:
  assumes "match_queue t ms = (fs, t', ms')" "0 < o_qty t'"
  shows "ms' = [] \<or> \<not> crosses (o_side t) (o_type t) (o_price t) (o_price (hd ms'))"
  using assms
  by (induction t ms arbitrary: fs t' ms' rule: match_queue.induct)
     (auto split: if_splits prod.splits)

section \<open>The engine implements the specification\<close>

lemma match_queue_no_qty: "o_qty t \<le> 0 \<Longrightarrow> match_queue t ms = ([], t, ms)"
  by (cases ms) auto

lemma submit_loop_matches:
  assumes "live_book b" "i64_ok (o_qty t)"
    and "match_queue t (makers b (opposite (o_side t))) = (fs, t', ms')"
  shows "\<exists>b'. submit_loop b t out 0 = Some (b', t', out @ fs, total_fill fs) \<and>
    live_book b' \<and> makers b' (opposite (o_side t)) = ms' \<and>
    maker_frame (opposite (o_side t)) b' = maker_frame (opposite (o_side t)) b \<and>
    (fully_indexed b \<longrightarrow> fully_indexed b')"
proof (cases "0 \<le> o_qty t")
  case True
  then show ?thesis
    using bid_side.loop_matches [where loop = submit_loop and sd = Sell and b = b and t = t and f = 0 and out = out]
      ask_side.loop_matches [where loop = submit_loop and sd = Buy and b = b and t = t and f = 0 and out = out]
      assms submit_loop_step [of _ Buy] submit_loop_step [of _ Sell]
    by (cases "o_side t") auto
next
  case False
  then show ?thesis
    using assms by (subst submit_loop.simps) (auto simp: match_queue_no_qty)
qed

lemma live_book_add:
  "live_book b \<Longrightarrow> 0 < o_qty ord \<Longrightarrow> i64_ok (o_qty ord) \<Longrightarrow> live_book (add b ord)"
  by (auto simp: live_book_def book_inv_add qtys_ok_def nodes_add)

lemma submit_matches:
  assumes live: "live_book b" and qty: "i64_ok (o_qty t)"
    and m: "match_queue t (makers b (opposite (o_side t))) = (fs, t', ms')"
  shows "\<exists>b'. submit b t out = Some (total_fill fs, out @ fs, b') \<and> live_book b' \<and>
    makers b' (opposite (o_side t)) = ms' \<and>
    priority b' (o_side t) =
      (if 0 < o_qty t' \<and> o_type t = Limit
       then insert_behind (o_side t) (next_node b, t') (priority b (o_side t))
       else priority b (o_side t))"
proof -
  obtain b1 where b1: "submit_loop b t out 0 = Some (b1, t', out @ fs, total_fill fs)" "live_book b1"
    "makers b1 (opposite (o_side t)) = ms'"
    "maker_frame (opposite (o_side t)) b1 = maker_frame (opposite (o_side t)) b"
    using submit_loop_matches [OF assms] by blast
  have pos: "\<forall>m \<in> set (makers b (opposite (o_side t))). 0 < o_qty m"
    using live maker_queue.queue_qty [OF maker_queue_book] by blast
  have t': "o_side t' = o_side t \<and> o_type t' = o_type t \<and> o_qty t' \<le> max 0 (o_qty t)"
  proof (cases "0 \<le> o_qty t")
    case True
    note c = match_queue_conserves [OF m pos True]
    have "o_side t' = o_side t" "o_type t' = o_type t" by (subst c(5), simp)+
    with c(1,3) True show ?thesis by simp
  next
    case False
    then show ?thesis using m by (simp add: match_queue_no_qty)
  qed
  define b' where "b' = (if 0 < o_qty t' \<and> o_type t' = Limit then add b1 t' else b1)"
  have "submit b t out = Some (total_fill fs, out @ fs, b')"
    using b1(1) by (simp add: submit_def b'_def)
  moreover have "i64_ok (o_qty t')" if "0 < o_qty t'"
    using qty t' that by (auto simp: i64_ok_def)
  then have "live_book b'"
    using b1(2) by (auto simp: b'_def intro: live_book_add)
  moreover have inv1: "book_inv b1" using b1(2) by (simp add: live_book_def)
  then have "makers b' (opposite (o_side t)) = ms'"
    using b1(3) t' by (simp add: b'_def makers_def priority_add)
  moreover have "priority b1 (o_side t) = priority b (o_side t)" "next_node b1 = next_node b"
    using b1(4) by (simp_all add: maker_frame_def)
  then have "priority b' (o_side t) =
      (if 0 < o_qty t' \<and> o_type t = Limit
       then insert_behind (o_side t) (next_node b, t') (priority b (o_side t))
       else priority b (o_side t))"
    using t' inv1 by (simp add: b'_def priority_add)
  ultimately show ?thesis by blast
qed

section \<open>The book is never crossed\<close>

definition uncrossed :: "OrderBook \<Rightarrow> bool" where
  "uncrossed b =
     (case (best_price b Buy, best_price b Sell) of
        (Some bid, Some ask) \<Rightarrow> bid < ask
      | _ \<Rightarrow> True)"

lemma makers_sorted:
  "book_inv b \<Longrightarrow> sorted_wrt (\<lambda>m n. at_least_as_good s (o_price m) (o_price n)) (makers b s)"
  using priority_sorted [of b s]
  by (auto simp: makers_def sorted_wrt_map trades_before_def better_def at_least_as_good_def
      elim!: sorted_wrt_mono_rel [rotated] split: if_splits)

lemma makers_head_best:
  "book_inv b \<Longrightarrow> makers b s = m # ms \<Longrightarrow> n \<in> set (makers b s) \<Longrightarrow>
   at_least_as_good s (o_price m) (o_price n)"
  using makers_sorted [of b s] by (auto simp: at_least_as_good_def)

lemma uncrossed_iff:
  assumes "book_inv b"
  shows "uncrossed b \<longleftrightarrow>
    (\<forall>x \<in> set (makers b Buy). \<forall>y \<in> set (makers b Sell). o_price x < o_price y)"
proof (cases "makers b Buy")
  case (Cons x xs)
  note bids = this
  show ?thesis
  proof (cases "makers b Sell")
    case (Cons y ys)
    then show ?thesis
      using bids makers_head_best [OF assms bids] makers_head_best [OF assms Cons]
      by (fastforce simp: uncrossed_def best_is_head [OF assms])
  qed (simp add: uncrossed_def best_is_head [OF assms] split: option.splits list.splits)
qed (simp add: uncrossed_def best_is_head [OF assms])

lemma set_insert_behind: "set (insert_behind s n ns) = insert n (set ns)"
proof -
  have "set (takeWhile P ns) \<union> set (dropWhile P ns) = set ns" for P
    by (metis set_append takeWhile_dropWhile_id)
  then show ?thesis by (auto simp: insert_behind_def)
qed

lemma match_queue_prices:
  assumes "match_queue t ms = (fs, t', ms')"
  shows "o_price ` set ms' \<subseteq> o_price ` set ms"
proof -
  let ?z = "\<lambda>m. m\<lparr>o_qty := 0\<rparr>"
  have "map (o_price \<circ> ?z) ms' = map (o_price \<circ> ?z) (drop (length ms - length ms') ms)"
    using match_queue_prefix(4) [OF assms, THEN arg_cong [of _ _ "map o_price"]] by (simp only: map_map)
  then have "map o_price ms' = map o_price (drop (length ms - length ms') ms)"
    by (simp add: comp_def)
  then show ?thesis
    by (metis (no_types, lifting) image_mono image_set set_drop_subset)
qed

lemma match_queue_rest_price:
  assumes "match_queue t ms = (fs, t', ms')" "\<forall>m \<in> set ms. 0 < o_qty m" "0 < o_qty t'"
  shows "o_price t' = o_price t" and "0 \<le> o_qty t"
proof -
  show "0 \<le> o_qty t"
    using assms(1,3) match_queue_no_qty [of t ms] by (cases "o_qty t \<le> 0") auto
  then show "o_price t' = o_price t"
    by (subst match_queue_conserves(5) [OF assms(1,2)]) simp_all
qed

lemma submit_uncrossed:
  assumes live: "live_book b" and unc: "uncrossed b" and qty: "i64_ok (o_qty t)"
    and sub: "submit b t out = Some (filled, out', b')"
  shows "uncrossed b'"
proof -
  let ?s = "o_side t"
  obtain fs t' ms' where m: "match_queue t (makers b (opposite ?s)) = (fs, t', ms')"
    by (metis prod_cases3)
  have b': "live_book b'" "makers b' (opposite ?s) = ms'"
    "priority b' ?s = (if 0 < o_qty t' \<and> o_type t = Limit
       then insert_behind ?s (next_node b, t') (priority b ?s) else priority b ?s)"
    using submit_matches [OF live qty m, of out] sub by auto
  have inv: "book_inv b" "book_inv b'" using live b'(1) by (simp_all add: live_book_def)
  have pos: "\<forall>m \<in> set (makers b (opposite ?s)). 0 < o_qty m"
    using live maker_queue.queue_qty [OF maker_queue_book] by blast
  have old: "\<forall>x \<in> set (makers b ?s). \<forall>y \<in> set (makers b' (opposite ?s)). better (opposite ?s) (o_price x) (o_price y)"
    using unc match_queue_prices [OF m] unfolding uncrossed_iff [OF inv(1)] b'(2)
    by (cases ?s) fastforce+
  have new: "better (opposite ?s) (o_price t') (o_price y)"
    if rest: "0 < o_qty t'" "o_type t = Limit" and y: "y \<in> set ms'" for y
  proof -
    obtain h hs where hs: "ms' = h # hs" using y by (cases ms') auto
    then have "\<not> crosses ?s Limit (o_price t) (o_price h)"
      using match_queue_exhausts [OF m rest(1)] rest(2) by simp
    moreover have "at_least_as_good (opposite ?s) (o_price h) (o_price y)"
      using makers_head_best [OF inv(2), of "opposite ?s" h hs y] b'(2) hs y by simp
    ultimately show ?thesis
      using match_queue_rest_price(1) [OF m pos rest(1)] by (cases ?s) (auto simp: crosses_def)
  qed
  have "set (makers b' ?s) \<subseteq> insert t' (set (makers b ?s))"
    and "0 < o_qty t' \<and> o_type t = Limit \<or> set (makers b' ?s) \<subseteq> set (makers b ?s)"
    using b'(3) by (auto simp: makers_def set_insert_behind)
  then have "\<forall>x \<in> set (makers b' ?s). \<forall>y \<in> set (makers b' (opposite ?s)).
      better (opposite ?s) (o_price x) (o_price y)"
    using old new b'(2) by blast
  then show ?thesis
    unfolding uncrossed_iff [OF inv(2)] by (cases ?s) auto
qed

section \<open>Every book the engine can reach\<close>

definition engine_init :: "OrderBook \<Rightarrow> bool" where
  "engine_init b \<longleftrightarrow> b = new_book (bk_symbol b)"

inductive engine_step :: "OrderBook \<Rightarrow> OrderBook \<Rightarrow> bool" where
  submit: "order_typed t \<Longrightarrow> submit b t out = Some (filled, out', b') \<Longrightarrow> engine_step b b'"
| cancel: "cancel b oid = Some (found, b') \<Longrightarrow> engine_step b b'"

inductive_cases engine_stepE: "engine_step b b'"

lemma submit_defined: "live_book b \<Longrightarrow> i64_ok (o_qty t) \<Longrightarrow> \<exists>r. submit b t out = Some r"
  using submit_matches [of b t] by (metis prod_cases3)

lemma submit_live:
  assumes "live_book b" "i64_ok (o_qty t)" "submit b t out = Some (filled, out', b')"
  shows "live_book b'"
proof -
  obtain fs t' ms' where "match_queue t (makers b (opposite (o_side t))) = (fs, t', ms')"
    by (metis prod_cases3)
  from submit_matches [OF assms(1,2) this, of out] assms(3) show ?thesis by auto
qed

lemma cancel_subset:
  assumes "book_inv b" "cancel b oid = Some (found, b')"
  shows "set (priority b' s) \<subseteq> set (priority b s)"
  using assms by (cases "bk_index b oid") (auto simp: cancel_unknown cancel_known priority_cancelled)

lemma live_book_cancel:
  assumes "live_book b" "cancel b oid = Some (found, b')"
  shows "live_book b'"
proof (cases "bk_index b oid")
  case (Some loc)
  with assms have "b' = cancelled b oid loc" "book_inv b" "qtys_ok b"
    by (simp_all add: live_book_def cancel_known)
  then show ?thesis
    using nodes_cancelled [OF _ Some] book_inv_cancelled [OF _ Some] unfolding live_book_def qtys_ok_def
    by blast
qed (use assms in \<open>simp add: cancel_unknown\<close>)

lemma uncrossed_cancel:
  assumes "live_book b" "uncrossed b" "cancel b oid = Some (found, b')"
  shows "uncrossed b'"
proof -
  have inv: "book_inv b" "book_inv b'"
    using assms(1) live_book_cancel [OF assms(1,3)] by (simp_all add: live_book_def)
  have "set (makers b' s) \<subseteq> set (makers b s)" for s
    using cancel_subset [OF inv(1) assms(3)] by (auto simp: makers_def)
  with assms(2) show ?thesis unfolding uncrossed_iff [OF inv(1)] uncrossed_iff [OF inv(2)] by blast
qed

lemma live_book_new: "live_book (new_book sm)"
  by (simp add: live_book_def book_inv_new_book) (simp add: qtys_ok_def new_book_def book_def nodes_def)

interpretation engine_sys: invariant_system engine_init engine_step "\<lambda>b. live_book b \<and> uncrossed b"
proof
  show "live_book b \<and> uncrossed b" if init: "engine_init b" for b
  proof -
    have b: "b = new_book (bk_symbol b)" using init by (simp add: engine_init_def)
    have "live_book (new_book (bk_symbol b)) \<and> uncrossed (new_book (bk_symbol b))"
      by (simp add: live_book_new) (simp add: uncrossed_def best_price_def best_level_def new_book_def book_def)
    then show ?thesis using b by metis
  qed
  show "live_book b' \<and> uncrossed b'" if "live_book b \<and> uncrossed b" "engine_step b b'" for b b'
    using that(2,1)
    by (cases rule: engine_step.cases)
       (auto simp: order_typed_def intro: submit_live submit_uncrossed live_book_cancel uncrossed_cancel)
qed

abbreviation traded_book :: "OrderBook \<Rightarrow> bool" where
  "traded_book \<equiv> reach engine_init engine_step"

lemma traded_new: "traded_book (new_book sm)"
  by (rule reach.start) (simp add: engine_init_def new_book_def)

section \<open>Properties\<close>

text \<open>A small book for the witnesses: one resting offer of 5 at 100.\<close>

definition offer_100 :: Order where
  "offer_100 = \<lparr>o_id = 7, o_symbol = 1, o_side = Sell, o_type = Limit, o_price = 100, o_qty = 5\<rparr>"

definition bid_101 :: Order where
  "bid_101 = \<lparr>o_id = 8, o_symbol = 1, o_side = Buy, o_type = Limit, o_price = 101, o_qty = 8\<rparr>"

definition offer_book :: OrderBook where
  "offer_book = add (new_book 1) offer_100"

lemma live_offer_book: "live_book offer_book"
  unfolding offer_book_def by (rule live_book_add [OF live_book_new]) (simp_all add: offer_100_def i64_ok_def)

lemma makers_offer_book: "makers offer_book Sell = [offer_100]" "makers offer_book Buy = []"
  by (simp_all add: offer_book_def offer_100_def makers_def priority_def add_def new_book_def book_def set_book_def)

lemma bid_101_simps [simp]: "o_side bid_101 = Buy" "i64_ok (o_qty bid_101)" "o_qty bid_101 = 8"
  "o_type bid_101 = Limit" "o_price bid_101 = 101" "o_id bid_101 = 8" "o_symbol bid_101 = 1"
  by (simp_all add: bid_101_def i64_ok_def)

lemma match_bid_101: "match_queue bid_101 (makers offer_book (opposite (o_side bid_101))) =
    ([make_fill bid_101 offer_100 100 5], bid_101\<lparr>o_qty := 3\<rparr>, [])"
  by (simp add: makers_offer_book) (simp add: offer_100_def crosses_def make_fill_def)

lemma submit_bid_101:
  "\<exists>b'. submit offer_book bid_101 [] = Some (5, [make_fill bid_101 offer_100 100 5], b')"
  using submit_matches [OF live_offer_book bid_101_simps(2) match_bid_101, of "[]"]
  by (auto simp: make_fill_def)

text \<open>
  (C1) \<^verbatim>\<open>submit\<close> implements matching against the queue of the opposite side.  On a live book and
  for any 64-bit quantity the loop ends, no arithmetic overflows, and the fills, the makers left,
  the returned quantity and the resting remainder are those of the reference matcher: the
  remainder of a limit order joins its own side behind every order that is at least as good, and a
  market remainder is discarded.
\<close>

theorem submit_refines_match:
  assumes "live_book b" "i64_ok (o_qty t)"
    and "match_queue t (makers b (opposite (o_side t))) = (fs, t', ms')"
  shows "\<exists>b'. submit b t out = Some (total_fill fs, out @ fs, b') \<and> live_book b' \<and>
    makers b' (opposite (o_side t)) = ms' \<and>
    priority b' (o_side t) =
      (if 0 < o_qty t' \<and> o_type t = Limit
       then insert_behind (o_side t) (next_node b, t') (priority b (o_side t))
       else priority b (o_side t))"
  using assms by (rule submit_matches)

theorem submit_refines_match_witness:
  "\<exists>b'. submit offer_book bid_101 [] = Some (5, [make_fill bid_101 offer_100 100 5], b') \<and>
     makers b' Sell = []"
proof -
  from submit_refines_match [OF live_offer_book bid_101_simps(2) match_bid_101, of "[]"] show ?thesis
    by (auto simp: make_fill_def)
qed

text \<open>
  (C14) Quantity is conserved.  A submit on a live book appends fills whose quantities add up to the
  returned amount, between zero and the order's quantity; exactly that much leaves the opposite
  side; and exactly what is left of a limit order (nothing of a market order) is added to its own
  side.
\<close>

theorem submit_conserves:
  assumes "live_book b" "i64_ok (o_qty t)" "0 \<le> o_qty t" "submit b t out = Some (filled, out', b')"
  shows "\<exists>fs. out' = out @ fs \<and> filled = sum_list (map f_qty fs) \<and> 0 \<le> filled \<and> filled \<le> o_qty t \<and>
    sum_list (map o_qty (makers b (opposite (o_side t)))) =
      filled + sum_list (map o_qty (makers b' (opposite (o_side t)))) \<and>
    sum_list (map o_qty (makers b' (o_side t))) =
      sum_list (map o_qty (makers b (o_side t))) + (if o_type t = Limit then o_qty t - filled else 0)"
proof -
  obtain fs t' ms' where m: "match_queue t (makers b (opposite (o_side t))) = (fs, t', ms')"
    by (metis prod_cases3)
  have pos: "\<forall>m \<in> set (makers b (opposite (o_side t))). 0 < o_qty m"
    using assms(1) maker_queue.queue_qty [OF maker_queue_book] by blast
  note c = match_queue_conserves [OF m pos assms(3)]
  have b': "filled = total_fill fs" "out' = out @ fs" "makers b' (opposite (o_side t)) = ms'"
    "priority b' (o_side t) =
      (if 0 < o_qty t' \<and> o_type t = Limit
       then insert_behind (o_side t) (next_node b, t') (priority b (o_side t))
       else priority b (o_side t))"
    using submit_matches [OF assms(1,2) m, of out] assms(4) by auto
  have "sum_list (map (o_qty \<circ> snd) (insert_behind s n ns)) = o_qty (snd n) + sum_list (map (o_qty \<circ> snd) ns)"
    for s n ns
  proof -
    have "sum_list (map g (takeWhile P ns)) + sum_list (map g (dropWhile P ns)) = sum_list (map g ns)"
      for g :: "iter \<times> Order \<Rightarrow> int" and P
      by (metis map_append sum_list_append takeWhile_dropWhile_id)
    from this [of "o_qty \<circ> snd"] show ?thesis by (simp add: insert_behind_def algebra_simps)
  qed
  then have "sum_list (map o_qty (makers b' (o_side t))) =
      sum_list (map o_qty (makers b (o_side t))) + (if o_type t = Limit then o_qty t' else 0)"
    using b'(4) c(2) by (auto simp: makers_def)
  then show ?thesis
    using b' c by (intro exI [of _ fs]) (auto simp: total_fill_def)
qed

theorem submit_conserves_witness:
  "\<exists>b'. submit offer_book bid_101 [] = Some (5, [make_fill bid_101 offer_100 100 5], b') \<and>
     sum_list (map o_qty (makers b' Buy)) = 3"
proof -
  obtain b' where b': "submit offer_book bid_101 [] = Some (5, [make_fill bid_101 offer_100 100 5], b')"
    using submit_bid_101 by blast
  with submit_conserves [OF live_offer_book bid_101_simps(2) _ b'] show ?thesis
    by (auto simp: makers_offer_book)
qed

text \<open>
  Who trades, and at what price: the fills go down the opposite queue from its head without
  leaving anyone out, each at the resting order's own price, which the taker's limit crosses (a
  buyer never pays more than its limit, a seller never receives less), and each carries the
  taker's id and symbol.
\<close>

theorem fills_in_priority_order:
  assumes "live_book b" "i64_ok (o_qty t)" "submit b t out = Some (filled, out', b')"
  shows "\<exists>fs. out' = out @ fs \<and>
    map (\<lambda>f. (f_maker_id f, f_price f)) fs =
      map (\<lambda>m. (o_id m, o_price m)) (take (length fs) (makers b (opposite (o_side t)))) \<and>
    (\<forall>f \<in> set fs. f_taker_id f = o_id t \<and> f_symbol f = o_symbol t \<and>
      (o_type t = Limit \<longrightarrow> (if o_side t = Buy then f_price f \<le> o_price t else o_price t \<le> f_price f)))"
proof -
  obtain fs t' ms' where m: "match_queue t (makers b (opposite (o_side t))) = (fs, t', ms')"
    by (metis prod_cases3)
  have "out' = out @ fs"
    using submit_matches [OF assms(1,2) m, of out] assms(3) by auto
  then show ?thesis
    using match_queue_prefix(1,2) [OF m] by (auto simp: crosses_def)
qed

theorem fills_in_priority_order_witness:
  "\<exists>fs b'. submit offer_book bid_101 [] = Some (5, fs, b') \<and> map (\<lambda>f. (f_maker_id f, f_price f)) fs = [(7, 100)]"
proof -
  obtain b' where b': "submit offer_book bid_101 [] = Some (5, [make_fill bid_101 offer_100 100 5], b')"
    using submit_bid_101 by blast
  with fills_in_priority_order [OF live_offer_book bid_101_simps(2) b'] show ?thesis
    by (auto simp: makers_offer_book offer_100_def)
qed

text \<open>
  (C2) From an empty book, whatever orders are submitted and cancelled: the highest bid stays below
  the lowest offer, the structural invariant holds, every resting quantity is positive, and the
  next submit or cancel is again defined.
\<close>

theorem engine_never_crossed:
  assumes "traded_book b"
  shows "uncrossed b \<and> live_book b \<and>
    (\<forall>t out. order_typed t \<longrightarrow> (\<exists>r. submit b t out = Some r)) \<and> (\<forall>oid. \<exists>r. cancel b oid = Some r)"
proof -
  have inv: "live_book b" "uncrossed b" using engine_sys.reach_inv [OF assms] by simp_all
  then have "\<exists>r. cancel b oid = Some r" for oid
    by (cases "bk_index b oid") (auto simp: cancel_unknown cancel_known live_book_def)
  with inv submit_defined [OF inv(1)] show ?thesis by (auto simp: order_typed_def)
qed

theorem engine_never_crossed_witness:
  "uncrossed (new_book 1) \<and> (\<exists>r. submit (new_book 1) offer_100 [] = Some r)"
  using engine_never_crossed [OF traded_new, of 1] by (simp add: order_typed_def offer_100_def i64_ok_def)

end
