(* ===== verification/Risk_Gate.thy ===== *)
theory Risk_Gate
  imports Order_Types
begin

text \<open>
  The pre-trade risk gate of \<^verbatim>\<open>include/lloms/risk_gate.hpp\<close> and \<^verbatim>\<open>src/risk_gate.cpp\<close>.
  \<open>check\<close> is \<open>None\<close> where one of its signed 64-bit computations overflows, which C++ leaves
  undefined.
\<close>

section \<open>Limits, decisions and the check\<close>

record RiskLimits =
  max_order_qty :: Qty
  max_position :: Qty
  reference_price :: Price
  price_band :: Price

datatype RiskDecision =
    Accept
  | RejectInvalid
  | RejectOrderTooLarge
  | RejectPositionBreach
  | RejectPriceOutOfBand

definition check :: "RiskLimits \<Rightarrow> Order \<Rightarrow> Qty \<Rightarrow> RiskDecision option" where
  "check lim ord current_position =
     (if o_qty ord \<le> 0 then Some RejectInvalid
      else if max_order_qty lim > 0 \<and> o_qty ord > max_order_qty lim then Some RejectOrderTooLarge
      else do {
        signed_qty \<leftarrow> (if o_side ord = Buy then Some (o_qty ord) else chk64 (- o_qty ord));
        resulting \<leftarrow> chk64 (current_position + signed_qty);
        breach \<leftarrow> (if max_position lim > 0
                   then do { a \<leftarrow> chk64 \<bar>resulting\<bar>; Some (a > max_position lim) }
                   else Some False);
        if breach then Some RejectPositionBreach
        else if o_type ord = Limit \<and> price_band lim > 0 then do {
          lo \<leftarrow> chk64 (reference_price lim - price_band lim);
          hi \<leftarrow> chk64 (reference_price lim + price_band lim);
          if o_price ord < lo \<or> o_price ord > hi then Some RejectPriceOutOfBand else Some Accept
        }
        else Some Accept
      })"

definition reason :: "RiskDecision \<Rightarrow> string" where
  "reason d =
     (case d of
        Accept \<Rightarrow> ''accept''
      | RejectInvalid \<Rightarrow> ''invalid order''
      | RejectOrderTooLarge \<Rightarrow> ''order qty exceeds max''
      | RejectPositionBreach \<Rightarrow> ''net position limit breach''
      | RejectPriceOutOfBand \<Rightarrow> ''price outside collar'')"

section \<open>What the limits mean\<close>

text \<open>The exposure an order would leave, as a number without a width.\<close>

definition exposure :: "Order \<Rightarrow> Qty \<Rightarrow> int" where
  "exposure ord pos = (if o_side ord = Buy then pos + o_qty ord else pos - o_qty ord)"

definition size_ok :: "RiskLimits \<Rightarrow> Order \<Rightarrow> bool" where
  "size_ok lim ord \<longleftrightarrow> max_order_qty lim > 0 \<longrightarrow> o_qty ord \<le> max_order_qty lim"

definition position_ok :: "RiskLimits \<Rightarrow> Order \<Rightarrow> Qty \<Rightarrow> bool" where
  "position_ok lim ord pos \<longleftrightarrow> max_position lim > 0 \<longrightarrow> \<bar>exposure ord pos\<bar> \<le> max_position lim"

definition collar_ok :: "RiskLimits \<Rightarrow> Order \<Rightarrow> bool" where
  "collar_ok lim ord \<longleftrightarrow>
     o_type ord = Limit \<and> price_band lim > 0 \<longrightarrow>
       \<bar>o_price ord - reference_price lim\<bar> \<le> price_band lim"

text \<open>The computations of the check that stay in range.\<close>

definition no_overflow :: "RiskLimits \<Rightarrow> Order \<Rightarrow> Qty \<Rightarrow> bool" where
  "no_overflow lim ord pos \<longleftrightarrow>
     i64_ok (exposure ord pos) \<and>
     (max_position lim > 0 \<longrightarrow> i64_ok \<bar>exposure ord pos\<bar>) \<and>
     (o_type ord = Limit \<and> price_band lim > 0 \<longrightarrow>
        i64_ok (reference_price lim - price_band lim) \<and> i64_ok (reference_price lim + price_band lim))"

lemma i64_ok_neg: "0 < q \<Longrightarrow> i64_ok q \<Longrightarrow> i64_ok (- q)"
  by (simp add: i64_ok_def)

lemma signed_qty_eq:
  "0 < o_qty ord \<Longrightarrow> i64_ok (o_qty ord) \<Longrightarrow>
   (if o_side ord = Buy then Some (o_qty ord) else chk64 (- o_qty ord)) = Some (exposure ord pos - pos)"
  by (simp add: exposure_def chk64_Some i64_ok_neg)

lemma collar_band: "collar_ok lim ord \<longleftrightarrow> \<not> (o_type ord = Limit \<and> price_band lim > 0 \<and>
    (o_price ord < reference_price lim - price_band lim \<or> o_price ord > reference_price lim + price_band lim))"
  by (auto simp: collar_ok_def abs_le_iff)

text \<open>Past the first two guards, in range: the rest of the check.\<close>

lemma check_in_range:
  assumes "0 < o_qty ord" "i64_ok (o_qty ord)" "size_ok lim ord" "no_overflow lim ord pos"
  shows "check lim ord pos =
    Some (if \<not> position_ok lim ord pos then RejectPositionBreach
          else if \<not> collar_ok lim ord then RejectPriceOutOfBand else Accept)"
proof -
  have size: "\<not> o_qty ord \<le> 0" "\<not> (max_order_qty lim > 0 \<and> o_qty ord > max_order_qty lim)"
    using assms(1,3) by (auto simp: size_ok_def)
  have pos: "chk64 (pos + (exposure ord pos - pos)) = Some (exposure ord pos)"
    using assms(4) by (simp add: no_overflow_def chk64_Some)
  have breach: "(if max_position lim > 0 then do { a \<leftarrow> chk64 \<bar>exposure ord pos\<bar>; Some (a > max_position lim) }
      else Some False) = Some (\<not> position_ok lim ord pos)"
    using assms(4) by (auto simp: no_overflow_def position_ok_def chk64_Some)
  show ?thesis
    unfolding check_def if_not_P [OF size(1)] if_not_P [OF size(2)] signed_qty_eq [OF assms(1,2), of pos]
      bind.bind_lunit pos breach
    using assms(4) by (auto simp: no_overflow_def chk64_Some collar_band)
qed

lemma check_defined:
  assumes "i64_ok (o_qty ord)" "no_overflow lim ord pos"
  shows "check lim ord pos =
    Some (if o_qty ord \<le> 0 then RejectInvalid
          else if \<not> size_ok lim ord then RejectOrderTooLarge
          else if \<not> position_ok lim ord pos then RejectPositionBreach
          else if \<not> collar_ok lim ord then RejectPriceOutOfBand
          else Accept)"
proof (cases "0 < o_qty ord \<and> size_ok lim ord")
  case True
  then show ?thesis using check_in_range [OF _ assms(1) _ assms(2)] by simp
next
  case False
  then show ?thesis by (auto simp: check_def size_ok_def)
qed

lemma check_Accept:
  assumes "i64_ok (o_qty ord)" "check lim ord pos = Some Accept"
  shows "0 < o_qty ord \<and> size_ok lim ord \<and> position_ok lim ord pos \<and> collar_ok lim ord \<and>
    i64_ok (exposure ord pos)"
proof -
  have size: "0 < o_qty ord" "\<not> (max_order_qty lim > 0 \<and> o_qty ord > max_order_qty lim)"
    using assms(2) by (auto simp: check_def split: if_splits)
  then have if1: "\<not> o_qty ord \<le> 0" by simp
  from assms(2) have rest: "do { resulting \<leftarrow> chk64 (pos + (exposure ord pos - pos));
        breach \<leftarrow> (if max_position lim > 0
                   then do { a \<leftarrow> chk64 \<bar>resulting\<bar>; Some (a > max_position lim) }
                   else Some False);
        if breach then Some RejectPositionBreach
        else if o_type ord = Limit \<and> price_band lim > 0 then do {
          lo \<leftarrow> chk64 (reference_price lim - price_band lim);
          hi \<leftarrow> chk64 (reference_price lim + price_band lim);
          if o_price ord < lo \<or> o_price ord > hi then Some RejectPriceOutOfBand else Some Accept
        } else Some Accept } = Some Accept"
    unfolding check_def if_not_P [OF if1] if_not_P [OF size(2)] signed_qty_eq [OF size(1) assms(1), of pos]
      bind.bind_lunit .
  then have in_range: "i64_ok (exposure ord pos)"
    by (simp add: chk64_def split: if_splits)
  have "position_ok lim ord pos"
    using rest in_range by (auto simp: position_ok_def chk64_def split: if_splits)
  moreover have "collar_ok lim ord"
    using rest in_range by (auto simp: collar_band chk64_def split: if_splits)
  ultimately show ?thesis using size in_range by (auto simp: size_ok_def)
qed

section \<open>Properties\<close>

text \<open>
  (C18) An order passes the gate only within every enabled limit: its quantity is positive and at
  most the maximum, the net position it would leave is within the limit in both directions and
  fits the integer type, and a limit price is within the collar around the reference price.
\<close>

theorem risk_accept_sound:
  assumes "i64_ok (o_qty ord)" "check lim ord pos = Some Accept"
  shows "0 < o_qty ord \<and>
    (max_order_qty lim > 0 \<longrightarrow> o_qty ord \<le> max_order_qty lim) \<and>
    (max_position lim > 0 \<longrightarrow>
       \<bar>if o_side ord = Buy then pos + o_qty ord else pos - o_qty ord\<bar> \<le> max_position lim) \<and>
    (o_type ord = Limit \<and> price_band lim > 0 \<longrightarrow>
       \<bar>o_price ord - reference_price lim\<bar> \<le> price_band lim)"
  using check_Accept [OF assms]
  unfolding size_ok_def position_ok_def collar_ok_def exposure_def by blast

theorem risk_accept_sound_witness:
  "\<bar>(-5) + 10\<bar> \<le> (20 :: int) \<and> check \<lparr>max_order_qty = 10, max_position = 20, reference_price = 100, price_band = 5\<rparr>
     \<lparr>o_id = 1, o_symbol = 1, o_side = Buy, o_type = Limit, o_price = 103, o_qty = 10\<rparr> (-5) = Some Accept"
proof -
  let ?l = "\<lparr>max_order_qty = 10, max_position = 20, reference_price = 100, price_band = 5\<rparr> :: RiskLimits"
  let ?o = "\<lparr>o_id = 1, o_symbol = 1, o_side = Buy, o_type = Limit, o_price = 103, o_qty = 10\<rparr> :: Order"
  have ok: "i64_ok (o_qty ?o)" and acc: "check ?l ?o (-5) = Some Accept"
    by (simp_all add: i64_ok_def check_def chk64_def)
  from risk_accept_sound [OF ok acc] acc show ?thesis by simp
qed

text \<open>
  When its sums stay within 64 bits the gate always decides, and it reports the first limit
  that an order breaks, in the fixed order quantity, size, position, price: an order that breaks
  none is accepted.
\<close>

theorem risk_check_complete:
  assumes "i64_ok (o_qty ord)" "no_overflow lim ord pos"
  shows "check lim ord pos = Some d \<longleftrightarrow>
    d = (if o_qty ord \<le> 0 then RejectInvalid
         else if \<not> size_ok lim ord then RejectOrderTooLarge
         else if \<not> position_ok lim ord pos then RejectPositionBreach
         else if \<not> collar_ok lim ord then RejectPriceOutOfBand
         else Accept)"
  using check_defined [OF assms] by auto

theorem risk_check_complete_witness:
  "check \<lparr>max_order_qty = 10, max_position = 20, reference_price = 100, price_band = 5\<rparr>
     \<lparr>o_id = 1, o_symbol = 1, o_side = Sell, o_type = Limit, o_price = 106, o_qty = 10\<rparr> (-15) =
   Some RejectPositionBreach"
proof -
  let ?l = "\<lparr>max_order_qty = 10, max_position = 20, reference_price = 100, price_band = 5\<rparr> :: RiskLimits"
  let ?o = "\<lparr>o_id = 1, o_symbol = 1, o_side = Sell, o_type = Limit, o_price = 106, o_qty = 10\<rparr> :: Order"
  have "i64_ok (o_qty ?o)" "no_overflow ?l ?o (-15)"
    by (simp_all add: i64_ok_def no_overflow_def exposure_def)
  from risk_check_complete [OF this, of RejectPositionBreach] show ?thesis
    by (simp add: size_ok_def position_ok_def exposure_def)
qed

text \<open>
  The position sum is computed even when the position limit is off, so a position near the
  end of the range makes the check run into signed overflow: with every limit disabled, a
  one-lot buy on top of the largest position has no defined outcome.
\<close>

theorem risk_position_overflow:
  "check \<lparr>max_order_qty = 0, max_position = 0, reference_price = 0, price_band = 0\<rparr>
     \<lparr>o_id = 1, o_symbol = 1, o_side = Buy, o_type = Market, o_price = 0, o_qty = 1\<rparr> (2 ^ 63 - 1) = None"
  by (simp add: check_def chk64_def i64_ok_def)

end
