(* ===== verification/Session.thy ===== *)
theory Session
  imports Prelude
begin

text \<open>
  The exchange session layer, \<^verbatim>\<open>include/lloms/session.hpp\<close> and \<^verbatim>\<open>src/session.cpp\<close>: the state
  machine that decides which inbound message may be acted on, and what to do when the stream is
  not whole.  It owns no socket and no clock, so every member function is a function from the
  session and its arguments to the new session and the outcome.
\<close>

section \<open>Data\<close>

datatype State = Disconnected | LogonSent | Active | Recovering | LoggedOut

text \<open>\<^verbatim>\<open>Admin::None\<close>, an application message, is \<open>App\<close>; \<^verbatim>\<open>Reject::None\<close> is \<open>NoReject\<close>.\<close>

datatype Admin = App | Logon | Logout | Heartbeat | TestRequest | ResendRequest | SequenceReset

datatype Reject = NoReject | NotLoggedOn | SequenceTooLow | LogonSequenceTooLow | ResetBackwards | AlreadyLoggedOn

definition to_string_State :: "State \<Rightarrow> string" where
  "to_string_State s = (case s of
     Disconnected \<Rightarrow> ''disconnected'' | LogonSent \<Rightarrow> ''logon-sent'' | Active \<Rightarrow> ''active''
   | Recovering \<Rightarrow> ''recovering'' | LoggedOut \<Rightarrow> ''logged-out'')"

definition to_string_Reject :: "Reject \<Rightarrow> string" where
  "to_string_Reject r = (case r of
     NoReject \<Rightarrow> ''none'' | NotLoggedOn \<Rightarrow> ''traffic-before-logon''
   | SequenceTooLow \<Rightarrow> ''sequence-already-processed''
   | LogonSequenceTooLow \<Rightarrow> ''logon-sequence-behind-ours''
   | ResetBackwards \<Rightarrow> ''sequence-reset-moves-backwards'' | AlreadyLoggedOn \<Rightarrow> ''already-logged-on'')"

record Inbound =
  seq :: u64
  admin :: Admin
  poss_dup :: bool
  gap_fill :: bool
  new_seq :: u64
  in_resend_from :: u64
  in_resend_to :: u64

record Outcome =
  deliver :: bool
  queue :: bool
  drop_msg :: bool
  send_heartbeat :: bool
  send_resend_request :: bool
  resend_from :: u64
  resend_to :: u64
  send_resend :: bool
  replay_from :: u64
  replay_to :: u64
  disconnect :: bool
  reject :: Reject

definition no_outcome :: Outcome where
  "no_outcome = \<lparr>deliver = False, queue = False, drop_msg = False, send_heartbeat = False,
     send_resend_request = False, resend_from = 0, resend_to = 0, send_resend = False,
     replay_from = 0, replay_to = 0, disconnect = False, reject = NoReject\<rparr>"

record Config =
  cfg_heartbeat_ms :: u32
  next_inbound_seq :: u64
  next_outbound_seq :: u64

record Stats =
  delivered :: u64
  queued_total :: u64
  duplicates_dropped :: u64
  gaps_detected :: u64
  gap_fills_applied :: u64
  resets_applied :: u64
  resend_requests_sent :: u64
  resend_requests_served :: u64
  test_requests_sent :: u64
  rejects :: u64

record Session =
  state :: State
  next_in :: u64
  next_out :: u64
  heartbeat_ms :: u32
  last_inbound_ms :: int
  test_request_outstanding :: bool
  queued :: "Inbound list"
  released :: "Inbound list"
  stats :: Stats

definition no_stats :: Stats where
  "no_stats = \<lparr>delivered = 0, queued_total = 0, duplicates_dropped = 0, gaps_detected = 0,
     gap_fills_applied = 0, resets_applied = 0, resend_requests_sent = 0, resend_requests_served = 0,
     test_requests_sent = 0, rejects = 0\<rparr>"

definition new_session :: "Config \<Rightarrow> Session" where
  "new_session cfg = \<lparr>state = Disconnected,
     next_in = (if next_inbound_seq cfg = 0 then 1 else next_inbound_seq cfg),
     next_out = (if next_outbound_seq cfg = 0 then 1 else next_outbound_seq cfg),
     heartbeat_ms = (if cfg_heartbeat_ms cfg = 0 then 30000 else cfg_heartbeat_ms cfg),
     last_inbound_ms = 0, test_request_outstanding = False, queued = [], released = [], stats = no_stats\<rparr>"

section \<open>Operations\<close>

definition claim_outbound_seq :: "Session \<Rightarrow> u64 \<times> Session" where
  "claim_outbound_seq s = (next_out s, s\<lparr>next_out := next_out s + 1\<rparr>)"

definition begin_logon :: "int \<Rightarrow> Session \<Rightarrow> u64 \<times> Session" where
  "begin_logon now s =
     claim_outbound_seq (s\<lparr>state := LogonSent, last_inbound_ms := now, test_request_outstanding := False\<rparr>)"

definition take_released :: "Session \<Rightarrow> Inbound list \<times> Session" where
  "take_released s = (released s, s\<lparr>released := []\<rparr>)"

text \<open>One counter of the statistics goes up.\<close>

abbreviation bump :: "((u64 \<Rightarrow> u64) \<Rightarrow> Stats \<Rightarrow> Stats) \<Rightarrow> Session \<Rightarrow> Session" where
  "bump upd s \<equiv> s\<lparr>stats := upd (\<lambda>n. n + 1) (stats s)\<rparr>"

text \<open>The first held message with the given sequence, and the queue without it.\<close>

fun take_seq :: "u64 \<Rightarrow> Inbound list \<Rightarrow> (Inbound \<times> Inbound list) option" where
  "take_seq n [] = None"
| "take_seq n (m # q) =
     (if seq m = n then Some (m, q)
      else case take_seq n q of None \<Rightarrow> None | Some (m', q') \<Rightarrow> Some (m', m # q'))"

lemma take_seq_length: "take_seq n q = Some (m, q') \<Longrightarrow> length q = Suc (length q')"
  by (induction q arbitrary: q') (auto split: if_splits option.splits)

text \<open>
  The loop of \<^verbatim>\<open>release_queue\<close> rescans the queue from its start after each release; it ends since
  every pass but the last removes a message.
\<close>

function release_loop :: "Session \<Rightarrow> Session" where
  "release_loop s =
     (case take_seq (next_in s) (queued s) of
        None \<Rightarrow> s
      | Some (m, q) \<Rightarrow>
          let s1 = s\<lparr>queued := q, next_in := next_in s + 1\<rparr> in
          release_loop (if admin m = App then bump delivered_update (s1\<lparr>released := released s1 @ [m]\<rparr>) else s1))"
  by auto
termination
  by (relation "measure (\<lambda>s. length (queued s))") (auto simp: take_seq_length split: if_splits)

declare release_loop.simps [simp del]

definition release_queue :: "Session \<Rightarrow> Session" where
  "release_queue s = (let s1 = release_loop s in if queued s1 = [] then s1\<lparr>state := Active\<rparr> else s1)"

text \<open>The end of \<^verbatim>\<open>accept_in_sequence\<close>, which its early returns skip.\<close>

definition after_accept :: "Session \<Rightarrow> Outcome \<Rightarrow> Outcome \<times> Session" where
  "after_accept s out = (out, if state s = Recovering then release_queue s else s)"

definition accept_in_sequence :: "Inbound \<Rightarrow> int \<Rightarrow> Session \<Rightarrow> Outcome \<times> Session" where
  "accept_in_sequence m now s0 =
     (let s = s0\<lparr>last_inbound_ms := now, test_request_outstanding := False\<rparr>;
          s1 = s\<lparr>next_in := next_in s + 1\<rparr>;
          dropped = no_outcome\<lparr>drop_msg := True\<rparr>
      in case admin m of
        SequenceReset \<Rightarrow>
          if new_seq m \<le> next_in s then (dropped\<lparr>reject := ResetBackwards\<rparr>, bump rejects_update s)
          else
            let s2 = s\<lparr>next_in := new_seq m\<rparr> in
            after_accept (if gap_fill m then bump gap_fills_applied_update s2 else bump resets_applied_update s2)
              dropped
      | TestRequest \<Rightarrow> after_accept s1 (dropped\<lparr>send_heartbeat := True\<rparr>)
      | ResendRequest \<Rightarrow>
          after_accept (bump resend_requests_served_update s1)
            (dropped\<lparr>send_resend := True, replay_from := in_resend_from m,
               replay_to := (if in_resend_to m = 0 then next_out s - 1 else in_resend_to m)\<rparr>)
      | Logout \<Rightarrow> after_accept (s1\<lparr>state := LoggedOut\<rparr>) (dropped\<lparr>disconnect := True\<rparr>)
      | Heartbeat \<Rightarrow> after_accept s1 dropped
      | Logon \<Rightarrow>
          if state s = Active \<or> state s = Recovering then
            (dropped\<lparr>disconnect := True, reject := AlreadyLoggedOn\<rparr>, bump rejects_update s1)
          else after_accept (s1\<lparr>state := Active\<rparr>) dropped
      | App \<Rightarrow>
          if state s \<noteq> Active \<and> state s \<noteq> Recovering then
            (dropped\<lparr>reject := NotLoggedOn\<rparr>, bump rejects_update s)
          else after_accept (bump delivered_update s1) (no_outcome\<lparr>deliver := True\<rparr>))"

definition on_message :: "Inbound \<Rightarrow> int \<Rightarrow> Session \<Rightarrow> Outcome \<times> Session" where
  "on_message m now s =
     (let dropped = no_outcome\<lparr>drop_msg := True\<rparr> in
      if state s = Disconnected \<and> admin m \<noteq> Logon then
        (dropped\<lparr>reject := NotLoggedOn\<rparr>, bump rejects_update s)
      else if admin m = Logon \<and> seq m < next_in s \<and> \<not> poss_dup m then
        (dropped\<lparr>disconnect := True, reject := LogonSequenceTooLow\<rparr>, bump rejects_update s)
      else if seq m < next_in s then
        let s1 = s\<lparr>last_inbound_ms := now\<rparr> in
        if poss_dup m then (dropped, bump duplicates_dropped_update s1)
        else (dropped\<lparr>disconnect := True, reject := SequenceTooLow\<rparr>, bump rejects_update s1)
      else if seq m > next_in s then
        if admin m = SequenceReset then accept_in_sequence m now s
        else
          let s1 = s\<lparr>last_inbound_ms := now, test_request_outstanding := False\<rparr>;
              first_gap = (state s1 \<noteq> Recovering);
              s2 = (if first_gap then
                      bump resend_requests_sent_update ((bump gaps_detected_update s1)\<lparr>state := Recovering\<rparr>)
                    else s1);
              out = (if first_gap then
                       no_outcome\<lparr>send_resend_request := True, resend_from := next_in s, resend_to := seq m - 1\<rparr>
                     else no_outcome)
          in (out\<lparr>queue := True\<rparr>, bump queued_total_update (s2\<lparr>queued := queued s2 @ [m]\<rparr>))
      else accept_in_sequence m now s)"

text \<open>\<open>None\<close>: the difference of the two times overflows.\<close>

definition on_clock :: "int \<Rightarrow> Session \<Rightarrow> (Outcome \<times> Session) option" where
  "on_clock now s =
     (if state s \<noteq> Active \<and> state s \<noteq> Recovering \<and> state s \<noteq> LogonSent then Some (no_outcome, s)
      else do {
        silent \<leftarrow> chk64 (now - last_inbound_ms s);
        if silent < uint (heartbeat_ms s) then Some (no_outcome, s)
        else if \<not> test_request_outstanding s then
          Some (no_outcome\<lparr>send_heartbeat := True\<rparr>,
                bump test_requests_sent_update (s\<lparr>test_request_outstanding := True, last_inbound_ms := now\<rparr>))
        else Some (no_outcome\<lparr>disconnect := True\<rparr>, s\<lparr>state := Disconnected\<rparr>) })"

section \<open>Releasing the queue\<close>

lemma succ_less_iff:
  assumes "n \<noteq> (- 1 :: u64)"
  shows "k < n + 1 \<longleftrightarrow> k \<le> n"
proof -
  have "1 + n \<noteq> 0" using assms by (metis add.commute add.right_inverse add_left_cancel)
  then have "unat (n + 1) = Suc (unat n)" by (simp add: unatSuc add.commute)
  then show ?thesis by (simp add: word_less_nat_alt word_le_nat_alt less_Suc_eq_le)
qed

lemma take_seq_Some: "take_seq n q = Some (m, q') \<Longrightarrow> seq m = n \<and> set q = insert m (set q')"
  by (induction q arbitrary: q') (auto split: if_splits option.splits)

lemma take_seq_None: "take_seq n q = None \<longleftrightarrow> n \<notin> seq ` set q"
  by (induction q) (auto split: option.splits)

text \<open>
  The expected sequence moves from \<open>n\<close> to \<open>n'\<close>, and the application messages \<open>h\<close> are handed to the
  caller meanwhile, in sequence order.
\<close>

definition progress :: "u64 \<Rightarrow> Inbound list \<Rightarrow> u64 \<Rightarrow> bool" where
  "progress n h n' \<longleftrightarrow> n \<le> n' \<and> sorted_wrt (<) (map seq h)
     \<and> (\<forall>m\<in>set h. n \<le> seq m \<and> seq m < n' \<and> admin m = App)"

lemma progress_refl [simp]: "progress n [] n"
  by (simp add: progress_def)

lemma progress_trans: "progress n h n1 \<Longrightarrow> progress n1 h' n' \<Longrightarrow> progress n (h @ h') n'"
  by (force simp: progress_def sorted_wrt_append)

lemma progress_one:
  "seq m = n \<Longrightarrow> n \<noteq> - 1 \<Longrightarrow> progress n (if admin m = App then [m] else []) (n + 1)"
  using succ_less_iff [of n n] succ_less_iff [of n "n"] by (auto simp: progress_def order_less_imp_le)

text \<open>Every sequence from \<open>n\<close> up to \<open>n'\<close> is that of a message in \<open>ms\<close>.\<close>

definition covered :: "u64 \<Rightarrow> Inbound set \<Rightarrow> u64 \<Rightarrow> bool" where
  "covered n ms n' \<longleftrightarrow> (\<forall>k. n \<le> k \<longrightarrow> k < n' \<longrightarrow> k \<in> seq ` ms)"

lemma covered_one: "seq m = n \<Longrightarrow> n \<noteq> - 1 \<Longrightarrow> m \<in> ms \<Longrightarrow> covered n ms (n + 1)"
  by (auto simp: covered_def succ_less_iff)

lemma covered_trans: "covered n ms n1 \<Longrightarrow> covered n1 ms' n' \<Longrightarrow> ms \<union> ms' \<subseteq> ms'' \<Longrightarrow> covered n ms'' n'"
  by (fastforce simp: covered_def linorder_not_less)

abbreviation same_session :: "Session \<Rightarrow> Session \<Rightarrow> bool" where
  "same_session s s' \<equiv> next_out s' = next_out s \<and> heartbeat_ms s' = heartbeat_ms s \<and>
     last_inbound_ms s' = last_inbound_ms s \<and> test_request_outstanding s' = test_request_outstanding s"

text \<open>
  What the release does: it hands over the application messages among the contiguous run of held
  messages, in order, and stops only when the next sequence is not held.
\<close>

lemma release_loop_spec:
  assumes "\<forall>m\<in>set (queued s). seq m \<noteq> - 1"
  shows "\<exists>h. released (release_loop s) = released s @ h
    \<and> progress (next_in s) h (next_in (release_loop s))
    \<and> covered (next_in s) (set h \<union> {m \<in> set (queued s). admin m \<noteq> App}) (next_in (release_loop s))
    \<and> set h \<subseteq> set (queued s) \<and> set (queued (release_loop s)) \<subseteq> set (queued s)
    \<and> next_in (release_loop s) \<notin> seq ` set (queued (release_loop s))
    \<and> state (release_loop s) = state s \<and> same_session s (release_loop s)"
  using assms
proof (induction s rule: release_loop.induct)
  case (1 s)
  show ?case
  proof (cases "take_seq (next_in s) (queued s)")
    case None
    then have "release_loop s = s" by (subst release_loop.simps) simp
    then show ?thesis using None by (simp add: take_seq_None covered_def)
  next
    case (Some p)
    obtain m q where p: "p = (m, q)" by (cases p)
    define s1 where "s1 = s\<lparr>queued := q, next_in := next_in s + 1\<rparr>"
    define s2 where "s2 = (if admin m = App then bump delivered_update (s1\<lparr>released := released s1 @ [m]\<rparr>) else s1)"
    have loop: "release_loop s = release_loop s2"
      by (subst release_loop.simps) (simp add: Some p s2_def s1_def Let_def)
    have m: "seq m = next_in s" "set (queued s) = insert m (set q)"
      using take_seq_Some Some p by auto
    have s2: "next_in s2 = next_in s + 1" "queued s2 = q" "state s2 = state s" "same_session s s2"
      "released s2 = released s @ (if admin m = App then [m] else [])"
      by (simp_all add: s2_def s1_def)
    have ok: "\<forall>m\<in>set (queued s2). seq m \<noteq> - 1" "next_in s \<noteq> - 1" using "1.prems" m s2 by auto
    from "1.IH" [OF Some p [symmetric] s1_def, folded s2_def, OF ok(1)]
    obtain h where h: "released (release_loop s2) = released s2 @ h"
      "progress (next_in s2) h (next_in (release_loop s2))"
      "covered (next_in s2) (set h \<union> {m \<in> set (queued s2). admin m \<noteq> App}) (next_in (release_loop s2))"
      "set h \<subseteq> set (queued s2)" "set (queued (release_loop s2)) \<subseteq> set (queued s2)"
      "next_in (release_loop s2) \<notin> seq ` set (queued (release_loop s2))"
      "state (release_loop s2) = state s2" "same_session s2 (release_loop s2)"
      by blast
    let ?h = "(if admin m = App then [m] else []) @ h"
    have "progress (next_in s) ?h (next_in (release_loop s2))"
      using progress_trans [OF progress_one [OF m(1) ok(2)]] h(2) s2(1) by simp
    moreover have "covered (next_in s) (set ?h \<union> {m \<in> set (queued s). admin m \<noteq> App}) (next_in (release_loop s2))"
      by (rule covered_trans [OF covered_one [OF m(1) ok(2), of "{m}"] h(3) [unfolded s2(1)]])
        (use m(2) s2(2) in auto)
    ultimately show ?thesis
      unfolding loop using h s2 m(2) by (intro exI [of _ ?h]) auto
  qed
qed

lemma release_queue_spec:
  assumes "\<forall>m\<in>set (queued s). seq m \<noteq> - 1"
  shows "\<exists>h. released (release_queue s) = released s @ h
    \<and> progress (next_in s) h (next_in (release_queue s))
    \<and> covered (next_in s) (set h \<union> {m \<in> set (queued s). admin m \<noteq> App}) (next_in (release_queue s))
    \<and> set h \<subseteq> set (queued s) \<and> set (queued (release_queue s)) \<subseteq> set (queued s)
    \<and> next_in (release_queue s) \<notin> seq ` set (queued (release_queue s))
    \<and> state (release_queue s) = (if queued (release_queue s) = [] then Active else state s)
    \<and> same_session s (release_queue s)"
  using release_loop_spec [OF assms] by (auto simp: release_queue_def Let_def)

section \<open>One accepted message\<close>

text \<open>
  The effect of a message on the sequence: \<open>accepted m s n1\<close> when the message itself moves the
  expected sequence from that of \<open>s\<close> to \<open>n1\<close>, before any release.
\<close>

definition skips :: "Inbound \<Rightarrow> Session \<Rightarrow> (u64 \<times> u64) list" where
  "skips m s = (if state s \<noteq> Disconnected \<and> admin m = SequenceReset \<and> next_in s \<le> seq m \<and> next_in s < new_seq m
     then [(next_in s, new_seq m)] else [])"

definition skipped_over :: "(u64 \<times> u64) list \<Rightarrow> u64 \<Rightarrow> bool" where
  "skipped_over ranges k \<longleftrightarrow> (\<exists>(a, b) \<in> set ranges. a \<le> k \<and> k < b)"

text \<open>
  A sequence number is accounted for by a message handed to the caller, by an administrative
  message that was received, or by a range that the peer skipped with a SequenceReset.
\<close>

definition accounted :: "Inbound set \<Rightarrow> Inbound set \<Rightarrow> (u64 \<times> u64) list \<Rightarrow> u64 \<Rightarrow> bool" where
  "accounted handed inbox ranges k \<longleftrightarrow>
     k \<in> seq ` handed \<or> (\<exists>m\<in>inbox. seq m = k \<and> admin m \<noteq> App \<and> admin m \<noteq> SequenceReset)
     \<or> skipped_over ranges k"

abbreviation queue_ok :: "Session \<Rightarrow> bool" where
  "queue_ok s \<equiv> \<forall>m\<in>set (queued s). seq m \<noteq> - 1 \<and> admin m \<noteq> SequenceReset"

lemma accounted_mono:
  "accounted H I R k \<Longrightarrow> H \<subseteq> H' \<Longrightarrow> I \<subseteq> I' \<Longrightarrow> set R \<subseteq> set R' \<Longrightarrow> accounted H' I' R' k"
  by (force simp: accounted_def skipped_over_def)

text \<open>The messages that an operation hands to the caller: the one delivered, then those released.\<close>

definition handed_by :: "Inbound \<Rightarrow> Outcome \<Rightarrow> Session \<Rightarrow> Session \<Rightarrow> Inbound list" where
  "handed_by m out s s' = (if deliver out then [m] else []) @ drop (length (released s)) (released s')"

definition step_ok :: "Inbound \<Rightarrow> Outcome \<Rightarrow> Session \<Rightarrow> Session \<Rightarrow> bool" where
  "step_ok m out s s' \<longleftrightarrow>
     progress (next_in s) (handed_by m out s s') (next_in s')
     \<and> (\<forall>k. next_in s \<le> k \<longrightarrow> k < next_in s' \<longrightarrow>
          accounted (set (handed_by m out s s')) (insert m (set (queued s))) (skips m s) k)
     \<and> set (handed_by m out s s') \<subseteq> insert m (set (queued s))
     \<and> set (queued s') \<subseteq> insert m (set (queued s)) \<and> queue_ok s'
     \<and> (\<exists>h. released s' = released s @ h)"

lemma step_ok_still:
  "next_in s' = next_in s \<Longrightarrow> released s' = released s \<Longrightarrow> queued s' = queued s \<Longrightarrow> queue_ok s \<Longrightarrow>
   \<not> deliver out \<Longrightarrow> step_ok m out s s'"
  by (auto simp: step_ok_def handed_by_def)

text \<open>A message that advances the sequence to \<open>next_in s1\<close>, followed by a release when recovering.\<close>

lemma step_ok_after_accept:
  assumes "after_accept s1 out = (out', s')" "queued s1 = queued s" "released s1 = released s" "queue_ok s"
    and prog: "progress (next_in s) (if deliver out then [m] else []) (next_in s1)"
    and acc: "\<forall>k. next_in s \<le> k \<longrightarrow> k < next_in s1 \<longrightarrow>
      accounted (set (if deliver out then [m] else [])) (insert m (set (queued s))) (skips m s) k"
  shows "step_ok m out' s s'"
proof (cases "state s1 = Recovering")
  case False
  then show ?thesis using assms by (auto simp: after_accept_def step_ok_def handed_by_def)
next
  case True
  let ?d = "if deliver out then [m] else []"
  have s': "s' = release_queue s1" "out' = out" using assms(1) True by (auto simp: after_accept_def)
  have "\<forall>m\<in>set (queued s1). seq m \<noteq> - 1" using assms(2,4) by simp
  from release_queue_spec [OF this] obtain h where h: "released s' = released s1 @ h"
    "progress (next_in s1) h (next_in s')"
    "covered (next_in s1) (set h \<union> {m \<in> set (queued s1). admin m \<noteq> App}) (next_in s')"
    "set h \<subseteq> set (queued s1)" "set (queued s') \<subseteq> set (queued s1)"
    unfolding s'(1) [symmetric] by blast
  have hd: "handed_by m out' s s' = ?d @ h" using h(1) assms(3) s'(2) by (simp add: handed_by_def)
  have "accounted (set (?d @ h)) (insert m (set (queued s))) (skips m s) k"
    if k: "next_in s \<le> k" "k < next_in s'" for k
  proof (cases "k < next_in s1")
    case True
    then have "accounted (set ?d) (insert m (set (queued s))) (skips m s) k" using acc k by blast
    then show ?thesis by (rule accounted_mono) auto
  next
    case False
    then have "k \<in> seq ` (set h \<union> {m \<in> set (queued s1). admin m \<noteq> App})"
      using h(3) k by (simp add: covered_def linorder_not_less)
    then show ?thesis using assms(2,4) by (auto simp: accounted_def)
  qed
  then show ?thesis
    unfolding step_ok_def hd using progress_trans [OF prog h(2)] h assms(2,3,4) by auto
qed

lemma step_ok_consume:
  assumes "after_accept s1 out = (out', s')" "queued s1 = queued s" "released s1 = released s" "queue_ok s"
    and "seq m = next_in s" "seq m \<noteq> - 1" "next_in s1 = next_in s + 1"
    and "deliver out \<longleftrightarrow> admin m = App" "admin m \<noteq> SequenceReset"
  shows "step_ok m out' s s'"
proof (rule step_ok_after_accept [OF assms(1-4)])
  have n: "next_in s \<noteq> - 1" using assms(5,6) by simp
  show "progress (next_in s) (if deliver out then [m] else []) (next_in s1)"
    using progress_one [OF assms(5) n] assms(7,8) by simp
  show "\<forall>k. next_in s \<le> k \<longrightarrow> k < next_in s1 \<longrightarrow>
      accounted (set (if deliver out then [m] else [])) (insert m (set (queued s))) (skips m s) k"
    using assms(5,7,8,9) by (auto simp: accounted_def succ_less_iff [OF n])
qed

lemma accept_reset_ok:
  assumes acc: "accept_in_sequence m now s = (out, s')" and "queue_ok s" "seq m \<noteq> - 1"
    and s: "state s \<noteq> Disconnected \<or> admin m = Logon"
    and sq: "next_in s \<le> seq m" "seq m = next_in s \<or> admin m = SequenceReset"
    and reset: "admin m = SequenceReset"
  shows "step_ok m out s s'"
proof (cases "new_seq m \<le> next_in s")
  case True
  with reset show ?thesis
    using acc assms(2) by (intro step_ok_still) (auto simp: accept_in_sequence_def no_outcome_def)
next
  case False
  let ?s = "s\<lparr>last_inbound_ms := now, test_request_outstanding := False, next_in := new_seq m\<rparr>"
  have "skips m s = [(next_in s, new_seq m)]"
    using reset False s sq by (auto simp: skips_def)
  then have sk: "accounted A B (skips m s) k" if "next_in s \<le> k" "k < new_seq m" for A B k
    using that by (simp add: accounted_def skipped_over_def)
  have "after_accept (if gap_fill m then bump gap_fills_applied_update ?s else bump resets_applied_update ?s)
      (no_outcome\<lparr>drop_msg := True\<rparr>) = (out, s')"
    using acc reset False by (simp add: accept_in_sequence_def Let_def)
  then show ?thesis
    by (rule step_ok_after_accept) (use False sk assms(2) in \<open>auto simp: no_outcome_def progress_def\<close>)
qed

lemma accept_logon_ok:
  assumes acc: "accept_in_sequence m now s = (out, s')" and "queue_ok s" "seq m = next_in s" "seq m \<noteq> - 1"
    and Logon: "admin m = Logon"
  shows "step_ok m out s s'"
proof -
  have "admin m \<noteq> SequenceReset" using Logon by simp
  note consume = step_ok_consume [OF _ _ _ assms(2-4) _ _ this]
  let ?s1 = "s\<lparr>last_inbound_ms := now, test_request_outstanding := False, next_in := next_in s + 1\<rparr>"
  show ?thesis
  proof (cases "state s = Active \<or> state s = Recovering")
    case True
    let ?s2 = "bump rejects_update (?s1\<lparr>state := Active\<rparr>)"
    have "after_accept ?s2 out = (out, ?s2)" by (simp add: after_accept_def)
    then have "step_ok m out s ?s2"
      by (rule consume) (use acc True Logon in \<open>auto simp: accept_in_sequence_def no_outcome_def\<close>)
    moreover have "s' = ?s2\<lparr>state := state s\<rparr>"
      using acc True Logon by (auto simp: accept_in_sequence_def)
    ultimately show ?thesis by (simp add: step_ok_def handed_by_def)
  next
    case False
    then have "after_accept (?s1\<lparr>state := Active\<rparr>) (no_outcome\<lparr>drop_msg := True\<rparr>) = (out, s')"
      using acc Logon by (auto simp: accept_in_sequence_def Let_def)
    then show ?thesis by (rule consume) (simp_all add: Logon no_outcome_def)
  qed
qed

lemma accept_step_ok:
  assumes acc: "accept_in_sequence m now s = (out, s')" and "queue_ok s" "seq m \<noteq> - 1"
    and s: "state s \<noteq> Disconnected \<or> admin m = Logon"
    and sq: "next_in s \<le> seq m" "seq m = next_in s \<or> admin m = SequenceReset"
  shows "step_ok m out s s'"
proof (cases "admin m = SequenceReset")
  case True
  then show ?thesis by (rule accept_reset_ok [OF assms])
next
  case False
  with sq have eq: "seq m = next_in s" by simp
  note consume = step_ok_consume [OF _ _ _ assms(2) eq assms(3) _ _ False]
  show ?thesis
  proof (cases "admin m")
    case App
    show ?thesis
    proof (cases "state s = Active \<or> state s = Recovering")
      case True
      then have "after_accept (bump delivered_update (s\<lparr>last_inbound_ms := now,
          test_request_outstanding := False, next_in := next_in s + 1\<rparr>)) (no_outcome\<lparr>deliver := True\<rparr>) = (out, s')"
        using acc App by (auto simp: accept_in_sequence_def Let_def)
      then show ?thesis by (rule consume) (simp_all add: App)
    next
      case False
      then show ?thesis
        using acc App assms(2) by (intro step_ok_still) (auto simp: accept_in_sequence_def no_outcome_def)
    qed
  next
    case Logon
    then show ?thesis by (rule accept_logon_ok [OF acc assms(2) eq assms(3)])
  qed (use acc False in \<open>auto simp: accept_in_sequence_def Let_def no_outcome_def elim!: consume\<close>)
qed

lemma on_message_step_ok:
  assumes msg: "on_message m now s = (out, s')" and "queue_ok s" "seq m \<noteq> - 1"
  shows "step_ok m out s s'"
proof -
  have *: "step_ok m out s s'" if "accept_in_sequence m now s = (out, s')"
    "state s \<noteq> Disconnected \<or> admin m = Logon" "next_in s \<le> seq m" "seq m = next_in s \<or> admin m = SequenceReset"
    by (rule accept_step_ok [OF that(1) assms(2,3) that(2-4)])
  have hold: "step_ok m o2 s s2" if "queued s2 = queued s @ [m]" "next_in s2 = next_in s" "released s2 = released s"
    "\<not> deliver o2" "admin m \<noteq> SequenceReset" for o2 s2
    using that assms(2,3) by (auto simp: step_ok_def handed_by_def)
  have still: "step_ok m o2 s s2" if "queued s2 = queued s" "next_in s2 = next_in s" "released s2 = released s"
    "\<not> deliver o2" for o2 s2
    using that assms(2) by (intro step_ok_still) auto
  consider "state s = Disconnected \<and> admin m \<noteq> Logon \<or> seq m < next_in s"
    | "\<not> (state s = Disconnected \<and> admin m \<noteq> Logon)" "seq m > next_in s" "admin m \<noteq> SequenceReset"
    | "\<not> (state s = Disconnected \<and> admin m \<noteq> Logon)" "seq m > next_in s" "admin m = SequenceReset"
    | "\<not> (state s = Disconnected \<and> admin m \<noteq> Logon)" "seq m = next_in s"
    by force
  then show ?thesis
  proof cases
    case 1
    then show ?thesis
      by (intro still) (use msg in \<open>auto simp: on_message_def Let_def no_outcome_def split: if_splits\<close>)
  next
    case 2
    then show ?thesis
      by (intro hold) (use msg in \<open>auto simp: on_message_def Let_def no_outcome_def split: if_splits\<close>)
  next
    case 3
    then have "\<not> seq m < next_in s" by (simp add: order.asym)
    with 3 show ?thesis using msg by (intro *) (auto simp: on_message_def Let_def)
  next
    case 4
    then show ?thesis using msg by (intro *) (auto simp: on_message_def Let_def)
  qed
qed

section \<open>Runs of a session\<close>

text \<open>
  A session from its construction on, with what its caller has seen of it: the messages it was
  handed, in order, all messages that came in, and the ranges the peer skipped.  The clock may
  show anything and the peer may send anything.
\<close>

record session_run =
  ses :: Session
  handed :: "Inbound list"
  inbox :: "Inbound list"
  ranges :: "(u64 \<times> u64) list"

inductive session_step :: "session_run \<Rightarrow> session_run \<Rightarrow> bool" where
  message: "on_message m now (ses r) = (out, s') \<Longrightarrow>
    session_step r (r\<lparr>ses := s', handed := handed r @ handed_by m out (ses r) s',
      inbox := inbox r @ [m], ranges := ranges r @ skips m (ses r)\<rparr>)"
| clock: "on_clock now (ses r) = Some (out, s') \<Longrightarrow> session_step r (r\<lparr>ses := s'\<rparr>)"
| take_out: "session_step r (r\<lparr>ses := snd (take_released (ses r))\<rparr>)"
| logon: "session_step r (r\<lparr>ses := snd (begin_logon now (ses r))\<rparr>)"
| claim: "session_step r (r\<lparr>ses := snd (claim_outbound_seq (ses r))\<rparr>)"

definition start_run :: "Config \<Rightarrow> session_run" where
  "start_run cfg = \<lparr>ses = new_session cfg, handed = [], inbox = [], ranges = []\<rparr>"

definition run_inv :: "u64 \<Rightarrow> session_run \<Rightarrow> bool" where
  "run_inv n0 r \<longleftrightarrow>
     progress n0 (handed r) (next_in (ses r)) \<and> queue_ok (ses r)
     \<and> set (handed r) \<subseteq> set (inbox r) \<and> set (queued (ses r)) \<subseteq> set (inbox r)
     \<and> (\<forall>k. n0 \<le> k \<longrightarrow> k < next_in (ses r) \<longrightarrow> accounted (set (handed r)) (set (inbox r)) (ranges r) k)"

lemma message_run_inv:
  assumes inv: "run_inv n0 r" and "on_message m now (ses r) = (out, s')" "seq m \<noteq> - 1"
  shows "run_inv n0 (r\<lparr>ses := s', handed := handed r @ handed_by m out (ses r) s',
      inbox := inbox r @ [m], ranges := ranges r @ skips m (ses r)\<rparr>)"
proof -
  let ?h = "handed_by m out (ses r) s'"
  have q: "queue_ok (ses r)" using inv by (simp add: run_inv_def)
  note st = on_message_step_ok [OF assms(2) q assms(3), unfolded step_ok_def]
  have sub: "insert m (set (queued (ses r))) \<subseteq> set (inbox r @ [m])"
    using inv by (auto simp: run_inv_def)
  have "accounted (set (handed r @ ?h)) (set (inbox r @ [m])) (ranges r @ skips m (ses r)) k"
    if k: "n0 \<le> k" "k < next_in s'" for k
  proof (cases "k < next_in (ses r)")
    case True
    then have "accounted (set (handed r)) (set (inbox r)) (ranges r) k" using inv k by (simp add: run_inv_def)
    then show ?thesis by (rule accounted_mono) auto
  next
    case False
    then have "accounted (set ?h) (insert m (set (queued (ses r)))) (skips m (ses r)) k"
      using st k by (simp add: linorder_not_less)
    then show ?thesis by (rule accounted_mono) (use sub in auto)
  qed
  moreover have "progress n0 (handed r @ ?h) (next_in s')"
    using inv st by (auto simp: run_inv_def intro: progress_trans)
  moreover have "set (handed r @ ?h) \<subseteq> set (inbox r @ [m])" "set (queued s') \<subseteq> set (inbox r @ [m])" "queue_ok s'"
    using inv st sub by (auto simp: run_inv_def)
  ultimately show ?thesis by (simp add: run_inv_def)
qed

lemma on_clock_frame:
  "on_clock now s = Some (out, s') \<Longrightarrow> next_in s' = next_in s \<and> queued s' = queued s \<and> released s' = released s"
  by (simp add: on_clock_def chk64_def split: if_split_asm) (clarify, simp)+

text \<open>
  The invariant of a run in which the largest sequence number has not come in: accepting it makes
  the 64-bit counter wrap around.
\<close>

definition no_wrap :: "session_run \<Rightarrow> bool" where
  "no_wrap r \<longleftrightarrow> (\<forall>m\<in>set (inbox r). seq m \<noteq> - 1)"

lemma session_step_inv:
  assumes "no_wrap r \<longrightarrow> run_inv n0 r" "session_step r r'"
  shows "no_wrap r' \<longrightarrow> run_inv n0 r'"
  using assms(2)
proof cases
  case (message m now out s')
  then show ?thesis using assms(1) message_run_inv [of n0 r m now out s'] by (simp add: no_wrap_def)
next
  case (clock now out s')
  then show ?thesis using assms(1) on_clock_frame by (simp add: no_wrap_def run_inv_def)
qed (use assms(1) in \<open>simp_all add: no_wrap_def run_inv_def take_released_def begin_logon_def claim_outbound_seq_def\<close>)

interpretation session_sys: invariant_system "\<lambda>r. r = start_run cfg" session_step
    "\<lambda>r. no_wrap r \<longrightarrow> run_inv (next_in (new_session cfg)) r" for cfg
proof (unfold_locales, goal_cases)
  case (1 r) then show ?case by (auto simp: start_run_def run_inv_def new_session_def linorder_not_le [symmetric])
next
  case (2 r r') then show ?case by (rule session_step_inv)
qed

text \<open>
  (C3) As long as no message numbered \<open>2 ^ 64 - 1\<close> comes in, nothing is delivered twice, and nothing
  out of order, however gaps open and close, whatever else the peer sends and whenever the
  session drops and logs on again: the application messages handed to
  the caller, delivered or released, have strictly ascending sequence numbers, all below the one
  expected next.  And nothing is lost silently: every number from the first expected to the next is
  that of a message that was handed over, or of an administrative message that came in, or lies in
  a range that the peer itself skipped with a SequenceReset.
\<close>

theorem session_in_order:
  assumes "reach (\<lambda>r. r = start_run cfg) session_step r" "\<forall>m\<in>set (inbox r). seq m \<noteq> - 1"
  shows "sorted_wrt (<) (map seq (handed r))
    \<and> (\<forall>m. m \<in> set (handed r) \<longrightarrow> m \<in> set (inbox r) \<and> admin m = App \<and> seq m < next_in (ses r))
    \<and> (\<forall>k. next_in (new_session cfg) \<le> k \<longrightarrow> k < next_in (ses r) \<longrightarrow>
         accounted (set (handed r)) (set (inbox r)) (ranges r) k)"
  using session_sys.reach_inv [OF assms(1)] assms(2) by (auto simp: no_wrap_def run_inv_def progress_def)

section \<open>Dispatch\<close>

lemma accept_outcome:
  "accept_in_sequence m now s = (out, s') \<Longrightarrow>
     \<not> queue out \<and> (deliver out \<longleftrightarrow> \<not> drop_msg out) \<and> \<not> send_resend_request out
     \<and> (deliver out \<longleftrightarrow> admin m = App \<and> (state s = Active \<or> state s = Recovering))"
  by (cases "admin m") (auto simp: accept_in_sequence_def after_accept_def no_outcome_def Let_def split: if_splits)

lemma on_message_dispatch:
  assumes "on_message m now s = (out, s')"
  shows "(if deliver out then 1 else 0) + (if queue out then 1 else 0) + (if drop_msg out then 1 else 0) = (1 :: nat)
    \<and> (deliver out \<longleftrightarrow> admin m = App \<and> seq m = next_in s \<and> (state s = Active \<or> state s = Recovering))
    \<and> (queue out \<longleftrightarrow> (state s \<noteq> Disconnected \<or> admin m = Logon) \<and> seq m > next_in s \<and> admin m \<noteq> SequenceReset)
    \<and> (send_resend_request out \<longleftrightarrow> queue out \<and> state s \<noteq> Recovering)
    \<and> (queue out \<longrightarrow> state s' = Recovering \<and> queued s' = queued s @ [m] \<and> next_in s' = next_in s)
    \<and> (send_resend_request out \<longrightarrow> resend_from out = next_in s \<and> resend_to out = seq m - 1)"
proof -
  consider "state s = Disconnected \<and> admin m \<noteq> Logon \<or> seq m < next_in s"
    | "\<not> (state s = Disconnected \<and> admin m \<noteq> Logon)" "seq m > next_in s" "admin m \<noteq> SequenceReset"
    | "\<not> (state s = Disconnected \<and> admin m \<noteq> Logon)" "seq m > next_in s" "admin m = SequenceReset"
    | "\<not> (state s = Disconnected \<and> admin m \<noteq> Logon)" "seq m = next_in s"
    by force
  then show ?thesis
  proof cases
    case 1
    then show ?thesis using assms by (auto simp: on_message_def no_outcome_def Let_def split: if_splits)
  next
    case 2
    then have "\<not> seq m < next_in s" by (simp add: order.asym)
    with 2 show ?thesis using assms by (auto simp: on_message_def no_outcome_def Let_def split: if_splits)
  next
    case 3
    then have n: "\<not> seq m < next_in s" by (simp add: order.asym)
    with 3 have "accept_in_sequence m now s = (out, s')" using assms by (auto simp: on_message_def Let_def)
    from accept_outcome [OF this] show ?thesis using 3 by auto
  next
    case 4
    then have "accept_in_sequence m now s = (out, s')" using assms by (auto simp: on_message_def Let_def)
    from accept_outcome [OF this] show ?thesis using 4 by auto
  qed
qed

text \<open>
  The contract of an outcome: exactly one of deliver, queue and drop; a message is delivered only
  if it is application data on a session that is Active or Recovering and carries exactly the
  expected sequence; it is held exactly if a gap is open ahead of it; a resend is requested exactly
  when a gap opens on a session that is not already recovering, and for exactly the missing range.
\<close>

theorem session_dispatch:
  assumes "on_message m now s = (out, s')"
  shows "(if deliver out then 1 else 0) + (if queue out then 1 else 0) + (if drop_msg out then 1 else 0) = (1 :: nat)
    \<and> (deliver out \<longleftrightarrow> admin m = App \<and> seq m = next_in s \<and> (state s = Active \<or> state s = Recovering))
    \<and> (queue out \<longleftrightarrow> (state s \<noteq> Disconnected \<or> admin m = Logon) \<and> seq m > next_in s \<and> admin m \<noteq> SequenceReset)
    \<and> (send_resend_request out \<longleftrightarrow> queue out \<and> state s \<noteq> Recovering)
    \<and> (queue out \<longrightarrow> state s' = Recovering \<and> queued s' = queued s @ [m] \<and> next_in s' = next_in s)
    \<and> (send_resend_request out \<longrightarrow> resend_from out = next_in s \<and> resend_to out = seq m - 1)"
  by (rule on_message_dispatch [OF assms])

section \<open>Recovery\<close>

fun feed :: "Inbound list \<Rightarrow> int \<Rightarrow> Session \<Rightarrow> Outcome list \<times> Session" where
  "feed [] now s = ([], s)"
| "feed (m # ms) now s =
     (let (out, s1) = on_message m now s; (outs, s2) = feed ms now s1 in (out # outs, s2))"

lemma feed_append:
  "feed (xs @ ys) now s =
     (let (o1, s1) = feed xs now s; (o2, s2) = feed ys now s1 in (o1 @ o2, s2))"
  by (induction xs arbitrary: s) (auto split: prod.splits)

text \<open>Application messages with consecutive sequence numbers from \<open>n\<close>, none of them the reserved one.\<close>

fun consec :: "u64 \<Rightarrow> Inbound list \<Rightarrow> bool" where
  "consec n [] \<longleftrightarrow> True"
| "consec n (m # ms) \<longleftrightarrow> seq m = n \<and> n \<noteq> - 1 \<and> admin m = App \<and> consec (n + 1) ms"

lemma consec_append: "consec n (xs @ ys) \<longleftrightarrow> consec n xs \<and> consec (n + of_nat (length xs)) ys"
  by (induction xs arbitrary: n) (auto simp: algebra_simps)

lemma consec_ge: "consec n ms \<Longrightarrow> m \<in> set ms \<Longrightarrow> n \<le> seq m"
proof (induction ms arbitrary: n)
  case (Cons x ms)
  then show ?case using succ_less_iff [of n n] by (fastforce simp: order_less_imp_le)
qed simp

lemma release_consec:
  "consec (next_in s) (queued s) \<Longrightarrow>
     queued (release_loop s) = [] \<and> released (release_loop s) = released s @ queued s
     \<and> next_in (release_loop s) = next_in s + of_nat (length (queued s))"
proof (induction "queued s" arbitrary: s)
  case Nil
  then have q: "queued s = []" by simp
  then have "release_loop s = s" by (subst release_loop.simps) simp
  then show ?case using q by simp
next
  case (Cons m q)
  define s1 where "s1 = bump delivered_update (s\<lparr>queued := q, next_in := next_in s + 1, released := released s @ [m]\<rparr>)"
  have m: "seq m = next_in s" "admin m = App" "consec (next_in s + 1) q"
    using Cons.prems unfolding Cons.hyps(2) [symmetric] by simp_all
  have "release_loop s = release_loop s1"
    by (subst release_loop.simps) (simp add: Cons.hyps(2) [symmetric] m s1_def)
  moreover have q: "q = queued s1" "consec (next_in s1) (queued s1)" using m(3) by (simp_all add: s1_def)
  note Cons.hyps(1) [OF q]
  moreover have "queued s1 = q" "released s1 = released s @ [m]" "next_in s1 = next_in s + 1"
    by (simp_all add: s1_def)
  ultimately show ?case unfolding Cons.hyps(2) [symmetric] by simp
qed

lemma feed_gaps:
  assumes "state s = Recovering" "consec n ms" "next_in s < n"
  shows "\<exists>outs s'. feed ms now s = (outs, s') \<and> (\<forall>out. out \<in> set outs \<longrightarrow> queue out)
    \<and> state s' = Recovering \<and> next_in s' = next_in s \<and> queued s' = queued s @ ms \<and> released s' = released s"
  using assms
proof (induction ms arbitrary: s n)
  case (Cons m ms)
  define s1 where "s1 = snd (on_message m now s)"
  have n: "seq m = n" "admin m = App" "n \<noteq> - 1" "consec (n + 1) ms" using Cons.prems by simp_all
  have one: "state s1 = Recovering" "next_in s1 = next_in s" "queued s1 = queued s @ [m]" "released s1 = released s"
    "queue (fst (on_message m now s))"
    using Cons.prems(1,3) n(1,2) by (auto simp: s1_def on_message_def Let_def order.asym no_outcome_def)
  have "next_in s1 < n + 1" using Cons.prems(3) n(3) one(2) by (simp add: succ_less_iff)
  from Cons.IH [OF one(1) n(4) this] one show ?case
    by (cases "on_message m now s") (auto simp: s1_def)
qed simp

text \<open>A stream without holes is delivered as it comes in.\<close>

lemma feed_in_sequence:
  assumes "state s = Active" "queued s = []" "consec (next_in s) ms"
  shows "\<exists>outs s'. feed ms now s = (outs, s') \<and> length outs = length ms
    \<and> (\<forall>out. out \<in> set outs \<longrightarrow> deliver out \<and> \<not> send_resend_request out \<and> \<not> disconnect out)
    \<and> state s' = Active \<and> queued s' = [] \<and> released s' = released s \<and> next_in s' = next_in s + of_nat (length ms)"
  using assms
proof (induction ms arbitrary: s)
  case (Cons m ms)
  define s1 where "s1 = bump delivered_update (s\<lparr>last_inbound_ms := now, test_request_outstanding := False, next_in := next_in s + 1\<rparr>)"
  have "on_message m now s = (no_outcome\<lparr>deliver := True\<rparr>, s1)"
    using Cons.prems by (simp add: on_message_def accept_in_sequence_def after_accept_def Let_def s1_def)
  moreover have "state s1 = Active" "queued s1 = []" "consec (next_in s1) ms" "next_in s1 = next_in s + 1" "released s1 = released s"
    using Cons.prems by (simp_all add: s1_def)
  ultimately show ?case using Cons.IH [of s1] by (auto simp: no_outcome_def algebra_simps)
qed simp

text \<open>A replay that fills the hole: each message is delivered, the last one releases what was held.\<close>

lemma feed_fill:
  assumes "state s = Recovering" "consec (next_in s) (ms @ queued s)" "ms \<noteq> []" "queued s \<noteq> []"
  shows "\<exists>outs s'. feed ms now s = (outs, s') \<and> (\<forall>out. out \<in> set outs \<longrightarrow> deliver out)
    \<and> state s' = Active \<and> queued s' = [] \<and> released s' = released s @ queued s
    \<and> next_in s' = next_in s + of_nat (length ms + length (queued s))"
  using assms
proof (induction ms arbitrary: s)
  case (Cons m ms)
  have m: "seq m = next_in s" "admin m = App" "next_in s \<noteq> - 1" "consec (next_in s + 1) (ms @ queued s)"
    using Cons.prems by simp_all
  define s1 where "s1 = bump delivered_update (s\<lparr>last_inbound_ms := now, test_request_outstanding := False, next_in := next_in s + 1\<rparr>)"
  have s1: "queued s1 = queued s" "next_in s1 = next_in s + 1" "state s1 = Recovering" "released s1 = released s"
    using Cons.prems(1) by (simp_all add: s1_def)
  have step: "on_message m now s = (no_outcome\<lparr>deliver := True\<rparr>, release_queue s1)"
    using Cons.prems(1) m(1,2)
    by (simp add: on_message_def accept_in_sequence_def after_accept_def Let_def s1_def)
  show ?case
  proof (cases ms)
    case Nil
    then have "consec (next_in s1) (queued s1)" using m(4) s1 by simp
    from release_consec [OF this] have "queued (release_queue s1) = []" "state (release_queue s1) = Active"
      "released (release_queue s1) = released s @ queued s"
      "next_in (release_queue s1) = next_in s + of_nat (1 + length (queued s))"
      using s1 by (simp_all add: release_queue_def Let_def)
    then show ?thesis using Nil step by simp
  next
    case (Cons x xs)
    have "next_in s1 < next_in s1 + 1" and gt: "\<forall>q\<in>set (queued s). next_in s1 < seq q"
    proof -
      have *: "next_in s1 \<noteq> - 1" "consec (next_in s1 + 1) (xs @ queued s)" using m(4) Cons s1 by simp_all
      show lt: "next_in s1 < next_in s1 + 1" using succ_less_iff [OF *(1)] by simp
      show "\<forall>q\<in>set (queued s). next_in s1 < seq q" using consec_ge [OF *(2)] lt by fastforce
    qed
    then have "take_seq (next_in s1) (queued s1) = None" using s1 by (auto simp: take_seq_None)
    then have "release_queue s1 = s1"
      using Cons.prems(4) s1 by (simp add: release_queue_def release_loop.simps [of s1])
    then show ?thesis using Cons.IH [of s1] m(4) Cons s1 Cons.prems(4) step by (auto simp: algebra_simps)
  qed
qed simp

lemma first_gap:
  assumes "state s = Active" "admin m = App" "next_in s < seq m"
  shows "\<exists>s1. on_message m now s = (no_outcome\<lparr>send_resend_request := True, resend_from := next_in s,
      resend_to := seq m - 1, queue := True\<rparr>, s1)
    \<and> state s1 = Recovering \<and> next_in s1 = next_in s \<and> queued s1 = queued s @ [m] \<and> released s1 = released s"
  using assms order.asym [OF assms(3)] by (auto simp: on_message_def Let_def)

text \<open>
  (C31) A hole that is filled recovers completely: on a live session with nothing held, messages past a
  hole are all held, the first of them requesting exactly the hole; when the missing messages then
  come in, each is delivered, the held ones are released behind them in order, and the session is
  Active again, expecting the next sequence.
\<close>

theorem gap_recovers:
  assumes "state s = Active" "queued s = []" "consec (next_in s) (fill @ held)" "fill \<noteq> []" "held \<noteq> []"
  shows "\<exists>first outs_h outs_f s'. feed (held @ fill) now s = ((first # outs_h) @ outs_f, s')
    \<and> send_resend_request first \<and> resend_from first = next_in s
    \<and> resend_to first = next_in s + of_nat (length fill) - 1
    \<and> (\<forall>out. out \<in> set (first # outs_h) \<longrightarrow> queue out) \<and> (\<forall>out. out \<in> set outs_f \<longrightarrow> deliver out)
    \<and> state s' = Active \<and> queued s' = [] \<and> released s' = released s @ held
    \<and> next_in s' = next_in s + of_nat (length fill + length held)"
proof -
  obtain h hs where h: "held = h # hs" using assms(5) by (cases held) auto
  let ?n = "next_in s + of_nat (length fill)"
  have c: "consec (next_in s) fill" "consec ?n held" using assms(3) by (simp_all add: consec_append)
  have sh: "seq h = ?n" "admin h = App" "?n \<noteq> - 1" "consec (?n + 1) hs" using c(2) h by simp_all
  have lt: "next_in s < ?n"
  proof -
    obtain x xs where x: "fill = x # xs" using assms(4) by (cases fill) auto
    then have "next_in s \<noteq> - 1" "consec (next_in s + 1) (xs @ held)" using assms(3) by simp_all
    then have "next_in s < next_in s + 1" "next_in s + 1 \<le> seq h"
      using succ_less_iff consec_ge h by simp_all
    then show ?thesis using sh(1) by simp
  qed
  from first_gap [OF assms(1) sh(2), of now] lt sh(1) obtain s1 where
    s1: "on_message h now s = (no_outcome\<lparr>send_resend_request := True, resend_from := next_in s,
      resend_to := ?n - 1, queue := True\<rparr>, s1)" "state s1 = Recovering" "next_in s1 = next_in s"
      "queued s1 = [h]" "released s1 = released s" using assms(2) by auto
  have "next_in s1 < ?n + 1" using lt sh(3) s1(3) by (simp add: succ_less_iff)
  from feed_gaps [OF s1(2) sh(4) this, of now] obtain outs_h s2 where
    s2: "feed hs now s1 = (outs_h, s2)" "\<forall>out. out \<in> set outs_h \<longrightarrow> queue out" "state s2 = Recovering"
      "next_in s2 = next_in s" "queued s2 = held" "released s2 = released s"
    using s1 h by auto
  have "consec (next_in s2) (fill @ queued s2)" "queued s2 \<noteq> []" using assms(3,5) s2 by simp_all
  from feed_fill [OF s2(3) this(1) assms(4) this(2), of now] obtain outs_f s' where
    s': "feed fill now s2 = (outs_f, s')" "\<forall>out. out \<in> set outs_f \<longrightarrow> deliver out" "state s' = Active"
      "queued s' = []" "released s' = released s @ held" "next_in s' = next_in s + of_nat (length fill + length held)"
    using s2 by auto
  have "feed (held @ fill) now s = ((fst (on_message h now s) # outs_h) @ outs_f, s')"
    using s1(1) s2(1) s'(1) by (simp add: h feed_append)
  then show ?thesis using s1(1) s2(2) s'(2-6) by (intro exI) auto
qed

section \<open>Liveness check\<close>

text \<open>
  Liveness is a two-step: with a clock that does not run backwards the check is free of overflow; on
  a live session silence of an interval asks once and never disconnects; after the question, the
  session is dropped at the first check that comes a full further interval later and not before;
  and a dropped session stays down without firing again.
\<close>

theorem liveness_two_step:
  assumes "state s = Active \<or> state s = Recovering \<or> state s = LogonSent" "\<not> test_request_outstanding s"
    and "0 \<le> last_inbound_ms s" "last_inbound_ms s \<le> t1" "t1 \<le> t2" "i64_ok t2"
  shows "if t1 - last_inbound_ms s < uint (heartbeat_ms s) then on_clock t1 s = Some (no_outcome, s)
    else \<exists>s1. on_clock t1 s = Some (no_outcome\<lparr>send_heartbeat := True\<rparr>, s1) \<and> state s1 = state s
      \<and> (if t2 - t1 < uint (heartbeat_ms s) then on_clock t2 s1 = Some (no_outcome, s1)
         else \<exists>s2. on_clock t2 s1 = Some (no_outcome\<lparr>disconnect := True\<rparr>, s2)
           \<and> state s2 = Disconnected \<and> (\<forall>t3. on_clock t3 s2 = Some (no_outcome, s2)))"
proof -
  have ok: "i64_ok (t1 - last_inbound_ms s)" "i64_ok (t2 - t1)"
    using assms(3-6) by (auto simp: i64_ok_def)
  show ?thesis
    using assms(1,2) ok by (auto simp: on_clock_def chk64_Some)
qed

text \<open>Application and logon messages for the concrete runs, as in the session's own tests.\<close>

definition app_msg :: "u64 \<Rightarrow> bool \<Rightarrow> Inbound" where
  "app_msg n dup = \<lparr>seq = n, admin = App, poss_dup = dup, gap_fill = False, new_seq = 0, in_resend_from = 0,
     in_resend_to = 0\<rparr>"

definition adm_msg :: "u64 \<Rightarrow> Admin \<Rightarrow> Inbound" where
  "adm_msg n a = \<lparr>seq = n, admin = a, poss_dup = False, gap_fill = False, new_seq = 0, in_resend_from = 0,
     in_resend_to = 0\<rparr>"

definition live :: Session where
  "live = snd (on_message (adm_msg 1 Logon) 0 (snd (begin_logon 0
     (new_session \<lparr>cfg_heartbeat_ms = 1000, next_inbound_seq = 1, next_outbound_seq = 1\<rparr>))))"

lemmas session_eval = on_message_def accept_in_sequence_def after_accept_def release_queue_def
  release_loop.simps no_outcome_def no_stats_def new_session_def begin_logon_def claim_outbound_seq_def
  app_msg_def adm_msg_def Let_def

lemma live_eval: "live = \<lparr>state = Active, next_in = 2, next_out = 2, heartbeat_ms = 1000, last_inbound_ms = 0,
    test_request_outstanding = False, queued = [], released = [], stats = no_stats\<rparr>"
  by (simp add: live_def session_eval)

theorem session_dispatch_witness:
  "queue (fst (on_message (app_msg 5 False) 0 live)) \<and> resend_to (fst (on_message (app_msg 5 False) 0 live)) = 4"
  using session_dispatch [of "app_msg 5 False" 0 live "fst (on_message (app_msg 5 False) 0 live)"
      "snd (on_message (app_msg 5 False) 0 live)"]
  by (simp add: live_eval app_msg_def)

theorem gap_recovers_witness:
  "\<exists>outs s'. feed [app_msg 4 False, app_msg 5 False, app_msg 2 True, app_msg 3 True] 7 live = (outs, s')
    \<and> state s' = Active \<and> released s' = [app_msg 4 False, app_msg 5 False] \<and> next_in s' = 6"
  using gap_recovers [of live "[app_msg 2 True, app_msg 3 True]" "[app_msg 4 False, app_msg 5 False]" 7]
  by (auto simp: live_eval app_msg_def)

theorem liveness_two_step_witness:
  "\<exists>s1. on_clock 1000 live = Some (no_outcome\<lparr>send_heartbeat := True\<rparr>, s1) \<and>
     (\<exists>s2. on_clock 2000 s1 = Some (no_outcome\<lparr>disconnect := True\<rparr>, s2) \<and> state s2 = Disconnected)"
  using liveness_two_step [of live 1000 2000] by (auto simp: live_eval i64_ok_def)

definition test_cfg :: Config where
  "test_cfg = \<lparr>cfg_heartbeat_ms = 1000, next_inbound_seq = 1, next_outbound_seq = 1\<rparr>"

text \<open>A run for the witness: logon both ways, a hole at 2, and its replay.\<close>

definition played :: session_run where
  "played = \<lparr>ses = snd (feed [app_msg 3 False, app_msg 2 True] 0 live),
     handed = [app_msg 2 True, app_msg 3 False],
     inbox = [adm_msg 1 Logon, app_msg 3 False, app_msg 2 True], ranges = []\<rparr>"

lemma played_reachable: "reach (\<lambda>r. r = start_run test_cfg) session_step played"
proof -
  let ?R = "reach (\<lambda>r. r = start_run test_cfg) session_step"
  have a: "?R (start_run test_cfg)" by (rule reach.start) simp
  note b = reach.more [OF a session_step.logon [where now = 0]]
  note c = reach.more [OF b session_step.message [where m = "adm_msg 1 Logon" and now = 0, OF prod.collapse [symmetric]]]
  note d = reach.more [OF c session_step.message [where m = "app_msg 3 False" and now = 0, OF prod.collapse [symmetric]]]
  note e = reach.more [OF d session_step.message [where m = "app_msg 2 True" and now = 0, OF prod.collapse [symmetric]]]
  have "?R (\<lparr>ses = snd (feed [app_msg 3 False, app_msg 2 True] 0 live),
     handed = [app_msg 2 True, app_msg 3 False],
     inbox = [adm_msg 1 Logon, app_msg 3 False, app_msg 2 True], ranges = []\<rparr>)"
    using e by (simp add: start_run_def test_cfg_def live_def session_eval handed_by_def skips_def)
  then show ?thesis by (simp add: played_def)
qed

theorem session_in_order_witness:
  "map seq (handed played) = [2, 3] \<and> sorted_wrt (<) (map seq (handed played))"
proof -
  have "map seq (handed played) = [2, 3]" by (simp add: played_def app_msg_def)
  moreover have "\<forall>m\<in>set (inbox played). seq m \<noteq> - 1" by (simp add: played_def app_msg_def adm_msg_def)
  ultimately show ?thesis using session_in_order [OF played_reachable] by simp
qed

section \<open>Where the session falls short of its description\<close>

lemma release_keeps_stale:
  "m \<in> set (queued s) \<Longrightarrow> seq m < next_in s \<Longrightarrow> \<forall>q\<in>set (queued s). seq q \<noteq> - 1 \<Longrightarrow>
   m \<in> set (queued (release_loop s)) \<and> seq m < next_in (release_loop s)"
proof (induction s rule: release_loop.induct)
  case (1 s)
  show ?case
  proof (cases "take_seq (next_in s) (queued s)")
    case None
    then have "release_loop s = s" by (subst release_loop.simps) simp
    then show ?thesis using "1.prems" by simp
  next
    case (Some p)
    obtain x q where p: "p = (x, q)" by (cases p)
    define s1 where "s1 = s\<lparr>queued := q, next_in := next_in s + 1\<rparr>"
    define s2 where "s2 = (if admin x = App then bump delivered_update (s1\<lparr>released := released s1 @ [x]\<rparr>) else s1)"
    have loop: "release_loop s = release_loop s2"
      by (subst release_loop.simps) (simp add: Some p s2_def s1_def Let_def)
    have x: "seq x = next_in s" "set (queued s) = insert x (set q)" using take_seq_Some Some p by auto
    have s2: "queued s2 = q" "next_in s2 = next_in s + 1" by (simp_all add: s2_def s1_def)
    have "next_in s \<noteq> - 1" using "1.prems"(3) x by auto
    then have "seq m < next_in s + 1" using "1.prems"(2) by (simp add: succ_less_iff)
    moreover have "m \<in> set q" using "1.prems"(1,2) x by auto
    ultimately show ?thesis
      unfolding loop using "1.IH" [OF Some p [symmetric] s1_def, folded s2_def] s2 x(2) "1.prems"(3) by simp
  qed
qed

text \<open>A copy that is held although its number has been passed keeps the session in recovery.\<close>

definition stuck :: "Inbound \<Rightarrow> Session \<Rightarrow> bool" where
  "stuck m s \<longleftrightarrow> state s = Recovering \<and> m \<in> set (queued s) \<and> seq m < next_in s \<and> (\<forall>q\<in>set (queued s). seq q \<noteq> - 1)"

lemma stuck_after:
  assumes "stuck c s" "queued s1 = queued s" "next_in s \<le> next_in s1" "state s1 = Recovering"
  shows "stuck c (snd (after_accept s1 out))"
proof -
  have q: "c \<in> set (queued s1)" "seq c < next_in s1" "\<forall>q\<in>set (queued s1). seq q \<noteq> - 1"
    using assms by (auto simp: stuck_def)
  note k = release_keeps_stale [OF q]
  moreover have "set (queued (release_loop s1)) \<subseteq> set (queued s1)" "state (release_loop s1) = Recovering"
    using release_loop_spec [OF q(3)] assms(4) by auto
  ultimately show ?thesis
    using q(3) assms(4) by (auto simp: stuck_def after_accept_def release_queue_def Let_def)
qed

lemma stuck_accept:
  assumes "stuck c s" "admin m \<noteq> Logout" "seq m = next_in s \<and> seq m \<noteq> - 1 \<or> admin m = SequenceReset"
  shows "stuck c (snd (accept_in_sequence m now s))"
proof -
  have st: "state s = Recovering" and c: "seq c < next_in s" using assms(1) by (auto simp: stuck_def)
  have up: "next_in s \<le> next_in s + 1" "seq c < next_in s + 1" if "admin m \<noteq> SequenceReset"
    using assms(3) that c succ_less_iff [of "next_in s"] by (auto simp: order_less_imp_le)
  note keep = stuck_after [OF assms(1)]
  show ?thesis
  proof (cases "admin m")
    case Logon
    then show ?thesis using assms(1) st up by (auto simp: accept_in_sequence_def Let_def stuck_def)
  next
    case SequenceReset
    show ?thesis
    proof (cases "new_seq m \<le> next_in s")
      case True
      then show ?thesis using assms(1) SequenceReset by (simp add: accept_in_sequence_def stuck_def)
    next
      case False
      then show ?thesis using SequenceReset st by (auto simp: accept_in_sequence_def Let_def intro!: keep)
    qed
  qed (use assms(2) st up in \<open>auto simp: accept_in_sequence_def Let_def intro!: keep\<close>)
qed

lemma stuck_step:
  assumes "stuck c s" "admin m \<noteq> Logout" "seq m \<noteq> - 1" "on_message m now s = (out, s')"
  shows "stuck c s' \<and> \<not> send_resend_request out"
proof -
  have st: "state s = Recovering" using assms(1) by (simp add: stuck_def)
  then have req: "\<not> send_resend_request out" using on_message_dispatch [OF assms(4)] by simp
  consider "seq m < next_in s" | "seq m > next_in s" "admin m \<noteq> SequenceReset"
    | "seq m = next_in s \<or> admin m = SequenceReset \<and> seq m > next_in s" by force
  then show ?thesis
  proof cases
    case 1
    then have "queued s' = queued s" "next_in s' = next_in s" "state s' = Recovering"
      using assms(4) st by (auto simp: on_message_def Let_def split: if_splits)
    then show ?thesis using assms(1) req by (simp add: stuck_def)
  next
    case 2
    then have "queued s' = queued s @ [m]" "next_in s' = next_in s" "state s' = Recovering"
      using on_message_dispatch [OF assms(4)] st by auto
    then show ?thesis using assms(1,3) req by (auto simp: stuck_def)
  next
    case 3
    then have "\<not> seq m < next_in s" by auto
    with 3 have "accept_in_sequence m now s = (out, s')"
      using assms(4) st by (auto simp: on_message_def Let_def)
    then show ?thesis using stuck_accept [OF assms(1,2), of now] 3 assms(3) req by auto
  qed
qed

lemma stuck_feed:
  "stuck c s \<Longrightarrow> \<forall>m\<in>set ms. admin m \<noteq> Logout \<and> seq m \<noteq> - 1 \<Longrightarrow> feed ms now s = (outs, s') \<Longrightarrow>
   stuck c s' \<and> (\<forall>out\<in>set outs. \<not> send_resend_request out)"
proof (induction ms arbitrary: s outs)
  case (Cons m ms)
  obtain out s1 where m: "on_message m now s = (out, s1)" by (cases "on_message m now s")
  obtain outs1 where r: "feed ms now s1 = (outs1, s')" "outs = out # outs1"
    using Cons.prems(3) m by (auto split: prod.splits)
  have "stuck c s1" "\<not> send_resend_request out"
    using stuck_step [OF Cons.prems(1) _ _ m] Cons.prems(2) by auto
  then show ?case using Cons.IH [of s1 outs1] r Cons.prems(2) by auto
qed simp

lemma release_twice:
  assumes "queued s = [m, c]" "seq m = next_in s" "seq c = seq m" "admin m = App" "state s = Recovering"
  shows "let s' = release_queue s in state s' = Recovering \<and> queued s' = [c] \<and> released s' = released s @ [m]
    \<and> next_in s' = next_in s + 1"
  using assms by (simp add: release_queue_def release_loop.simps Let_def)

text \<open>A replay that fills a hole behind which one message is held twice.\<close>

lemma feed_fill_twice:
  assumes "state s = Recovering" "queued s = [m, c]" "consec (next_in s) (ms @ [m])" "ms \<noteq> []" "seq c = seq m"
  shows "\<exists>outs s'. feed ms now s = (outs, s') \<and> (\<forall>out. out \<in> set outs \<longrightarrow> deliver out)
    \<and> state s' = Recovering \<and> queued s' = [c] \<and> released s' = released s @ [m] \<and> next_in s' = seq m + 1"
  using assms
proof (induction ms arbitrary: s)
  case (Cons x ms)
  have x: "seq x = next_in s" "admin x = App" "next_in s \<noteq> - 1" "consec (next_in s + 1) (ms @ [m])"
    using Cons.prems by simp_all
  define s1 where "s1 = bump delivered_update (s\<lparr>last_inbound_ms := now, test_request_outstanding := False, next_in := next_in s + 1\<rparr>)"
  have s1: "queued s1 = [m, c]" "next_in s1 = next_in s + 1" "state s1 = Recovering" "released s1 = released s"
    using Cons.prems(1,2) by (simp_all add: s1_def)
  have step: "on_message x now s = (no_outcome\<lparr>deliver := True\<rparr>, release_queue s1)"
    using Cons.prems(1) x(1,2) by (simp add: on_message_def accept_in_sequence_def after_accept_def Let_def s1_def)
  show ?case
  proof (cases ms)
    case Nil
    then have "seq m = next_in s1" "admin m = App" using x(4) s1 by simp_all
    from release_twice [OF s1(1) this(1) Cons.prems(5) this(2) s1(3)] show ?thesis
      using Nil step s1 \<open>seq m = next_in s1\<close> by (auto simp: Let_def)
  next
    case C: (Cons y ys)
    have *: "next_in s1 \<noteq> - 1" "consec (next_in s1 + 1) (ys @ [m])" using x(4) C s1 by simp_all
    have "next_in s1 < seq m" using consec_ge [OF *(2), of m] succ_less_iff [OF *(1), of "next_in s1"] by simp
    then have "take_seq (next_in s1) (queued s1) = None" using s1 Cons.prems(5) by (simp add: take_seq_None)
    then have "release_queue s1 = s1" using s1 by (simp add: release_queue_def release_loop.simps [of s1])
    then show ?thesis using Cons.IH [of s1] x(4) C s1 Cons.prems(5) step by (auto simp: Let_def)
  qed
qed simp

text \<open>
  (C34) A message that arrives again while it is held behind a hole is held a second time, and the
  copy is never dropped: on every live session, when the hole has been filled the first copy is
  released, the second stays and the session with it in Recovering.  Whatever comes in then, short
  of a Logout and of the number \<open>2 ^ 64 - 1\<close>, it stays there and no later gap ever requests a
  resend; the liveness check leaves it there too, or disconnects.
\<close>

theorem duplicate_hold_sticks:
  assumes "state s = Active" "queued s = []" "consec (next_in s) (fill @ [m])" "fill \<noteq> []"
    and "seq c = seq m" "admin c = App"
  shows "\<exists>first outs s1. feed (m # c # fill) now s = (first # outs, s1) \<and> send_resend_request first
    \<and> state s1 = Recovering \<and> queued s1 = [c] \<and> released s1 = released s @ [m] \<and> next_in s1 = seq m + 1
    \<and> (\<forall>ms t os s'. (\<forall>x. x \<in> set ms \<longrightarrow> admin x \<noteq> Logout \<and> seq x \<noteq> - 1) \<longrightarrow> feed ms t s1 = (os, s') \<longrightarrow>
         state s' = Recovering \<and> c \<in> set (queued s') \<and> (\<forall>out. out \<in> set os \<longrightarrow> \<not> send_resend_request out)
         \<and> (\<forall>t out s2. on_clock t s' = Some (out, s2) \<longrightarrow> disconnect out \<or> state s2 = Recovering \<and> c \<in> set (queued s2)))"
proof -
  have m: "admin m = App" "seq m \<noteq> - 1" using assms(3) by (auto simp: consec_append)
  obtain x xs where x: "fill = x # xs" using assms(4) by (cases fill) auto
  then have "next_in s \<noteq> - 1" "consec (next_in s + 1) (xs @ [m])" using assms(3) by simp_all
  then have lt: "next_in s < seq m" using consec_ge [of "next_in s + 1" "xs @ [m]" m] succ_less_iff [of "next_in s" "next_in s"]
    by simp
  from first_gap [OF assms(1) m(1) lt, of now] obtain first s1 where
    s1: "on_message m now s = (first, s1)" "send_resend_request first" "state s1 = Recovering" "next_in s1 = next_in s"
      "queued s1 = [m]" "released s1 = released s" using assms(2) by auto
  have "consec (seq m) [c]" "next_in s1 < seq m" using assms(5,6) m s1(4) lt by simp_all
  from feed_gaps [OF s1(3) this, of now] obtain o2 s2 where
    s2: "feed [c] now s1 = (o2, s2)" "state s2 = Recovering" "next_in s2 = next_in s" "queued s2 = [m, c]"
      "released s2 = released s" using s1 by auto
  from feed_fill_twice [OF s2(2,4) _ assms(4,5), of now] obtain o3 s3 where
    s3: "feed fill now s2 = (o3, s3)" "state s3 = Recovering" "queued s3 = [c]" "released s3 = released s @ [m]"
      "next_in s3 = seq m + 1" using assms(3) s2 by auto
  have "feed (m # ([c] @ fill)) now s = (first # o2 @ o3, s3)"
    using s1(1) s2(1) s3(1) by (simp only: feed.simps feed_append Let_def prod.case)
  then have f: "feed (m # c # fill) now s = (first # o2 @ o3, s3)" by simp
  have st: "stuck c s3" using s3 m(2) assms(5) succ_less_iff [of "seq m" "seq m"] by (simp add: stuck_def)
  have "on_clock t s' = Some (out, s2) \<longrightarrow> disconnect out \<or> state s2 = Recovering \<and> c \<in> set (queued s2)"
    if "stuck c s'" for t s' out s2
    using that by (auto simp: on_clock_def stuck_def chk64_def split: if_splits)
  then have "state s' = Recovering \<and> c \<in> set (queued s') \<and> (\<forall>out. out \<in> set os \<longrightarrow> \<not> send_resend_request out)
      \<and> (\<forall>t out s2. on_clock t s' = Some (out, s2) \<longrightarrow> disconnect out \<or> state s2 = Recovering \<and> c \<in> set (queued s2))"
    if "\<forall>x. x \<in> set ms \<longrightarrow> admin x \<noteq> Logout \<and> seq x \<noteq> - 1" "feed ms t s3 = (os, s')" for ms t os s'
    using stuck_feed [OF st _ that(2)] that(1) unfolding stuck_def by blast
  with f s1(2) s3(2-5) show ?thesis by blast
qed

theorem duplicate_hold_sticks_witness:
  "\<exists>outs s1. feed [app_msg 4 False, app_msg 4 True, app_msg 2 True, app_msg 3 True] 0 live = (outs, s1)
     \<and> next_in s1 = 5 \<and> \<not> send_resend_request (fst (on_message (app_msg 9 False) 0 s1))"
proof -
  from duplicate_hold_sticks [of live "[app_msg 2 True, app_msg 3 True]" "app_msg 4 False" "app_msg 4 True" 0]
  obtain outs s1 where f: "feed [app_msg 4 False, app_msg 4 True, app_msg 2 True, app_msg 3 True] 0 live = (outs, s1)"
      "next_in s1 = seq (app_msg 4 False) + 1"
    and k: "\<And>ms t os s'. (\<forall>x. x \<in> set ms \<longrightarrow> admin x \<noteq> Logout \<and> seq x \<noteq> - 1) \<Longrightarrow> feed ms t s1 = (os, s') \<Longrightarrow>
      (\<forall>out. out \<in> set os \<longrightarrow> \<not> send_resend_request out)"
    by (auto simp: live_eval app_msg_def)
  have "feed [app_msg 9 False] 0 s1 = ([fst (on_message (app_msg 9 False) 0 s1)], snd (on_message (app_msg 9 False) 0 s1))"
    by (simp add: case_prod_unfold Let_def)
  from k [OF _ this] f show ?thesis by (simp add: app_msg_def)
qed

text \<open>
  The expected number is a 64-bit counter that wraps around, and a SequenceReset may take it
  anywhere: after a jump to \<open>2 ^ 64 - 1\<close> the message with that number moves it to 0, numbers that
  were processed before are in sequence again, and number 2 is delivered a second time.
\<close>

definition reset_msg :: "u64 \<Rightarrow> u64 \<Rightarrow> Inbound" where
  "reset_msg n n' = (adm_msg n SequenceReset)\<lparr>new_seq := n'\<rparr>"

definition wrapping :: "Inbound list" where
  "wrapping = [app_msg 2 False, reset_msg 3 0xFFFFFFFFFFFFFFFF, app_msg 0xFFFFFFFFFFFFFFFF False, app_msg 0 False, app_msg 1 False, app_msg 2 False]"

theorem session_wraps:
  "map deliver (fst (feed wrapping 0 live)) = [True, False, True, True, True, True]
     \<and> map disconnect (fst (feed wrapping 0 live)) = [False, False, False, False, False, False]
     \<and> next_in (snd (feed wrapping 0 live)) = 3"
  by (simp add: wrapping_def reset_msg_def live_eval session_eval)

text \<open>
  A gap opens recovery also on a session that is not logged on, and recovery counts as logged on:
  with our Logon sent and none received, message 2 ahead of message 1 moves the session to
  Recovering, and message 1 is then delivered to the application.
\<close>

theorem app_delivered_without_logon:
  "let s = snd (begin_logon 0 (new_session test_cfg)) in
     state s = LogonSent \<and> map deliver (fst (feed [app_msg 2 False, app_msg 1 False] 0 s)) = [False, True]
     \<and> released (snd (feed [app_msg 2 False, app_msg 1 False] 0 s)) = [app_msg 2 False]"
  by (simp add: test_cfg_def session_eval)

text \<open>
  An administrative message that is held behind a hole is consumed without effect when the hole
  closes: a Logout that arrives early neither logs the session out nor disconnects it, and a
  TestRequest that arrives early is never answered.
\<close>

theorem held_admin_ignored:
  "let (outs, s) = feed [adm_msg 3 Logout, app_msg 2 True] 0 live;
       (outs', s') = feed [adm_msg 3 TestRequest, app_msg 2 True] 0 live
   in state s = Active \<and> next_in s = 4 \<and> map disconnect outs = [False, False]
      \<and> next_in s' = 4 \<and> map send_heartbeat outs' = [False, False]"
  by (simp add: live_eval session_eval)

text \<open>
  Not every inbound message clears the doubt of the liveness check: a duplicate moves the time of
  the last message and leaves the question open, so that the next silence of one interval drops
  the session without asking again.
\<close>

theorem duplicate_keeps_doubt:
  "let s1 = snd (the (on_clock 1000 live)); s2 = snd (on_message (app_msg 1 True) 1900 s1)
   in last_inbound_ms s2 = 1900 \<and> (\<exists>s3. on_clock 2900 s2 = Some (no_outcome\<lparr>disconnect := True\<rparr>, s3))"
  by (simp add: live_eval session_eval on_clock_def chk64_def i64_ok_def)

end
