(* ===== verification/Checksum.thy ===== *)
theory Checksum
  imports Prelude
begin

text \<open>
  The Fletcher-16 checksum of \<^verbatim>\<open>src/wire.cpp\<close>, with its deferred reductions on 32-bit accumulators,
  its equivalence with the textbook sums, and what damage it detects.
\<close>

section \<open>Checksum\<close>

text \<open>The inner loop over one block, and the deferred reduction of an accumulator.\<close>

definition fletcher_block :: "u32 \<times> u32 \<Rightarrow> u8 list \<Rightarrow> u32 \<times> u32" where
  "fletcher_block = foldl (\<lambda>(sum1, sum2) b. (sum1 + ucast b, sum2 + (sum1 + ucast b)))"

definition fletcher_fold :: "u32 \<Rightarrow> u32" where
  "fletcher_fold s = (s AND 0xff) + drop_bit 8 s"

function fletcher_loop :: "u32 \<Rightarrow> u32 \<Rightarrow> u8 list \<Rightarrow> u32 \<times> u32" where
  "fletcher_loop sum1 sum2 data =
     (if data = [] then (sum1, sum2)
      else
        let block = (if length data > 21 then 21 else length data);
            (s1, s2) = fletcher_block (sum1, sum2) (take block data)
        in fletcher_loop (fletcher_fold s1) (fletcher_fold s2) (drop block data))"
  by auto
termination
  by (relation "measure (\<lambda>(sum1, sum2, data). length data)") auto

declare fletcher_loop.simps [simp del]

definition fletcher16 :: "u8 list \<Rightarrow> u16" where
  "fletcher16 data =
     (let (sum1, sum2) = fletcher_loop 0xff 0xff data;
          s1 = fletcher_fold sum1; s2 = fletcher_fold sum2
      in ucast (push_bit 8 s2 OR s1))"

section \<open>The checksum is Fletcher-16\<close>

text \<open>The textbook sums over natural numbers: of the bytes, and of the bytes weighted by position.\<close>

fun sum_bytes :: "u8 list \<Rightarrow> nat" where
  "sum_bytes [] = 0"
| "sum_bytes (b # bs) = unat b + sum_bytes bs"

fun weighted_sum :: "u8 list \<Rightarrow> nat" where
  "weighted_sum [] = 0"
| "weighted_sum (b # bs) = Suc (length bs) * unat b + weighted_sum bs"

text \<open>Residues modulo 255, with 255 in the place of 0.\<close>

definition residue :: "nat \<Rightarrow> nat" where
  "residue n = (if n mod 255 = 0 then 255 else n mod 255)"

definition fletcher_ref :: "u8 list \<Rightarrow> nat" where
  "fletcher_ref bs = 256 * residue (weighted_sum bs) + residue (sum_bytes bs)"

lemma sum_bytes_append: "sum_bytes (xs @ ys) = sum_bytes xs + sum_bytes ys"
  by (induction xs) simp_all

lemma weighted_sum_append:
  "weighted_sum (xs @ ys) = weighted_sum xs + length ys * sum_bytes xs + weighted_sum ys"
  by (induction xs) (simp_all add: algebra_simps)

lemma unat_u8_le: "unat (b :: u8) \<le> 255"
  using unsigned_less [where 'a = nat, of b] by simp

lemma unat_ucast_8_32 [simp]: "unat (ucast (b :: u8) :: u32) = unat b"
  using unsigned_less [where 'a = nat, of b] by (simp add: unsigned_ucast_eq take_bit_nat_eq_self)

lemma sum_bytes_le: "sum_bytes bs \<le> 255 * length bs"
  by (induction bs) (use unat_u8_le in \<open>auto simp: add_mono\<close>)

lemma weighted_sum_le: "2 * weighted_sum bs \<le> 255 * (length bs * Suc (length bs))"
proof (induction bs)
  case (Cons b bs)
  have "Suc (length bs) * unat b \<le> Suc (length bs) * 255" using unat_u8_le by (intro mult_le_mono) auto
  then show ?case using Cons by (simp add: algebra_simps)
qed simp

lemma fletcher_block_sums:
  "unat s1 + 255 * length bs < 2 ^ 16 \<Longrightarrow> unat s2 + 2 ^ 16 * length bs < 2 ^ 32 \<Longrightarrow>
   unat (fst (fletcher_block (s1, s2) bs)) = unat s1 + sum_bytes bs \<and>
   unat (snd (fletcher_block (s1, s2) bs)) = unat s2 + length bs * unat s1 + weighted_sum bs"
proof (induction bs arbitrary: s1 s2)
  case (Cons b bs)
  let ?t1 = "s1 + ucast b"
  have t1: "unat ?t1 = unat s1 + unat b"
    using Cons.prems(1) unat_u8_le [of b] by (simp add: unat_plus_if')
  have t2: "unat (s2 + ?t1) = unat s2 + unat ?t1"
    using Cons.prems t1 unat_u8_le [of b] by (subst unat_plus_if') simp
  have step: "fletcher_block (s1, s2) (b # bs) = fletcher_block (?t1, s2 + ?t1) bs"
    by (simp add: fletcher_block_def)
  have "unat ?t1 + 255 * length bs < 2 ^ 16" "unat (s2 + ?t1) + 2 ^ 16 * length bs < 2 ^ 32"
    using Cons.prems t1 t2 unat_u8_le [of b] by simp_all
  from Cons.IH [OF this] show ?case unfolding step t1 t2 by (simp add: algebra_simps)
qed (simp add: fletcher_block_def)

lemma unat_fletcher_fold: "unat (fletcher_fold s) = unat s mod 256 + unat s div 256"
proof -
  have a: "unat (s AND 0xff) = unat s mod 256"
  proof -
    have "s AND 0xff = take_bit 8 s" by (simp add: take_bit_eq_mask mask_eq_exp_minus_1)
    then have "unat (s AND 0xff) = take_bit 8 (unat s)" by (simp only: unsigned_take_bit_eq)
    then show ?thesis by (simp add: take_bit_eq_mod)
  qed
  have b: "unat (drop_bit 8 s) = unat s div 256" by (simp only: unat_drop_bit_eq drop_bit_eq_div [of 8 "unat s"]) simp
  have "unat s < 2 ^ 32" using unsigned_less [where 'a = nat, of s] by simp
  then have "unat s mod 256 + unat s div 256 < 2 ^ 32" by simp
  then show ?thesis by (simp add: fletcher_fold_def unat_plus_if' a b)
qed

lemma fold_mod_255: "(n mod 256 + n div 256) mod 255 = (n :: nat) mod 255"
proof -
  have n: "n = (n mod 256 + n div 256) + 255 * (n div 256)" using div_mult_mod_eq [of n 256] by linarith
  have "((n mod 256 + n div 256) + 255 * (n div 256)) mod 255 = (n mod 256 + n div 256) mod 255"
    by (rule mod_mult_self2)
  then show ?thesis using n by simp
qed

lemma fold_bounds:
  assumes "0 < n" "n < (65536 :: nat)"
  shows "0 < n mod 256 + n div 256" "n mod 256 + n div 256 \<le> 510" "n < 5888 \<Longrightarrow> n mod 256 + n div 256 \<le> 277"
    "n \<le> 510 \<Longrightarrow> n mod 256 + n div 256 \<le> 255"
proof -
  show "0 < n mod 256 + n div 256" using assms(1) by (cases "n < 256") (auto simp: div_greater_zero_iff)
  have "n div 256 < 256" using assms(2) by (simp add: less_mult_imp_div_less)
  then show "n mod 256 + n div 256 \<le> 510" using mod_less_divisor [of 256 n] by simp
  show "n mod 256 + n div 256 \<le> 277" if "n < 5888"
  proof -
    have "n div 256 < 23" using that by (simp add: less_mult_imp_div_less)
    then show ?thesis using mod_less_divisor [of 256 n] by simp
  qed
  show "n mod 256 + n div 256 \<le> 255" if "n \<le> 510"
    using that by (cases "n < 256") (auto simp: mod_if div_if)
qed

text \<open>
  A block of at most 21 bytes and the folding after it keep the accumulators small enough that
  nothing wraps around, and congruent to the textbook sums.
\<close>

lemma fletcher_turn:
  assumes s: "0 < unat s1" "unat s1 \<le> 277" "0 < unat s2" "unat s2 \<le> 510" and len: "length xs \<le> 21"
    and u: "fletcher_block (s1, s2) xs = (u1, u2)"
  shows "0 < unat (fletcher_fold u1)" "unat (fletcher_fold u1) \<le> 277" "0 < unat (fletcher_fold u2)" "unat (fletcher_fold u2) \<le> 510"
    and "unat (fletcher_fold u1) mod 255 = (unat s1 + sum_bytes xs) mod 255"
    and "unat (fletcher_fold u2) mod 255 = (unat s2 + length xs * unat s1 + weighted_sum xs) mod 255"
proof -
  have "unat s1 + 255 * length xs < 2 ^ 16" "unat s2 + 2 ^ 16 * length xs < 2 ^ 32" using s(2,4) len by simp_all
  from fletcher_block_sums [OF this] u
  have u1: "unat u1 = unat s1 + sum_bytes xs" and u2: "unat u2 = unat s2 + length xs * unat s1 + weighted_sum xs" by simp_all
  have "sum_bytes xs \<le> 5355" using sum_bytes_le [of xs] len by simp
  then have b1: "0 < unat u1" "unat u1 < 5888" using u1 s(1,2) by simp_all
  have "length xs * Suc (length xs) \<le> 21 * 22" using len by (intro mult_le_mono) simp_all
  then have w: "weighted_sum xs \<le> 58905" using weighted_sum_le [of xs] by simp
  have "length xs * unat s1 \<le> 21 * 277" using len s(2) by (intro mult_le_mono)
  then have b2: "0 < unat u2" "unat u2 < 65536" using u2 w s(3,4) by simp_all
  show "0 < unat (fletcher_fold u1)" "unat (fletcher_fold u1) \<le> 277" "0 < unat (fletcher_fold u2)" "unat (fletcher_fold u2) \<le> 510"
    using fold_bounds [OF b1(1)] fold_bounds [OF b2] b1 by (simp_all add: unat_fletcher_fold)
  show "unat (fletcher_fold u1) mod 255 = (unat s1 + sum_bytes xs) mod 255"
    "unat (fletcher_fold u2) mod 255 = (unat s2 + length xs * unat s1 + weighted_sum xs) mod 255"
    by (simp_all add: unat_fletcher_fold fold_mod_255 u1 u2)
qed

lemma fletcher_loop_sums:
  assumes "0 < unat s1" "unat s1 \<le> 277" "0 < unat s2" "unat s2 \<le> 510"
    and "fletcher_loop s1 s2 data = (t1, t2)"
  shows "0 < unat t1 \<and> unat t1 \<le> 277 \<and> 0 < unat t2 \<and> unat t2 \<le> 510
    \<and> unat t1 mod 255 = (unat s1 + sum_bytes data) mod 255
    \<and> unat t2 mod 255 = (unat s2 + length data * unat s1 + weighted_sum data) mod 255"
  using assms
proof (induction s1 s2 data rule: fletcher_loop.induct)
  case (1 s1 s2 data)
  show ?case
  proof (cases "data = []")
    case True
    then show ?thesis using "1.prems" by (simp add: fletcher_loop.simps [of s1 s2 "[]"])
  next
    case False
    define k where "k = (if length data > 21 then 21 else length data)"
    define xs where "xs = take k data"
    define ys where "ys = drop k data"
    have data: "data = xs @ ys" by (simp add: xs_def ys_def)
    have len: "length xs \<le> 21" by (simp add: xs_def k_def)
    obtain u1 u2 where u: "fletcher_block (s1, s2) xs = (u1, u2)" by (cases "fletcher_block (s1, s2) xs")
    note v = fletcher_turn [OF "1.prems"(1-4) len u]
    have "fletcher_loop (fletcher_fold u1) (fletcher_fold u2) ys = (t1, t2)"
      using "1.prems"(5) False u
      by (simp add: fletcher_loop.simps [of s1 s2 data] Let_def k_def [symmetric] xs_def [symmetric] ys_def [symmetric])
    from "1.IH" [OF False k_def, folded xs_def ys_def, OF u [symmetric] refl, OF v(1-4) this]
    have ih: "0 < unat t1 \<and> unat t1 \<le> 277 \<and> 0 < unat t2 \<and> unat t2 \<le> 510"
      "unat t1 mod 255 = (unat (fletcher_fold u1) + sum_bytes ys) mod 255"
      "unat t2 mod 255 = (unat (fletcher_fold u2) + length ys * unat (fletcher_fold u1) + weighted_sum ys) mod 255" by blast+
    have "unat t1 mod 255 = (unat s1 + sum_bytes data) mod 255"
      using ih(2) v(5) unfolding data by (metis sum_bytes_append mod_add_left_eq add.assoc)
    moreover have "unat t2 mod 255 = (unat s2 + length xs * unat s1 + weighted_sum xs + length ys * (unat s1 + sum_bytes xs) + weighted_sum ys) mod 255"
      unfolding ih(3) using v(5,6) by (intro mod_add_cong mod_mult_cong) simp_all
    then have "unat t2 mod 255 = (unat s2 + length data * unat s1 + weighted_sum data) mod 255"
      by (simp add: data weighted_sum_append algebra_simps)
    ultimately show ?thesis using ih(1) by blast
  qed
qed

section \<open>Properties\<close>

lemma residue_unique: "0 < n \<Longrightarrow> n \<le> 255 \<Longrightarrow> n mod 255 = k mod 255 \<Longrightarrow> n = residue k"
  by (cases "n = 255") (auto simp: residue_def)

lemma residue_bounds: "0 < residue k" "residue k \<le> 255"
  by (auto simp: residue_def less_imp_le)

lemma residue_eq_iff: "residue a = residue b \<longleftrightarrow> a mod 255 = b mod 255"
  by (auto simp: residue_def)

lemma unat_fletcher16: "unat (fletcher16 data) = fletcher_ref data"
proof -
  obtain t1 t2 where t: "fletcher_loop 0xff 0xff data = (t1, t2)" by (cases "fletcher_loop 0xff 0xff data")
  define u1 where "u1 = fletcher_fold t1"
  define u2 where "u2 = fletcher_fold t2"
  have l: "0 < unat t1" "unat t1 \<le> 277" "0 < unat t2" "unat t2 \<le> 510"
    "unat t1 mod 255 = (255 + sum_bytes data) mod 255"
    "unat t2 mod 255 = (255 + length data * 255 + weighted_sum data) mod 255"
    using fletcher_loop_sums [OF _ _ _ _ t] by simp_all
  have r1: "unat u1 = residue (sum_bytes data)"
    using l(1,2,5) fold_bounds [OF l(1)] unfolding u1_def unat_fletcher_fold
    by (intro residue_unique) (simp_all add: fold_mod_255)
  have r2: "unat u2 = residue (weighted_sum data)"
    using l(3,4,6) fold_bounds [OF l(3)] unfolding u2_def unat_fletcher_fold
    by (intro residue_unique) (simp_all add: fold_mod_255 add.commute [of "length data * 255"] add.assoc)
  have le: "unat u1 < 256" "unat u2 < 256" using residue_bounds [of "sum_bytes data"]
      residue_bounds [of "weighted_sum data"] r1 r2 by simp_all
  have "take_bit 8 u1 = u1"
    using le(1) by (simp add: word_unat_eq_iff unsigned_take_bit_eq take_bit_nat_eq_self)
  then have "push_bit 8 u2 AND u1 = 0"
    by (metis (no_types, lifting) bit_0_eq bit_and_iff bit_push_bit_iff bit_take_bit_iff bot_apply bot_bool_def
        bit_eqI leD)
  then have "push_bit 8 u2 OR u1 = push_bit 8 u2 + u1" by (simp add: disjunctive_add_eq_or)
  moreover have "unat (push_bit 8 u2) = 256 * unat u2"
    using le(2) by (simp add: push_bit_eq_mult unat_word_ariths)
  ultimately have "unat (push_bit 8 u2 OR u1) = 256 * unat u2 + unat u1"
    using le by (simp add: unat_plus_if')
  moreover have "fletcher16 data = ucast (push_bit 8 u2 OR u1)"
    by (simp add: fletcher16_def t u1_def u2_def)
  ultimately show ?thesis using le by (simp add: unsigned_ucast_eq take_bit_nat_eq_self fletcher_ref_def r1 r2)
qed

text \<open>
  (C32) The checksum, computed on 32-bit accumulators with the reduction deferred to every 21 bytes, is the
  textbook Fletcher-16 for every input length: no accumulator wraps around, and the two final sums
  fit a byte each, so that neither spills into the other.
\<close>

theorem fletcher16_is_reference: "unat (fletcher16 data) = fletcher_ref data"
  by (rule unat_fletcher16)

lemma digits_256: "a < 256 \<Longrightarrow> b < 256 \<Longrightarrow> 256 * x + a = 256 * y + (b :: nat) \<longleftrightarrow> a = b \<and> x = y"
proof
  assume lt: "a < 256" "b < 256" and eq: "256 * x + a = 256 * y + b"
  from arg_cong [OF eq, of "\<lambda>n. n mod 256"] lt have "a = b" by simp
  with eq show "a = b \<and> x = y" by simp
qed simp

lemma fletcher16_eq_iff:
  "fletcher16 xs = fletcher16 ys \<longleftrightarrow>
   sum_bytes xs mod 255 = sum_bytes ys mod 255 \<and> weighted_sum xs mod 255 = weighted_sum ys mod 255"
proof -
  have "fletcher16 xs = fletcher16 ys \<longleftrightarrow> fletcher_ref xs = fletcher_ref ys"
    by (simp add: word_unat_eq_iff unat_fletcher16)
  also have "\<dots> \<longleftrightarrow> residue (sum_bytes xs) = residue (sum_bytes ys)
      \<and> residue (weighted_sum xs) = residue (weighted_sum ys)"
    using residue_bounds [of "sum_bytes xs"] residue_bounds [of "sum_bytes ys"]
    unfolding fletcher_ref_def by (subst digits_256) auto
  finally show ?thesis by (simp add: residue_eq_iff)
qed

text \<open>Two bytes that the checksum can tell apart: all but 0 and 255.\<close>

definition confusable :: "u8 \<Rightarrow> u8 \<Rightarrow> bool" where
  "confusable a b \<longleftrightarrow> a = b \<or> a = 0 \<and> b = 255 \<or> a = 255 \<and> b = 0"

lemma confusable_iff: "confusable a b \<longleftrightarrow> unat a mod 255 = unat b mod 255"
proof -
  have m: "unat x mod 255 = (if x = 255 then 0 else unat x)" for x :: u8
    using unat_u8_le [of x] by (cases "unat x = 255") (auto simp: word_unat_eq_iff)
  show ?thesis by (auto simp: confusable_def m word_unat_eq_iff)
qed

lemma mod_add_left_cancel: "(k + a) mod n = (k + b) mod (n :: nat) \<longleftrightarrow> a mod n = b mod n"
  unfolding nat_mod_eq_iff by (simp add: add.assoc)

text \<open>
  (C33) What the checksum detects, and what it does not: any change of a single byte and any exchange of
  two neighbouring bytes, anywhere in a body of any length, changes it, except between the bytes 0
  and 255, which it never tells apart; and every body of zeros has the checksum \<open>0xFFFF\<close>.
\<close>

theorem fletcher16_detects:
  "(fletcher16 (xs @ a # ys) = fletcher16 (xs @ b # ys) \<longleftrightarrow> confusable a b)
   \<and> (fletcher16 (xs @ a # b # ys) = fletcher16 (xs @ b # a # ys) \<longleftrightarrow> confusable a b)
   \<and> fletcher16 (replicate n 0) = 0xFFFF"
proof (intro conjI)
  show "fletcher16 (xs @ a # ys) = fletcher16 (xs @ b # ys) \<longleftrightarrow> confusable a b"
  proof -
    have "sum_bytes (xs @ a # ys) mod 255 = sum_bytes (xs @ b # ys) mod 255 \<longleftrightarrow> confusable a b"
      using mod_add_left_cancel [of "sum_bytes xs + sum_bytes ys" "unat a" 255 "unat b"]
      by (simp add: sum_bytes_append confusable_iff algebra_simps)
    moreover have "weighted_sum (xs @ a # ys) mod 255 = weighted_sum (xs @ b # ys) mod 255" if "confusable a b"
      using that unfolding weighted_sum_append weighted_sum.simps confusable_iff
      by (simp only: list.size) (intro mod_add_cong mod_mult_cong, simp_all)
    ultimately show ?thesis by (auto simp: fletcher16_eq_iff)
  qed
  show "fletcher16 (xs @ a # b # ys) = fletcher16 (xs @ b # a # ys) \<longleftrightarrow> confusable a b"
  proof -
    let ?k = "weighted_sum xs + (2 + length ys) * sum_bytes xs + (1 + length ys) * (unat a + unat b) + weighted_sum ys"
    have "weighted_sum (xs @ a # b # ys) = ?k + unat a" "weighted_sum (xs @ b # a # ys) = ?k + unat b"
      by (simp_all add: weighted_sum_append algebra_simps)
    then have "weighted_sum (xs @ a # b # ys) mod 255 = weighted_sum (xs @ b # a # ys) mod 255 \<longleftrightarrow> confusable a b"
      by (simp only: mod_add_left_cancel confusable_iff)
    then show ?thesis by (simp add: fletcher16_eq_iff sum_bytes_append add.left_commute)
  qed
  have "sum_bytes (replicate n 0) = 0" "weighted_sum (replicate n 0) = 0" by (induction n) simp_all
  then show "fletcher16 (replicate n 0) = 0xFFFF"
    by (simp add: word_unat_eq_iff unat_fletcher16 fletcher_ref_def residue_def)
qed

end
