(* ===== verification/Wire_Codec.thy ===== *)
theory Wire_Codec
  imports Order_Types Checksum
begin

text \<open>
  The binary wire protocol of \<^verbatim>\<open>include/lloms/wire.hpp\<close> and \<^verbatim>\<open>src/wire.cpp\<close>: big-endian field
  access, the message types, the body layouts and the encoder.  A
  pointer into a buffer is the buffer, as a byte list, and an offset.
\<close>

section \<open>Byte order\<close>

definition store_be16 :: "nat \<Rightarrow> u16 \<Rightarrow> u8 list \<Rightarrow> u8 list" where
  "store_be16 p v = patch p [ucast (drop_bit 8 v), ucast v]"

definition store_be32 :: "nat \<Rightarrow> u32 \<Rightarrow> u8 list \<Rightarrow> u8 list" where
  "store_be32 p v = patch p [ucast (drop_bit 24 v), ucast (drop_bit 16 v), ucast (drop_bit 8 v), ucast v]"

definition store_be64 :: "nat \<Rightarrow> u64 \<Rightarrow> u8 list \<Rightarrow> u8 list" where
  "store_be64 p v = patch p (map (\<lambda>i. ucast (drop_bit (56 - 8 * i) v)) [0..<8])"

definition load_be16 :: "nat \<Rightarrow> u8 list \<Rightarrow> u16" where
  "load_be16 p m = push_bit 8 (ucast (m ! p)) OR ucast (m ! (p + 1))"

definition load_be32 :: "nat \<Rightarrow> u8 list \<Rightarrow> u32" where
  "load_be32 p m = push_bit 24 (ucast (m ! p)) OR push_bit 16 (ucast (m ! (p + 1)))
     OR push_bit 8 (ucast (m ! (p + 2))) OR ucast (m ! (p + 3))"

definition load_be64 :: "nat \<Rightarrow> u8 list \<Rightarrow> u64" where
  "load_be64 p m = foldl (\<lambda>v i. push_bit 8 v OR ucast (m ! (p + i))) 0 [0..<8]"

text \<open>The \<^verbatim>\<open>memcpy\<close> between signed and unsigned: the two's-complement bit pattern.\<close>

definition store_be_i64 :: "nat \<Rightarrow> int \<Rightarrow> u8 list \<Rightarrow> u8 list" where
  "store_be_i64 p v = store_be64 p (word_of_int v)"

definition load_be_i64 :: "nat \<Rightarrow> u8 list \<Rightarrow> int" where
  "load_be_i64 p m = sint (load_be64 p m)"

definition store_u8 :: "nat \<Rightarrow> u8 \<Rightarrow> u8 list \<Rightarrow> u8 list" where
  "store_u8 p v = patch p [v]"

definition load_u8 :: "nat \<Rightarrow> u8 list \<Rightarrow> u8" where
  "load_u8 p m = m ! p"

section \<open>Field access as a contract\<close>

text \<open>
  A field of \<open>width\<close> bytes: a store overwrites its bytes and nothing else, a load reads its bytes
  and nothing else, and gives back what was stored.
\<close>

named_theorems wire_simps "loads after stores"

locale wire_field =
  fixes width :: nat
    and store :: "nat \<Rightarrow> 'v \<Rightarrow> u8 list \<Rightarrow> u8 list"
    and load :: "nat \<Rightarrow> u8 list \<Rightarrow> 'v"
    and ok :: "'v \<Rightarrow> bool"
    and bytes :: "'v \<Rightarrow> u8 list"
  assumes store_patch: "store p v m = patch p (bytes v) m"
    and width_bytes: "length (bytes v) = width"
    and load_slice: "p + width \<le> length m \<Longrightarrow> load p m = load 0 (slice p width m)"
    and load_bytes: "ok v \<Longrightarrow> load 0 (bytes v) = v"
begin

lemma length_store: "p + width \<le> length m \<Longrightarrow> length (store p v m) = length m"
  by (simp add: store_patch width_bytes)

lemma load_patch_same:
  assumes "p + width \<le> length m" "ok v"
  shows "load p (patch p (bytes v) m) = v"
proof -
  have "load p (patch p (bytes v) m) = load 0 (slice p width (patch p (bytes v) m))"
    using assms by (intro load_slice) (simp add: width_bytes)
  then show ?thesis using assms by (simp add: slice_patch_same width_bytes load_bytes)
qed

lemma load_patch_other:
  "p + length bs \<le> length m \<Longrightarrow> q + width \<le> length m \<Longrightarrow> q + width \<le> p \<or> p + length bs \<le> q \<Longrightarrow>
   load q (patch p bs m) = load q m"
  using load_slice [of q "patch p bs m"] load_slice [of q m] slice_patch_other [of p bs m q width] by simp

lemma load_patch_within:
  "p + length bs \<le> length m \<Longrightarrow> k + width \<le> length bs \<Longrightarrow> load (p + k) (patch p bs m) = load k bs"
  using load_slice [of "p + k" "patch p bs m"] load_slice [of k bs] slice_patch_within [of p bs m k width] by simp

lemma load_head: "ok v \<Longrightarrow> load 0 (bytes v @ bs) = v"
  using load_slice [of 0 "bytes v @ bs"] by (simp add: slice_def width_bytes load_bytes)

lemma load_skip: "length xs \<le> k \<Longrightarrow> k + width \<le> length xs + length ys \<Longrightarrow> load k (xs @ ys) = load (k - length xs) ys"
  using load_slice [of k "xs @ ys"] load_slice [of "k - length xs" ys] by (simp add: slice_def)

lemma load_drop: "k + p + width \<le> length m \<Longrightarrow> load p (drop k m) = load (k + p) m"
  using load_slice [of p "drop k m"] load_slice [of "k + p" m] by (simp add: slice_def add.commute)

lemma load_append: "p + width \<le> length m \<Longrightarrow> load p (m @ m') = load p m"
  using load_slice [of p "m @ m'"] load_slice [of p m] by (simp add: slice_def)

end

text \<open>Reading big-endian bytes, most significant first, is the inverse of writing them.\<close>

definition be_bytes :: "nat \<Rightarrow> 'w::len word \<Rightarrow> u8 list" where
  "be_bytes n v = map (\<lambda>i. ucast (drop_bit (8 * (n - 1 - i)) v)) [0..<n]"

definition be_value :: "u8 list \<Rightarrow> 'w::len word" where
  "be_value bs = foldl (\<lambda>v b. push_bit 8 v OR ucast b) 0 bs"

lemma length_be_bytes [simp]: "length (be_bytes n v) = n"
  by (simp add: be_bytes_def)

lemma be_bytes_Suc: "be_bytes (Suc n) v = be_bytes n (drop_bit 8 v) @ [ucast v]"
proof -
  have "8 * (n - i) = 8 * (n - 1 - i) + 8" if "i < n" for i using that by simp
  then show ?thesis by (simp add: be_bytes_def drop_bit_drop_bit)
qed

lemma be_value_bytes: "be_value (be_bytes n v) = take_bit (8 * n) (v :: 'w::len word)"
proof (induction n arbitrary: v)
  case (Suc n)
  have "push_bit 8 (take_bit (8 * n) (drop_bit 8 v)) OR ucast (ucast v :: u8) = take_bit (8 * Suc n) v"
    by (rule bit_word_eqI) (auto simp: bit_simps)
  then show ?case using Suc [of "drop_bit 8 v"] by (simp add: be_bytes_Suc be_value_def)
qed (simp add: be_bytes_def be_value_def)

lemma store_be16_bytes: "store_be16 p v = patch p (be_bytes 2 v)"
  by (simp add: store_be16_def be_bytes_def upt_rec)

lemma store_be32_bytes: "store_be32 p v = patch p (be_bytes 4 v)"
  by (simp add: store_be32_def be_bytes_def upt_rec)

lemma store_be64_bytes: "store_be64 p v = patch p (be_bytes 8 v)"
  by (simp add: store_be64_def be_bytes_def upt_rec)

lemma load_be16_value: "p + 2 \<le> length m \<Longrightarrow> load_be16 p m = be_value (slice p 2 m)"
proof -
  assume "p + 2 \<le> length m"
  then have "slice p 2 m = [m ! p, m ! (p + 1)]"
    by (intro nth_equalityI) (auto simp: less_Suc_eq numeral_2_eq_2)
  then show ?thesis by (simp add: load_be16_def be_value_def)
qed

lemma load_be32_value: "p + 4 \<le> length m \<Longrightarrow> load_be32 p m = be_value (slice p 4 m)"
proof -
  assume "p + 4 \<le> length m"
  then have "slice p 4 m = [m ! p, m ! (p + 1), m ! (p + 2), m ! (p + 3)]"
    by (intro nth_equalityI) (auto simp: less_Suc_eq eval_nat_numeral)
  then show ?thesis
    by (simp add: load_be32_def be_value_def push_bit_or push_bit_push_bit or.assoc)
qed

lemma load_be64_value: "p + 8 \<le> length m \<Longrightarrow> load_be64 p m = be_value (slice p 8 m)"
proof -
  assume "p + 8 \<le> length m"
  then have "slice p 8 m = map (\<lambda>i. m ! (p + i)) [0..<8]" by (intro nth_equalityI) auto
  then show ?thesis by (simp add: load_be64_def be_value_def foldl_map)
qed

interpretation be16: wire_field 2 store_be16 load_be16 "\<lambda>_. True" "be_bytes 2"
proof (unfold_locales, goal_cases)
  case (3 p m) then show ?case by (simp add: load_be16_value slice_def)
next
  case (4 v) then show ?case by (simp add: load_be16_value slice_def be_value_bytes take_bit_word_eq_self)
qed (simp_all add: store_be16_bytes)

interpretation be32: wire_field 4 store_be32 load_be32 "\<lambda>_. True" "be_bytes 4"
proof (unfold_locales, goal_cases)
  case (3 p m) then show ?case by (simp add: load_be32_value slice_def)
next
  case (4 v) then show ?case by (simp add: load_be32_value slice_def be_value_bytes take_bit_word_eq_self)
qed (simp_all add: store_be32_bytes)

interpretation be64: wire_field 8 store_be64 load_be64 "\<lambda>_. True" "be_bytes 8"
proof (unfold_locales, goal_cases)
  case (3 p m) then show ?case by (simp add: load_be64_value slice_def)
next
  case (4 v) then show ?case by (simp add: load_be64_value slice_def be_value_bytes take_bit_word_eq_self)
qed (simp_all add: store_be64_bytes)

interpretation be_i64: wire_field 8 store_be_i64 load_be_i64 i64_ok "\<lambda>v. be_bytes 8 (word_of_int v :: u64)"
proof (unfold_locales, goal_cases)
  case (3 p m) then show ?case by (simp add: load_be_i64_def load_be64_value slice_def)
next
  case (4 v)
  then have "sint (word_of_int v :: u64) = v"
    by (simp add: i64_ok_def signed_of_int signed_take_bit_int_eq_self)
  then show ?case by (simp add: load_be_i64_def be64.load_bytes)
qed (simp_all add: store_be_i64_def store_be64_bytes)

definition u8_bytes :: "u8 \<Rightarrow> u8 list" where
  "u8_bytes v = [v]"

lemma length_u8_bytes [simp]: "length (u8_bytes v) = 1"
  by (simp add: u8_bytes_def)

interpretation byte: wire_field 1 store_u8 load_u8 "\<lambda>_. True" u8_bytes
  by unfold_locales (simp_all add: store_u8_def load_u8_def u8_bytes_def)

lemmas [wire_simps] =
  be16.store_patch be32.store_patch be64.store_patch be_i64.store_patch byte.store_patch
  be16.load_patch_same be32.load_patch_same be64.load_patch_same be_i64.load_patch_same byte.load_patch_same
  be16.load_patch_other be32.load_patch_other be64.load_patch_other be_i64.load_patch_other byte.load_patch_other

text \<open>Bodies are written field after field: the stores make one patch, and loads find their field in it.\<close>

lemmas store_simps =
  be32.store_patch be64.store_patch be_i64.store_patch byte.store_patch patch_adjacent

lemmas load_simps =
  be32.load_head be64.load_head be_i64.load_head byte.load_head
  be32.load_skip be64.load_skip be_i64.load_skip byte.load_skip

section \<open>Messages\<close>

text \<open>
  \<^verbatim>\<open>static_cast<MsgType>\<close> of a byte that names no enumerator is a legal value of the enumeration;
  it is \<open>OtherType\<close>, and likewise for \<^verbatim>\<open>AckStatus\<close>.
\<close>

datatype MsgType = Heartbeat | Trade | Quote | NewOrder | OrderAck | OtherType u8

fun type_code :: "MsgType \<Rightarrow> u8" where
  "type_code Heartbeat = 0"
| "type_code Trade = 1"
| "type_code Quote = 2"
| "type_code NewOrder = 3"
| "type_code OrderAck = 4"
| "type_code (OtherType c) = c"

definition msg_type :: "u8 \<Rightarrow> MsgType" where
  "msg_type c = (if c = 0 then Heartbeat else if c = 1 then Trade else if c = 2 then Quote
     else if c = 3 then NewOrder else if c = 4 then OrderAck else OtherType c)"

datatype AckStatus = Accepted | Rejected | Filled | Cancelled | OtherStatus u8

fun status_code :: "AckStatus \<Rightarrow> u8" where
  "status_code Accepted = 0"
| "status_code Rejected = 1"
| "status_code Filled = 2"
| "status_code Cancelled = 3"
| "status_code (OtherStatus c) = c"

definition ack_status :: "u8 \<Rightarrow> AckStatus" where
  "ack_status c = (if c = 0 then Accepted else if c = 1 then Rejected else if c = 2 then Filled
     else if c = 3 then Cancelled else OtherStatus c)"

record trade =
  tr_symbol :: Symbol
  tr_price :: Price
  tr_qty :: Qty
  tr_ts_ns :: int

record quote =
  qu_symbol :: Symbol
  bid_px :: Price
  bid_qty :: Qty
  ask_px :: Price
  ask_qty :: Qty
  qu_ts_ns :: int

record new_order =
  no_client_order_id :: u64
  no_symbol :: Symbol
  no_side :: Side
  no_type :: Type
  tif :: u8
  no_price :: Price
  no_qty :: Qty

record order_ack =
  ack_client_order_id :: u64
  exchange_order_id :: u64
  ack_state :: AckStatus
  reject_reason :: u8
  filled_qty :: Qty
  avg_px :: Price

text \<open>The union, by the member that is active.\<close>

datatype Body = TradeBody trade | QuoteBody quote | NewOrderBody new_order | AckBody order_ack

record Message =
  mtype :: MsgType
  mseq :: u64
  gap_before :: u64
  body :: Body

definition empty_body :: Body where
  "empty_body = TradeBody \<lparr>tr_symbol = 0, tr_price = 0, tr_qty = 0, tr_ts_ns = 0\<rparr>"

definition kTradeBody :: nat where "kTradeBody = 28"

definition kQuoteBody :: nat where "kQuoteBody = 44"

definition kNewOrderBody :: nat where "kNewOrderBody = 31"

definition kOrderAckBody :: nat where "kOrderAckBody = 34"

definition kHeaderSize :: nat where "kHeaderSize = 20"

definition kMagic :: u16 where "kMagic = 0x4B58"

definition kVersion :: u8 where "kVersion = 1"

definition body_size_for :: "MsgType \<Rightarrow> nat option" where
  "body_size_for t = (case t of Heartbeat \<Rightarrow> Some 0 | Trade \<Rightarrow> Some kTradeBody | Quote \<Rightarrow> Some kQuoteBody
     | NewOrder \<Rightarrow> Some kNewOrderBody | OrderAck \<Rightarrow> Some kOrderAckBody | OtherType _ \<Rightarrow> None)"

lemmas body_sizes = kTradeBody_def kQuoteBody_def kNewOrderBody_def kOrderAckBody_def

definition side_code :: "Side \<Rightarrow> u8" where
  "side_code s = (case s of Buy \<Rightarrow> 0 | Sell \<Rightarrow> 1)"

definition ordtype_code :: "Type \<Rightarrow> u8" where
  "ordtype_code t = (case t of Limit \<Rightarrow> 0 | Market \<Rightarrow> 1)"

section \<open>Body codecs\<close>

text \<open>
  Writes the body of \<open>m\<close> at offset \<open>b\<close>.  \<open>None\<close>: the type names a member of the union that is
  not the active one.
\<close>

definition encode_body :: "Message \<Rightarrow> nat \<Rightarrow> u8 list \<Rightarrow> u8 list option" where
  "encode_body m b mem =
     (case (mtype m, body m) of
        (Heartbeat, _) \<Rightarrow> Some mem
      | (Trade, TradeBody t) \<Rightarrow>
          Some (store_be_i64 (b + 20) (tr_ts_ns t) (store_be_i64 (b + 12) (tr_qty t)
            (store_be_i64 (b + 4) (tr_price t) (store_be32 (b + 0) (tr_symbol t) mem))))
      | (Quote, QuoteBody q) \<Rightarrow>
          Some (store_be_i64 (b + 36) (qu_ts_ns q) (store_be_i64 (b + 28) (ask_qty q)
            (store_be_i64 (b + 20) (ask_px q) (store_be_i64 (b + 12) (bid_qty q)
            (store_be_i64 (b + 4) (bid_px q) (store_be32 (b + 0) (qu_symbol q) mem))))))
      | (NewOrder, NewOrderBody n) \<Rightarrow>
          Some (store_be_i64 (b + 23) (no_qty n) (store_be_i64 (b + 15) (no_price n)
            (store_u8 (b + 14) (tif n) (store_u8 (b + 13) (ordtype_code (no_type n))
            (store_u8 (b + 12) (side_code (no_side n))
            (store_be32 (b + 8) (no_symbol n) (store_be64 (b + 0) (no_client_order_id n) mem)))))))
      | (OrderAck, AckBody a) \<Rightarrow>
          Some (store_be_i64 (b + 26) (avg_px a) (store_be_i64 (b + 18) (filled_qty a)
            (store_u8 (b + 17) (reject_reason a) (store_u8 (b + 16) (status_code (ack_state a))
            (store_be64 (b + 8) (exchange_order_id a) (store_be64 (b + 0) (ack_client_order_id a) mem))))))
      | (OtherType _, _) \<Rightarrow> Some mem
      | _ \<Rightarrow> None)"

definition decode_body :: "MsgType \<Rightarrow> nat \<Rightarrow> u8 list \<Rightarrow> Message \<Rightarrow> Message" where
  "decode_body t b mem m =
     (case t of
        Heartbeat \<Rightarrow> m
      | Trade \<Rightarrow> m\<lparr>body := TradeBody \<lparr>tr_symbol = load_be32 (b + 0) mem, tr_price = load_be_i64 (b + 4) mem,
          tr_qty = load_be_i64 (b + 12) mem, tr_ts_ns = load_be_i64 (b + 20) mem\<rparr>\<rparr>
      | Quote \<Rightarrow> m\<lparr>body := QuoteBody \<lparr>qu_symbol = load_be32 (b + 0) mem, bid_px = load_be_i64 (b + 4) mem,
          bid_qty = load_be_i64 (b + 12) mem, ask_px = load_be_i64 (b + 20) mem,
          ask_qty = load_be_i64 (b + 28) mem, qu_ts_ns = load_be_i64 (b + 36) mem\<rparr>\<rparr>
      | NewOrder \<Rightarrow> m\<lparr>body := NewOrderBody \<lparr>no_client_order_id = load_be64 (b + 0) mem,
          no_symbol = load_be32 (b + 8) mem,
          no_side = (if load_u8 (b + 12) mem = 0 then Buy else Sell),
          no_type = (if load_u8 (b + 13) mem = 0 then Limit else Market),
          tif = load_u8 (b + 14) mem, no_price = load_be_i64 (b + 15) mem, no_qty = load_be_i64 (b + 23) mem\<rparr>\<rparr>
      | OrderAck \<Rightarrow> m\<lparr>body := AckBody \<lparr>ack_client_order_id = load_be64 (b + 0) mem,
          exchange_order_id = load_be64 (b + 8) mem, ack_state = ack_status (load_u8 (b + 16) mem),
          reject_reason = load_u8 (b + 17) mem, filled_qty = load_be_i64 (b + 18) mem,
          avg_px = load_be_i64 (b + 26) mem\<rparr>\<rparr>
      | OtherType _ \<Rightarrow> m)"

section \<open>The encoder\<close>

text \<open>\<open>out\<close> is the caller's buffer, its length the capacity.\<close>

definition encode :: "Message \<Rightarrow> u8 list \<Rightarrow> (nat \<times> u8 list) option" where
  "encode msg out =
     (case body_size_for (mtype msg) of
        None \<Rightarrow> Some (0, out)
      | Some body_len \<Rightarrow>
          if length out < kHeaderSize + body_len then Some (0, out)
          else do {
            m1 \<leftarrow> encode_body msg kHeaderSize out;
            let m2 = store_be16 0 kMagic m1;
            let m3 = store_u8 2 kVersion m2;
            let m4 = store_u8 3 (type_code (mtype msg)) m3;
            let m5 = store_be32 4 (of_nat body_len) m4;
            let m6 = store_be64 8 (mseq msg) m5;
            let m7 = store_be16 16 (fletcher16 (slice kHeaderSize body_len m6)) m6;
            let m8 = store_be16 18 0 m7;
            Some (kHeaderSize + body_len, m8) })"

section \<open>Round trip of a frame\<close>

text \<open>A message whose union holds the member of its type, with every signed field in its range.\<close>

definition message_ok :: "Message \<Rightarrow> bool" where
  "message_ok m \<longleftrightarrow>
     (case (mtype m, body m) of
        (Heartbeat, b) \<Rightarrow> b = empty_body
      | (Trade, TradeBody t) \<Rightarrow> i64_ok (tr_price t) \<and> i64_ok (tr_qty t) \<and> i64_ok (tr_ts_ns t)
      | (Quote, QuoteBody q) \<Rightarrow> i64_ok (bid_px q) \<and> i64_ok (bid_qty q) \<and> i64_ok (ask_px q)
          \<and> i64_ok (ask_qty q) \<and> i64_ok (qu_ts_ns q)
      | (NewOrder, NewOrderBody n) \<Rightarrow> i64_ok (no_price n) \<and> i64_ok (no_qty n)
      | (OrderAck, AckBody a) \<Rightarrow> i64_ok (filled_qty a) \<and> i64_ok (avg_px a)
          \<and> ack_status (status_code (ack_state a)) = ack_state a
      | _ \<Rightarrow> False)"

lemma side_code_0 [simp]: "(if side_code s = 0 then Buy else Sell) = s"
  by (cases s) (simp_all add: side_code_def)

lemma ordtype_code_0 [simp]: "(if ordtype_code t = 0 then Limit else Market) = t"
  by (cases t) (simp_all add: ordtype_code_def)

lemma msg_type_code: "message_ok m \<Longrightarrow> msg_type (type_code (mtype m)) = mtype m"
  by (auto simp: message_ok_def msg_type_def split: MsgType.splits)

lemma known_type_size: "body_size_for (mtype m) = Some n \<Longrightarrow> n \<le> 44"
  by (auto simp: body_size_for_def body_sizes split: MsgType.splits)

text \<open>The bytes of a body, in the order of its fields.\<close>

abbreviation i64_bytes :: "int \<Rightarrow> u8 list" where
  "i64_bytes v \<equiv> be_bytes 8 (word_of_int v :: u64)"

definition body_bytes :: "Body \<Rightarrow> u8 list" where
  "body_bytes bd = (case bd of
     TradeBody t \<Rightarrow> be_bytes 4 (tr_symbol t) @ i64_bytes (tr_price t) @ i64_bytes (tr_qty t) @ i64_bytes (tr_ts_ns t)
   | QuoteBody q \<Rightarrow> be_bytes 4 (qu_symbol q) @ i64_bytes (bid_px q) @ i64_bytes (bid_qty q) @ i64_bytes (ask_px q)
       @ i64_bytes (ask_qty q) @ i64_bytes (qu_ts_ns q)
   | NewOrderBody n \<Rightarrow> be_bytes 8 (no_client_order_id n) @ be_bytes 4 (no_symbol n) @ u8_bytes (side_code (no_side n))
       @ u8_bytes (ordtype_code (no_type n)) @ u8_bytes (tif n) @ i64_bytes (no_price n) @ i64_bytes (no_qty n)
   | AckBody a \<Rightarrow> be_bytes 8 (ack_client_order_id a) @ be_bytes 8 (exchange_order_id a)
       @ u8_bytes (status_code (ack_state a)) @ u8_bytes (reject_reason a) @ i64_bytes (filled_qty a)
       @ i64_bytes (avg_px a))"

definition frame_body :: "Message \<Rightarrow> u8 list" where
  "frame_body m = (if mtype m = Heartbeat then [] else body_bytes (body m))"

lemma message_cases:
  assumes "message_ok m"
  obtains "mtype m = Heartbeat" "body m = empty_body"
  | t where "mtype m = Trade" "body m = TradeBody t"
  | q where "mtype m = Quote" "body m = QuoteBody q"
  | n where "mtype m = NewOrder" "body m = NewOrderBody n"
  | a where "mtype m = OrderAck" "body m = AckBody a"
  using assms by (auto simp: message_ok_def split: MsgType.splits Body.splits)

lemma length_frame_body:
  "message_ok m \<Longrightarrow> body_size_for (mtype m) = Some (length (frame_body m))"
  by (erule message_cases) (simp_all add: frame_body_def body_bytes_def body_size_for_def body_sizes)

lemma encode_body_bytes:
  assumes "message_ok m" "b + length (frame_body m) \<le> length mem"
  shows "encode_body m b mem = Some (patch b (frame_body m) mem)"
  using assms(1)
proof (cases rule: message_cases)
  case 1
  then show ?thesis by (simp add: encode_body_def frame_body_def patch_def)
qed (use assms(2) in \<open>simp_all add: encode_body_def frame_body_def body_bytes_def store_simps\<close>)

lemma decode_body_bytes:
  assumes "message_ok m" "body m0 = empty_body"
  shows "decode_body (mtype m) 0 (frame_body m @ ys) m0 = m0\<lparr>body := body m\<rparr>"
  using assms(1)
proof (cases rule: message_cases)
  case 1
  then show ?thesis using assms(2) by (simp add: decode_body_def)
qed (use assms(1) in \<open>simp_all add: decode_body_def frame_body_def body_bytes_def message_ok_def load_simps\<close>)

text \<open>The decoder of a body looks at the bytes of that body only.\<close>

lemma decode_body_drop:
  assumes "body_size_for t = Some n" "k + b + n \<le> length mem"
  shows "decode_body t b (drop k mem) m = decode_body t (k + b) mem m"
  using assms
  by (cases t) (simp_all add: decode_body_def body_size_for_def body_sizes be32.load_drop be64.load_drop
      be_i64.load_drop byte.load_drop add.assoc split del: if_split)

lemma decode_body_append:
  assumes "body_size_for t = Some n" "b + n \<le> length mem"
  shows "decode_body t b (mem @ mem') m = decode_body t b mem m"
  using assms
  by (cases t) (simp_all add: decode_body_def body_size_for_def body_sizes be32.load_append be64.load_append
      be_i64.load_append byte.load_append split del: if_split)

lemma encode_body_spec:
  assumes "message_ok m" "body_size_for (mtype m) = Some n" "b + n \<le> length mem"
  shows "\<exists>mem'. encode_body m b mem = Some mem' \<and> length mem' = length mem
    \<and> drop (b + n) mem' = drop (b + n) mem
    \<and> (\<forall>m0. body m0 = empty_body \<longrightarrow> decode_body (mtype m) b mem' m0 = m0\<lparr>body := body m\<rparr>)"
proof -
  have n: "n = length (frame_body m)" using length_frame_body [OF assms(1)] assms(2) by simp
  let ?mem' = "patch b (frame_body m) mem"
  have "drop b ?mem' = frame_body m @ drop (b + n) mem" using assms(3) n by (simp add: patch_def)
  then have "decode_body (mtype m) b ?mem' m0 = m0\<lparr>body := body m\<rparr>" if "body m0 = empty_body" for m0
    using decode_body_drop [OF assms(2), of b 0 ?mem' m0] decode_body_bytes [OF assms(1) that] assms(3) n by simp
  then show ?thesis using encode_body_bytes [OF assms(1), of b mem] assms(3) n by simp
qed

lemma encode_spec:
  assumes "message_ok m" "body_size_for (mtype m) = Some n" "kHeaderSize + n \<le> length out"
  shows "\<exists>fr. encode m out = Some (kHeaderSize + n, fr @ drop (kHeaderSize + n) out)
    \<and> length fr = kHeaderSize + n \<and> load_be16 0 fr = kMagic \<and> load_u8 2 fr = kVersion
    \<and> load_u8 3 fr = type_code (mtype m) \<and> load_be32 4 fr = of_nat n \<and> load_be64 8 fr = mseq m
    \<and> load_be16 16 fr = fletcher16 (slice kHeaderSize n fr)
    \<and> (\<forall>m0. body m0 = empty_body \<longrightarrow> decode_body (mtype m) kHeaderSize fr m0 = m0\<lparr>body := body m\<rparr>)"
proof -
  obtain m1 where m1: "encode_body m kHeaderSize out = Some m1" "length m1 = length out"
    "drop (kHeaderSize + n) m1 = drop (kHeaderSize + n) out"
    and dec: "\<forall>m0. body m0 = empty_body \<longrightarrow> decode_body (mtype m) kHeaderSize m1 m0 = m0\<lparr>body := body m\<rparr>"
    using encode_body_spec [OF assms] by blast
  define hs where "hs = store_be64 8 (mseq m) (store_be32 4 (of_nat n) (store_u8 3 (type_code (mtype m))
      (store_u8 2 kVersion (store_be16 0 kMagic m1))))"
  define out' where "out' = store_be16 18 0 (store_be16 16 (fletcher16 (slice kHeaderSize n hs)) hs)"
  have len: "20 + n \<le> length m1" using assms(3) m1(2) by (simp add: kHeaderSize_def)
  then have l': "length hs = length out" "length out' = length out"
    using m1(2) by (simp_all add: hs_def out'_def wire_simps)
  have rest: "drop 20 out' = drop 20 m1" "drop 20 hs = drop 20 m1"
    using len by (simp_all add: hs_def out'_def wire_simps)
  define fr where "fr = take (kHeaderSize + n) out'"
  have fr: "length fr = kHeaderSize + n" using l' assms(3) by (simp add: fr_def)
  have "drop (kHeaderSize + n) out' = drop (kHeaderSize + n) out"
  proof -
    have "drop (kHeaderSize + n) out' = drop n (drop 20 out')" by (simp add: kHeaderSize_def add.commute)
    then show ?thesis using rest m1(3) by (simp add: kHeaderSize_def add.commute)
  qed
  then have out': "out' = fr @ drop (kHeaderSize + n) out" by (metis fr_def append_take_drop_id)
  have enc: "encode m out = Some (kHeaderSize + n, out')"
    using assms(2,3) m1(1) by (simp add: encode_def Let_def out'_def hs_def)
  have heads: "load_be16 0 out' = kMagic" "load_u8 2 out' = kVersion" "load_u8 3 out' = type_code (mtype m)"
    "load_be32 4 out' = of_nat n" "load_be64 8 out' = mseq m" "load_be16 16 out' = fletcher16 (slice kHeaderSize n hs)"
    using len by (simp_all add: out'_def hs_def wire_simps)
  have sl: "slice kHeaderSize n fr = slice kHeaderSize n hs"
    using rest by (simp add: fr_def slice_def kHeaderSize_def take_drop [symmetric] drop_take)
  have "decode_body (mtype m) kHeaderSize fr m0 = decode_body (mtype m) kHeaderSize m1 m0" for m0
  proof -
    have "decode_body (mtype m) kHeaderSize fr m0 = decode_body (mtype m) kHeaderSize out' m0"
      using decode_body_append [OF assms(2), of kHeaderSize fr] fr by (simp add: out')
    also have "\<dots> = decode_body (mtype m) 0 (drop 20 out') m0"
      using decode_body_drop [OF assms(2), of 20 0 out'] l' assms(3) by (simp add: kHeaderSize_def)
    also have "\<dots> = decode_body (mtype m) kHeaderSize m1 m0"
      using decode_body_drop [OF assms(2), of 20 0 m1] len rest by (simp add: kHeaderSize_def)
    finally show ?thesis .
  qed
  then show ?thesis
    using enc out' fr heads dec sl
    by (intro exI [of _ fr])
      (simp add: be16.load_append be32.load_append be64.load_append byte.load_append kHeaderSize_def)
qed

end
