(* ===== verification/Frame_Decoder.thy ===== *)
theory Frame_Decoder
  imports Wire_Codec
begin

text \<open>
  The incremental decoder \<^verbatim>\<open>FrameDecoder\<close> of \<^verbatim>\<open>include/lloms/wire.hpp\<close> and \<^verbatim>\<open>src/wire.cpp\<close>: a
  rolling buffer with a read position, resynchronisation after damage, and sequence accounting.
  Sizes and positions of the buffer are natural numbers; the counters are 64-bit words.
\<close>

section \<open>The decoder\<close>

record Stats =
  frames_decoded :: u64
  bytes_consumed :: u64
  resyncs :: u64
  bytes_discarded :: u64
  bad_magic :: u64
  bad_version :: u64
  bad_length :: u64
  bad_checksum :: u64
  unknown_type :: u64
  seq_gaps :: u64
  seq_missing :: u64
  seq_regressions :: u64

record FrameDecoder =
  buf :: "u8 list"
  rpos :: nat
  max_body :: nat
  next_seq :: u64
  pending_gap :: u64
  have_seq :: bool
  dstats :: Stats

definition no_stats :: Stats where
  "no_stats = \<lparr>frames_decoded = 0, bytes_consumed = 0, resyncs = 0, bytes_discarded = 0, bad_magic = 0,
     bad_version = 0, bad_length = 0, bad_checksum = 0, unknown_type = 0, seq_gaps = 0, seq_missing = 0,
     seq_regressions = 0\<rparr>"

definition new_decoder :: "nat \<Rightarrow> FrameDecoder" where
  "new_decoder mb = \<lparr>buf = [], rpos = 0, max_body = mb, next_seq = 0, pending_gap = 0, have_seq = False,
     dstats = no_stats\<rparr>"

definition reset :: "FrameDecoder \<Rightarrow> FrameDecoder" where
  "reset d = d\<lparr>buf := [], rpos := 0, next_seq := 0, pending_gap := 0, have_seq := False, dstats := no_stats\<rparr>"

abbreviation bump :: "((u64 \<Rightarrow> u64) \<Rightarrow> Stats \<Rightarrow> Stats) \<Rightarrow> FrameDecoder \<Rightarrow> FrameDecoder" where
  "bump upd d \<equiv> d\<lparr>dstats := upd (\<lambda>n. n + 1) (dstats d)\<rparr>"

abbreviation add_to :: "((u64 \<Rightarrow> u64) \<Rightarrow> Stats \<Rightarrow> Stats) \<Rightarrow> u64 \<Rightarrow> FrameDecoder \<Rightarrow> FrameDecoder" where
  "add_to upd k d \<equiv> d\<lparr>dstats := upd (\<lambda>n. n + k) (dstats d)\<rparr>"

definition buffered :: "FrameDecoder \<Rightarrow> nat" where
  "buffered d = length (buf d) - rpos d"

definition expected_seq :: "FrameDecoder \<Rightarrow> u64" where
  "expected_seq d = (if have_seq d then next_seq d else 0)"

definition compact :: "FrameDecoder \<Rightarrow> FrameDecoder" where
  "compact d =
     (if rpos d = 0 then d
      else if rpos d = length (buf d) then d\<lparr>buf := [], rpos := 0\<rparr>
      else if rpos d < 4096 \<and> rpos d * 2 < length (buf d) then d
      else d\<lparr>buf := drop (rpos d) (buf d), rpos := 0\<rparr>)"

definition feed :: "u8 list \<Rightarrow> FrameDecoder \<Rightarrow> FrameDecoder" where
  "feed data d = (if data = [] then d else let d1 = compact d in d1\<lparr>buf := buf d1 @ data\<rparr>)"

text \<open>The scan for the next magic from position \<open>p\<close> on.\<close>

function scan :: "u8 list \<Rightarrow> nat \<Rightarrow> nat" where
  "scan m p = (if p + 2 \<le> length m \<and> load_be16 p m \<noteq> kMagic then scan m (p + 1) else p)"
  by auto
termination
  by (relation "measure (\<lambda>(m, p). length m - p)") auto

declare scan.simps [simp del]

definition resync :: "FrameDecoder \<Rightarrow> bool \<times> FrameDecoder" where
  "resync d0 =
     (let d = bump resyncs_update d0;
          end_pos = length (buf d);
          p0 = scan (buf d) (rpos d + 1);
          found = (p0 + 2 \<le> end_pos);
          p = (if found then p0 else end_pos - 1);
          d1 = add_to bytes_discarded_update (of_nat (p - rpos d)) d
      in (found, compact (d1\<lparr>rpos := p\<rparr>)))"

text \<open>The sequence accounting of one well-formed frame.\<close>

definition account_seq :: "u64 \<Rightarrow> FrameDecoder \<Rightarrow> FrameDecoder" where
  "account_seq sq d =
     (if \<not> have_seq d then d\<lparr>have_seq := True, next_seq := sq + 1\<rparr>
      else if sq > next_seq d then
        let missing = sq - next_seq d in
        add_to seq_missing_update missing
          (bump seq_gaps_update (d\<lparr>pending_gap := pending_gap d + missing, next_seq := sq + 1\<rparr>))
      else if sq < next_seq d then bump seq_regressions_update d
      else d\<lparr>next_seq := sq + 1\<rparr>)"

text \<open>One turn of the loop of \<^verbatim>\<open>next\<close>: it returns false, goes round again, or returns a message.\<close>

datatype turn = NeedMore FrameDecoder | Again FrameDecoder | Deliver Message FrameDecoder

definition after_resync :: "FrameDecoder \<Rightarrow> turn" where
  "after_resync d = (case resync d of (found, d') \<Rightarrow> if found then Again d' else NeedMore d')"

definition next_turn :: "FrameDecoder \<Rightarrow> turn" where
  "next_turn d =
     (if length (buf d) - rpos d < kHeaderSize then NeedMore d
      else
        let p = rpos d in
        if load_be16 p (buf d) \<noteq> kMagic then after_resync (bump bad_magic_update d)
        else
          let version = load_u8 (p + 2) (buf d);
              type = msg_type (load_u8 (p + 3) (buf d));
              body_len = unat (load_be32 (p + 4) (buf d));
              sq = load_be64 (p + 8) (buf d);
              want_csum = load_be16 (p + 16) (buf d)
          in
          if version \<noteq> kVersion then after_resync (bump bad_version_update d)
          else if body_len > max_body d then after_resync (bump bad_length_update d)
          else
            let known = body_size_for type in
            if known \<noteq> None \<and> known \<noteq> Some body_len then after_resync (bump bad_length_update d)
            else
              let frame_len = kHeaderSize + body_len in
              if length (buf d) - rpos d < frame_len then NeedMore d
              else if fletcher16 (slice (p + kHeaderSize) body_len (buf d)) \<noteq> want_csum then
                after_resync (bump bad_checksum_update d)
              else
                let m0 = \<lparr>mtype = type, mseq = sq, gap_before = 0, body = empty_body\<rparr>;
                    m = (if known \<noteq> None then decode_body type (p + kHeaderSize) (buf d) m0 else m0);
                    d1 = bump frames_decoded_update
                           (add_to bytes_consumed_update (of_nat frame_len) (d\<lparr>rpos := rpos d + frame_len\<rparr>));
                    d2 = compact (account_seq sq d1)
                in if known = None then Again (bump unknown_type_update d2)
                   else Deliver (m\<lparr>gap_before := pending_gap d2\<rparr>) (d2\<lparr>pending_gap := 0\<rparr>))"

section \<open>The bytes that are left\<close>

text \<open>What a decoder still has to look at; the dead prefix of the buffer does not matter.\<close>

definition rest :: "FrameDecoder \<Rightarrow> u8 list" where
  "rest d = drop (rpos d) (buf d)"

definition decoder_ok :: "FrameDecoder \<Rightarrow> bool" where
  "decoder_ok d \<longleftrightarrow> rpos d \<le> length (buf d)"

lemma length_rest: "length (rest d) = buffered d"
  by (simp add: rest_def buffered_def)

lemma compact_simps [simp]:
  "rest (compact d) = rest d" "max_body (compact d) = max_body d" "next_seq (compact d) = next_seq d"
  "pending_gap (compact d) = pending_gap d" "have_seq (compact d) = have_seq d" "dstats (compact d) = dstats d"
  by (auto simp: compact_def rest_def)

lemma compact_ok [simp]: "decoder_ok d \<Longrightarrow> decoder_ok (compact d)"
  by (auto simp: compact_def decoder_ok_def)

lemma buffered_compact [simp]: "buffered (compact d) = buffered d"
  by (simp flip: length_rest)

lemma rest_feed: "decoder_ok d \<Longrightarrow> rest (feed data d) = rest d @ data"
  and feed_ok: "decoder_ok d \<Longrightarrow> decoder_ok (feed data d)"
proof -
  assume "decoder_ok d"
  then have ok: "decoder_ok (compact d)" by simp
  show "rest (feed data d) = rest d @ data"
    using ok compact_simps(1) [of d] by (simp add: feed_def Let_def rest_def decoder_ok_def)
  show "decoder_ok (feed data d)"
    using ok \<open>decoder_ok d\<close> by (simp add: feed_def Let_def decoder_ok_def)
qed

lemma scan_spec:
  "p \<le> scan m p" "scan m p + 2 \<le> length m \<Longrightarrow> load_be16 (scan m p) m = kMagic"
  "\<forall>i. p \<le> i \<longrightarrow> i < scan m p \<longrightarrow> i + 2 \<le> length m \<and> load_be16 i m \<noteq> kMagic"
proof (induction m p rule: scan.induct)
  case (1 m p)
  { case 1 then show ?case using "1.IH"(1) by (subst scan.simps) auto }
  { case 2 then show ?case using "1.IH"(2) by (subst (asm) scan.simps, subst scan.simps) (auto split: if_splits) }
  { case 3
    show ?case
    proof (cases "p + 2 \<le> length m \<and> load_be16 p m \<noteq> kMagic")
      case True
      then have "scan m p = scan m (p + 1)" by (subst scan.simps) simp
      moreover have "i + 2 \<le> length m \<and> load_be16 i m \<noteq> kMagic" if "p \<le> i" "i < scan m (p + 1)" for i
        using "1.IH"(3) [OF True] True that by (cases "i = p") auto
      ultimately show ?thesis by simp
    next
      case False
      then show ?thesis by (subst scan.simps) auto
    qed }
qed

section \<open>What the bytes at hand say\<close>

text \<open>
  The verdict on the bytes that are left: too few to tell, no frame starts here, or a frame of
  \<open>n\<close> bytes with its sequence and, for a known type, its message.
\<close>

datatype verdict = More | Bad | Good nat u64 "Message option"

definition classify :: "nat \<Rightarrow> u8 list \<Rightarrow> verdict" where
  "classify mb bs =
     (let type = msg_type (load_u8 3 bs);
          body_len = unat (load_be32 4 bs);
          sq = load_be64 8 bs;
          known = body_size_for type;
          m0 = \<lparr>mtype = type, mseq = sq, gap_before = 0, body = empty_body\<rparr>
      in
      if length bs < kHeaderSize then More
      else if load_be16 0 bs \<noteq> kMagic \<or> load_u8 2 bs \<noteq> kVersion \<or> body_len > mb
        \<or> known \<noteq> None \<and> known \<noteq> Some body_len then Bad
      else if length bs < kHeaderSize + body_len then More
      else if fletcher16 (slice kHeaderSize body_len bs) \<noteq> load_be16 16 bs then Bad
      else Good (kHeaderSize + body_len) sq
        (if known = None then None else Some (decode_body type kHeaderSize bs m0)))"

lemma classify_length: "classify mb bs \<noteq> More \<Longrightarrow> kHeaderSize \<le> length bs"
  by (auto simp: classify_def Let_def split: if_splits)

lemma classify_Good_length: "classify mb bs = Good n sq mo \<Longrightarrow> kHeaderSize \<le> n \<and> n \<le> length bs"
  by (auto simp: classify_def Let_def split: if_splits)

lemma classify_no_magic: "kHeaderSize \<le> length bs \<Longrightarrow> load_be16 0 bs \<noteq> kMagic \<Longrightarrow> classify mb bs = Bad"
  by (simp add: classify_def)

text \<open>Bytes that arrive later do not change a verdict.\<close>

lemma classify_append:
  assumes "classify mb bs \<noteq> More"
  shows "classify mb (bs @ xs) = classify mb bs"
proof -
  have len: "20 \<le> length bs" using classify_length [OF assms] by (simp add: kHeaderSize_def)
  have loads: "load_be16 0 (bs @ xs) = load_be16 0 bs" "load_u8 2 (bs @ xs) = load_u8 2 bs"
    "load_u8 3 (bs @ xs) = load_u8 3 bs" "load_be32 4 (bs @ xs) = load_be32 4 bs"
    "load_be64 8 (bs @ xs) = load_be64 8 bs" "load_be16 16 (bs @ xs) = load_be16 16 bs"
    using len by (simp_all add: be16.load_append be32.load_append be64.load_append byte.load_append)
  have sl: "slice kHeaderSize n (bs @ xs) = slice kHeaderSize n bs" if "kHeaderSize + n \<le> length bs" for n
    using that by (simp add: slice_def)
  have dec: "decode_body t kHeaderSize (bs @ xs) m = decode_body t kHeaderSize bs m"
    if "body_size_for t = Some n" "kHeaderSize + n \<le> length bs" for t n m
    by (rule decode_body_append [OF that])
  show ?thesis
    using assms len dec unfolding classify_def loads Let_def by (auto simp: sl split: if_splits)
qed

section \<open>The reference parser\<close>

text \<open>The sequence accounting by itself: whether a frame was seen, the next sequence, the pending gap.\<close>

type_synonym seq_state = "bool \<times> u64 \<times> u64"

definition seq_state :: "FrameDecoder \<Rightarrow> seq_state" where
  "seq_state d = (have_seq d, next_seq d, pending_gap d)"

fun account :: "u64 \<Rightarrow> seq_state \<Rightarrow> seq_state" where
  "account sq (have, nxt, gap) =
     (if \<not> have then (True, sq + 1, gap)
      else if sq > nxt then (True, sq + 1, gap + (sq - nxt))
      else if sq < nxt then (True, nxt, gap)
      else (True, sq + 1, gap))"

fun pending :: "seq_state \<Rightarrow> u64" where
  "pending (have, nxt, gap) = gap"

fun delivered :: "seq_state \<Rightarrow> seq_state" where
  "delivered (have, nxt, gap) = (have, nxt, 0)"

text \<open>
  The specification of the decoder: one byte at a time where there is no frame, one frame at a time
  where there is one, on the whole of the bytes.
\<close>

function parse :: "nat \<Rightarrow> seq_state \<Rightarrow> u8 list \<Rightarrow> Message list \<times> seq_state \<times> u8 list" where
  "parse mb st bs =
     (case classify mb bs of
        More \<Rightarrow> ([], st, bs)
      | Bad \<Rightarrow> parse mb st (tl bs)
      | Good n sq None \<Rightarrow> parse mb (account sq st) (drop n bs)
      | Good n sq (Some m) \<Rightarrow>
          let st1 = account sq st; (ms, r) = parse mb (delivered st1) (drop n bs)
          in (m\<lparr>gap_before := pending st1\<rparr> # ms, r))"
  by auto
termination
proof (relation "measure (\<lambda>(mb, st, bs). length bs)", goal_cases)
  case (2 mb st bs)
  then show ?case using classify_length [of mb bs] by (cases bs) (simp_all add: kHeaderSize_def)
next
  case (3 mb st bs n sq mo)
  then show ?case using classify_Good_length [of mb bs n sq mo] by (auto simp: kHeaderSize_def)
next
  case (4 mb st bs n sq mo m)
  then show ?case using classify_Good_length [of mb bs n sq mo] by (auto simp: kHeaderSize_def)
qed simp

declare parse.simps [simp del]

lemma parse_More: "classify mb bs = More \<Longrightarrow> parse mb st bs = ([], st, bs)"
  by (simp add: parse.simps)

lemma parse_Bad: "classify mb bs = Bad \<Longrightarrow> parse mb st bs = parse mb st (tl bs)"
  by (subst parse.simps) simp

lemma parse_Skip: "classify mb bs = Good n sq None \<Longrightarrow> parse mb st bs = parse mb (account sq st) (drop n bs)"
  by (subst parse.simps) simp

lemma parse_Msg:
  "classify mb bs = Good n sq (Some m) \<Longrightarrow> parse mb (delivered (account sq st)) (drop n bs) = (ms, r) \<Longrightarrow>
   parse mb st bs = (m\<lparr>gap_before := pending (account sq st)\<rparr> # ms, r)"
  by (subst parse.simps) simp

text \<open>The parser can be stopped and resumed anywhere.\<close>

lemma parse_append:
  "parse mb st bs = (ms, st1, r) \<Longrightarrow> parse mb st1 (r @ xs) = (ms2, st2, r2) \<Longrightarrow>
   parse mb st (bs @ xs) = (ms @ ms2, st2, r2)"
proof (induction mb st bs arbitrary: ms st1 r rule: parse.induct)
  case (1 mb st bs)
  show ?case
  proof (cases "classify mb bs")
    case More
    then show ?thesis using "1.prems" parse_More by simp
  next
    case Bad
    then have "bs \<noteq> []" using classify_length [of mb bs] by (auto simp: kHeaderSize_def)
    moreover have "parse mb st (tl bs @ xs) = (ms @ ms2, st2, r2)"
      using "1.IH"(1) [OF Bad _ "1.prems"(2)] "1.prems"(1) parse_Bad [OF Bad] by simp
    moreover have "classify mb (bs @ xs) = Bad" using Bad by (simp add: classify_append)
    ultimately show ?thesis by (simp add: parse_Bad)
  next
    case (Good n sq mo)
    then have c: "classify mb (bs @ xs) = Good n sq mo" by (simp add: classify_append)
    have n: "drop n (bs @ xs) = drop n bs @ xs" using classify_Good_length [OF Good] by simp
    show ?thesis
    proof (cases mo)
      case None
      have "parse mb (account sq st) (drop n bs @ xs) = (ms @ ms2, st2, r2)"
        using "1.IH"(2) [OF Good None _ "1.prems"(2)] "1.prems"(1) parse_Skip [OF Good [unfolded None]] by simp
      then show ?thesis using parse_Skip [OF c [unfolded None]] n by simp
    next
      case (Some m)
      obtain ms' r' where p: "parse mb (delivered (account sq st)) (drop n bs) = (ms', r')"
        by (cases "parse mb (delivered (account sq st)) (drop n bs)")
      have e: "ms = m\<lparr>gap_before := pending (account sq st)\<rparr> # ms'" "r' = (st1, r)"
        using parse_Msg [OF Good [unfolded Some] p] "1.prems"(1) by simp_all
      have "parse mb (delivered (account sq st)) (drop n bs @ xs) = (ms' @ ms2, st2, r2)"
        using "1.IH"(3) [OF Good Some refl _ "1.prems"(2)] p e(2) by simp
      from parse_Msg [OF c [unfolded Some n] this [folded n]] show ?thesis using e n by simp
    qed
  qed
qed

section \<open>Bytes with no frame in them\<close>

text \<open>\<open>c\<close> is what is left of \<open>a\<close> after bytes at which no magic starts, whatever follows.\<close>

definition junk_before :: "u8 list \<Rightarrow> u8 list \<Rightarrow> bool" where
  "junk_before a c \<longleftrightarrow> (\<exists>j. a = j @ c \<and> (\<forall>i<length j. i + 2 \<le> length a \<and> load_be16 i a \<noteq> kMagic))"

lemma junk_before_refl [simp]: "junk_before a a"
  by (simp add: junk_before_def)

lemma junk_before_append: "junk_before a c \<Longrightarrow> junk_before (a @ x) (c @ x)"
  by (fastforce simp: junk_before_def be16.load_append simp del: append_assoc simp flip: append_assoc)

lemma junk_before_trans:
  assumes "junk_before a b" "junk_before b c"
  shows "junk_before a c"
proof -
  obtain j k where j: "a = j @ b" "\<forall>i<length j. i + 2 \<le> length a \<and> load_be16 i a \<noteq> kMagic"
    and k: "b = k @ c" "\<forall>i<length k. i + 2 \<le> length b \<and> load_be16 i b \<noteq> kMagic"
    using assms by (auto simp: junk_before_def)
  have "i + 2 \<le> length a \<and> load_be16 i a \<noteq> kMagic" if "i < length (j @ k)" for i
  proof (cases "i < length j")
    case False
    then have *: "i - length j < length k" using that by simp
    then have "i - length j + 2 \<le> length b" "load_be16 (i - length j) b \<noteq> kMagic" using k(2) by blast+
    then show ?thesis using be16.load_skip [of j i b] False j(1) by auto
  qed (use j(2) in blast)
  then show ?thesis unfolding junk_before_def using j(1) k(1) by (intro exI [of _ "j @ k"]) simp
qed

lemma junk_before_length: "junk_before a c \<Longrightarrow> length c \<le> length a"
  by (auto simp: junk_before_def)

text \<open>Junk makes no difference to the parser but for what it leaves unread.\<close>

lemma parse_junk:
  assumes "junk_before a c" "parse mb st a = (ms, st', r)"
  shows "\<exists>r'. parse mb st c = (ms, st', r') \<and> junk_before r r'"
proof -
  obtain j where j: "a = j @ c" "\<forall>i<length j. i + 2 \<le> length a \<and> load_be16 i a \<noteq> kMagic"
    using assms(1) by (auto simp: junk_before_def)
  show ?thesis
    using j assms(2)
  proof (induction j arbitrary: a)
    case (Cons x j)
    show ?case
    proof (cases "length a < kHeaderSize")
      case True
      then have "classify mb a = More" "classify mb c = More"
        using Cons.prems(1) by (auto simp: classify_def)
      then show ?thesis
        using Cons.prems parse_More by (auto simp: junk_before_def intro!: exI [of _ "x # j"])
    next
      case False
      have "load_be16 0 a \<noteq> kMagic" using Cons.prems(2) by auto
      then have "classify mb a = Bad" using False by (intro classify_no_magic) simp_all
      then have p: "parse mb st (j @ c) = (ms, st', r)" using parse_Bad [of mb a st] Cons.prems(1,3) by simp
      have "\<forall>i<length j. i + 2 \<le> length (j @ c) \<and> load_be16 i (j @ c) \<noteq> kMagic"
      proof (intro allI impI)
        fix i assume "i < length j"
        then have *: "Suc i + 2 \<le> length a" "load_be16 (Suc i) a \<noteq> kMagic" using Cons.prems(2) by auto
        then show "i + 2 \<le> length (j @ c) \<and> load_be16 i (j @ c) \<noteq> kMagic"
          using be16.load_skip [of "[x]" "Suc i" "j @ c"] Cons.prems(1) by auto
      qed
      from Cons.IH [OF refl this p] show ?thesis .
    qed
  qed simp
qed

lemma parse_before_junk:
  assumes "junk_before a c" "parse mb st c = (ms, st', r')"
  shows "\<exists>r. parse mb st a = (ms, st', r) \<and> junk_before r r'"
  using parse_junk [OF assms(1), of mb st] assms(2) by (cases "parse mb st a") auto

section \<open>One turn of the loop\<close>

definition same_seq :: "FrameDecoder \<Rightarrow> FrameDecoder \<Rightarrow> bool" where
  "same_seq d d' \<longleftrightarrow> seq_state d' = seq_state d \<and> max_body d' = max_body d"

lemma scan_end:
  assumes "p + 2 \<le> length m"
  shows "scan m p < length m"
proof (rule ccontr)
  assume "\<not> scan m p < length m"
  then have "p \<le> scan m p - 1" "scan m p - 1 < scan m p" using assms by simp_all
  then have "scan m p - 1 + 2 \<le> length m" using scan_spec(3) [of p m] by blast
  then show False using \<open>\<not> scan m p < length m\<close> by simp
qed

lemma resync_spec:
  assumes "rpos d + kHeaderSize \<le> length (buf d)" "resync d = (found, d')"
  shows "decoder_ok d' \<and> same_seq d d' \<and> junk_before (tl (rest d)) (rest d') \<and> rest d' \<noteq> []
    \<and> (\<not> found \<longrightarrow> length (rest d') = 1)"
proof -
  let ?m = "buf d" and ?p0 = "scan (buf d) (rpos d + 1)"
  define p where "p = (if ?p0 + 2 \<le> length ?m then ?p0 else length ?m - 1)"
  have len: "rpos d + 1 + 2 \<le> length ?m" using assms(1) by (simp add: kHeaderSize_def)
  have p0: "rpos d + 1 \<le> ?p0" "?p0 < length ?m" using scan_spec(1) scan_end [OF len] by simp_all
  have pp: "p = ?p0" using p0(2) by (auto simp: p_def)
  define d1 where "d1 = (add_to bytes_discarded_update (of_nat (p - rpos d)) (bump resyncs_update d))\<lparr>rpos := p\<rparr>"
  have "resync d = (?p0 + 2 \<le> length ?m, compact d1)"
    by (simp add: resync_def Let_def d1_def p_def)
  then have e: "found = (?p0 + 2 \<le> length ?m)" "d' = compact d1" using assms(2) by simp_all
  have "decoder_ok d1" "same_seq d d1" "rest d1 = drop p ?m"
    using p0 pp by (simp_all add: d1_def decoder_ok_def same_seq_def seq_state_def rest_def)
  then have d': "rest d' = drop p ?m" "decoder_ok d'" "same_seq d d'"
    by (simp_all add: e same_seq_def seq_state_def)
  have "junk_before (tl (rest d)) (drop p ?m)"
    unfolding junk_before_def
  proof (intro exI conjI allI impI)
    let ?j = "take (p - (rpos d + 1)) (drop (rpos d + 1) ?m)"
    have tl: "tl (rest d) = drop (rpos d + 1) ?m" by (simp add: rest_def drop_Suc tl_drop)
    show "tl (rest d) = ?j @ drop p ?m"
      unfolding tl using p0 pp by (metis append_take_drop_id drop_drop le_add_diff_inverse2)
    fix i assume "i < length ?j"
    then have i: "rpos d + 1 \<le> rpos d + 1 + i" "rpos d + 1 + i < ?p0" using pp p0 by auto
    then have *: "rpos d + 1 + i + 2 \<le> length ?m" "load_be16 (rpos d + 1 + i) ?m \<noteq> kMagic"
      using scan_spec(3) [of "rpos d + 1" ?m] by blast+
    show "i + 2 \<le> length (tl (rest d))" using * unfolding tl by simp
    show "load_be16 i (tl (rest d)) \<noteq> kMagic" unfolding tl using * by (subst be16.load_drop) simp_all
  qed
  moreover have "length (drop p ?m) = 1" if "\<not> found" using that e p0 pp by simp
  ultimately show ?thesis using d' p0 pp by simp
qed

lemma after_resync_spec:
  assumes "rpos d + kHeaderSize \<le> length (buf d)"
  shows "\<exists>d'. (after_resync d = Again d' \<or> after_resync d = NeedMore d' \<and> length (rest d') = 1)
    \<and> decoder_ok d' \<and> same_seq d d' \<and> junk_before (tl (rest d)) (rest d')"
  using resync_spec [OF assms] by (cases "resync d") (auto simp: after_resync_def)

text \<open>What a turn does, by the verdict on the bytes that are left.\<close>

lemma header_of_rest:
  assumes "kHeaderSize \<le> length (rest d)"
  shows "load_be16 (rpos d) (buf d) = load_be16 0 (rest d)" "load_u8 (rpos d + 2) (buf d) = load_u8 2 (rest d)"
    "load_u8 (rpos d + 3) (buf d) = load_u8 3 (rest d)" "load_be32 (rpos d + 4) (buf d) = load_be32 4 (rest d)"
    "load_be64 (rpos d + 8) (buf d) = load_be64 8 (rest d)" "load_be16 (rpos d + 16) (buf d) = load_be16 16 (rest d)"
  using assms
  by (simp_all add: rest_def kHeaderSize_def be16.load_drop be32.load_drop be64.load_drop byte.load_drop)

lemma slice_of_rest: "slice (rpos d + k) n (buf d) = slice k n (rest d)"
  by (simp add: slice_def rest_def add.commute)

lemma length_buf_rest: "length (buf d) - rpos d = length (rest d)"
  by (simp add: rest_def)

lemma next_turn_More: "classify (max_body d) (rest d) = More \<Longrightarrow> next_turn d = NeedMore d"
proof (cases "length (rest d) < kHeaderSize")
  case False
  assume "classify (max_body d) (rest d) = More"
  then show ?thesis
    using False header_of_rest [of d]
    by (auto simp: classify_def next_turn_def Let_def length_buf_rest slice_of_rest split: if_splits)
qed (simp add: next_turn_def length_buf_rest)

lemma next_turn_Bad:
  assumes "classify (max_body d) (rest d) = Bad"
  shows "\<exists>d'. (next_turn d = Again d' \<or> next_turn d = NeedMore d' \<and> length (rest d') = 1)
    \<and> decoder_ok d' \<and> same_seq d d' \<and> junk_before (tl (rest d)) (rest d')"
proof -
  have len: "kHeaderSize \<le> length (rest d)" using classify_length [of "max_body d" "rest d"] assms by simp
  then have fit: "rpos d + kHeaderSize \<le> length (buf d)" by (simp add: rest_def kHeaderSize_def)
  have after: "\<exists>d'. (after_resync d1 = Again d' \<or> after_resync d1 = NeedMore d' \<and> length (rest d') = 1)
      \<and> decoder_ok d' \<and> same_seq d d' \<and> junk_before (tl (rest d)) (rest d')"
    if "buf d1 = buf d" "rpos d1 = rpos d" "same_seq d d1" for d1
    using after_resync_spec [of d1] that fit by (simp add: rest_def same_seq_def)
  have "next_turn d \<in> after_resync ` {bump bad_magic_update d, bump bad_version_update d, bump bad_length_update d,
      bump bad_checksum_update d}"
    using assms len unfolding next_turn_def Let_def length_buf_rest header_of_rest [OF len] slice_of_rest
    by (auto simp: classify_def Let_def split: if_splits)
  then obtain d1 where "next_turn d = after_resync d1" "buf d1 = buf d" "rpos d1 = rpos d" "same_seq d d1"
    by (auto simp: same_seq_def seq_state_def)
  with after [of d1] show ?thesis by simp
qed

lemma account_seq_frame [simp]:
  "buf (account_seq sq d) = buf d" "rpos (account_seq sq d) = rpos d" "max_body (account_seq sq d) = max_body d"
  "seq_state (account_seq sq d) = account sq (seq_state d)"
  by (auto simp: account_seq_def seq_state_def Let_def)

lemma seq_state_frame [simp]:
  "seq_state (compact d) = seq_state d" "seq_state (d\<lparr>rpos := p\<rparr>) = seq_state d"
  "seq_state (d\<lparr>dstats := x\<rparr>) = seq_state d"
  by (simp_all add: seq_state_def)

lemma pending_seq_state: "pending_gap d = pending (seq_state d)"
  by (simp add: seq_state_def)

lemma next_turn_Good:
  assumes c: "classify (max_body d) (rest d) = Good n sq mo"
  shows "\<exists>d'. next_turn d = (case mo of None \<Rightarrow> Again d'
        | Some m \<Rightarrow> Deliver (m\<lparr>gap_before := pending (account sq (seq_state d))\<rparr>) d')
    \<and> decoder_ok d' \<and> max_body d' = max_body d \<and> rest d' = drop n (rest d)
    \<and> seq_state d' = (if mo = None then account sq (seq_state d) else delivered (account sq (seq_state d)))"
proof -
  have len: "kHeaderSize \<le> n" "n \<le> length (rest d)" using classify_Good_length [OF c] by simp_all
  then have len': "kHeaderSize \<le> length (rest d)" by simp
  define d2 where "d2 = compact (account_seq sq (bump frames_decoded_update
      (add_to bytes_consumed_update (of_nat n) (d\<lparr>rpos := rpos d + n\<rparr>))))"
  have st: "seq_state d2 = account sq (seq_state d)" "max_body d2 = max_body d"
    by (simp_all add: d2_def)
  have r: "rest d2 = drop n (rest d)" by (simp add: d2_def) (simp add: rest_def add.commute)
  have ok: "decoder_ok d2" unfolding d2_def using len by (intro compact_ok) (auto simp: decoder_ok_def rest_def kHeaderSize_def)
  have dec: "decode_body t (rpos d + kHeaderSize) (buf d) m0 = decode_body t kHeaderSize (rest d) m0"
    if "body_size_for t = Some k" "kHeaderSize + k \<le> length (rest d)" for t k m0
    using decode_body_drop [OF that(1), of "rpos d" kHeaderSize "buf d" m0] that(2) by (simp add: rest_def kHeaderSize_def)
  have turn: "next_turn d = (case mo of None \<Rightarrow> Again (bump unknown_type_update d2)
      | Some m \<Rightarrow> Deliver (m\<lparr>gap_before := pending_gap d2\<rparr>) (d2\<lparr>pending_gap := 0\<rparr>))"
    using c len' dec
    unfolding next_turn_def Let_def length_buf_rest header_of_rest [OF len'] slice_of_rest
    by (auto simp: classify_def Let_def d2_def split: if_splits)
  show ?thesis
  proof (cases mo)
    case None
    then show ?thesis using turn ok st r by (simp add: decoder_ok_def rest_def seq_state_def)
  next
    case (Some m)
    have "seq_state (d2\<lparr>pending_gap := 0\<rparr>) = delivered (seq_state d2)" by (simp add: seq_state_def)
    then show ?thesis
      using Some turn ok st r pending_seq_state [of d2] by (simp add: decoder_ok_def rest_def)
  qed
qed

section \<open>The decoding loop\<close>

text \<open>Every turn but the last leaves fewer bytes, so the loop ends.\<close>

lemma turn_shrinks:
  assumes "next_turn d = Again d' \<or> next_turn d = Deliver m d'"
  shows "buffered d' < buffered d"
proof (cases "classify (max_body d) (rest d)")
  case More
  then show ?thesis using next_turn_More assms by auto
next
  case Bad
  then have "rest d \<noteq> []" using classify_length [of "max_body d" "rest d"] by (auto simp: kHeaderSize_def)
  moreover have "junk_before (tl (rest d)) (rest d')" using next_turn_Bad [OF Bad] assms by auto
  ultimately show ?thesis
    using junk_before_length [of "tl (rest d)" "rest d'"] by (cases "rest d") (simp_all flip: length_rest)
next
  case (Good n sq mo)
  have "rest d' = drop n (rest d)" using next_turn_Good [OF Good] assms by (auto split: option.splits)
  then show ?thesis using classify_Good_length [OF Good] by (auto simp: kHeaderSize_def simp flip: length_rest)
qed

function next_message :: "FrameDecoder \<Rightarrow> Message option \<times> FrameDecoder" where
  "next_message d =
     (case next_turn d of
        NeedMore d' \<Rightarrow> (None, d')
      | Again d' \<Rightarrow> next_message d'
      | Deliver m d' \<Rightarrow> (Some m, d'))"
  by auto
termination
  by (relation "measure buffered") (auto intro: turn_shrinks)

declare next_message.simps [simp del]

lemma next_message_shrinks: "next_message d = (Some m, d') \<Longrightarrow> buffered d' < buffered d"
proof (induction d rule: next_message.induct)
  case (1 d)
  show ?case
  proof (cases "next_turn d")
    case (NeedMore d1)
    then show ?thesis using "1.prems" by (simp add: next_message.simps [of d])
  next
    case (Again d1)
    then have "buffered d' < buffered d1" using "1.IH" [OF Again] "1.prems" by (simp add: next_message.simps [of d])
    then show ?thesis using turn_shrinks [of d d1 m] Again by simp
  next
    case (Deliver m1 d1)
    then show ?thesis using "1.prems" turn_shrinks [of d d1 m1] by (simp add: next_message.simps [of d])
  qed
qed

text \<open>The consumer's loop: take messages until there are none.\<close>

function drain :: "FrameDecoder \<Rightarrow> Message list \<times> FrameDecoder" where
  "drain d =
     (case next_message d of
        (None, d') \<Rightarrow> ([], d')
      | (Some m, d') \<Rightarrow> let (ms, d'') = drain d' in (m # ms, d''))"
  by auto
termination
  by (relation "measure buffered") (auto intro: next_message_shrinks [OF sym])

declare drain.simps [simp del]

text \<open>Feed the stream in the pieces in which it arrives, taking all messages after each.\<close>

fun receive :: "FrameDecoder \<Rightarrow> u8 list list \<Rightarrow> Message list \<times> FrameDecoder" where
  "receive d [] = ([], d)"
| "receive d (chunk # chunks) =
     (let (ms, d1) = drain (feed chunk d); (ms', d2) = receive d1 chunks in (ms @ ms', d2))"

end
