(* ===== verification/Frame_Stream.thy ===== *)
theory Frame_Stream
  imports Frame_Decoder
begin

text \<open>
  The stream properties of the decoder of \<^verbatim>\<open>src/wire.cpp\<close>: it refines the reference parser, so its
  messages do not depend on how the stream is cut into reads; encoded streams are decoded
  completely; damage is left behind; and its byte and gap accounting balances.
\<close>

section \<open>The decoder refines the parser\<close>

definition refines :: "FrameDecoder \<Rightarrow> Message list \<Rightarrow> FrameDecoder \<Rightarrow> bool" where
  "refines d ms d' \<longleftrightarrow> decoder_ok d' \<and> max_body d' = max_body d \<and>
     (\<exists>r. parse (max_body d) (seq_state d) (rest d) = (ms, seq_state d', r) \<and> junk_before r (rest d'))"

text \<open>What one call of \<open>next_message\<close> does to the parse: nothing more to find, or one message off its front.\<close>

definition takes_message :: "FrameDecoder \<Rightarrow> Message option \<Rightarrow> FrameDecoder \<Rightarrow> bool" where
  "takes_message d mo d' \<longleftrightarrow> decoder_ok d' \<and> max_body d' = max_body d \<and>
   (case mo of
      None \<Rightarrow> refines d [] d'
    | Some m \<Rightarrow> \<forall>ms st r. parse (max_body d) (seq_state d') (rest d') = (ms, st, r) \<longrightarrow>
        (\<exists>r'. parse (max_body d) (seq_state d) (rest d) = (m # ms, st, r') \<and> junk_before r' r))"

lemma takes_after_junk:
  assumes d1: "seq_state d1 = seq_state d" "max_body d1 = max_body d"
    and before: "\<And>ms st r. parse (max_body d) (seq_state d) (rest d1) = (ms, st, r) \<Longrightarrow>
      \<exists>r'. parse (max_body d) (seq_state d) (rest d) = (ms, st, r') \<and> junk_before r' r"
    and "takes_message d1 mo d'"
  shows "takes_message d mo d'"
  using assms(4) unfolding takes_message_def d1 refines_def
  by (auto split: option.splits) (meson before junk_before_trans)+

lemma next_message_Bad:
  assumes Bad: "classify (max_body d) (rest d) = Bad" and nm: "next_message d = (mo, d')"
    and IH: "\<And>d1. next_turn d = Again d1 \<Longrightarrow> decoder_ok d1 \<Longrightarrow> next_message d1 = (mo, d') \<Longrightarrow> takes_message d1 mo d'"
  shows "takes_message d mo d'"
proof -
  obtain d1 where d1: "next_turn d = Again d1 \<or> next_turn d = NeedMore d1 \<and> length (rest d1) = 1"
    "decoder_ok d1" "seq_state d1 = seq_state d" "max_body d1 = max_body d" "junk_before (tl (rest d)) (rest d1)"
    using next_turn_Bad [OF Bad] by (auto simp: same_seq_def)
  have before: "\<exists>r'. parse (max_body d) (seq_state d) (rest d) = (ms, st, r') \<and> junk_before r' r"
    if "parse (max_body d) (seq_state d) (rest d1) = (ms, st, r)" for ms st r
    using parse_before_junk [OF d1(5) that] parse_Bad [OF Bad] by simp
  show ?thesis
  proof (cases "next_turn d = Again d1")
    case True
    then have "next_message d1 = (mo, d')" using nm by (simp add: next_message.simps [of d])
    note found = IH [OF True d1(2) this]
    show ?thesis by (rule takes_after_junk [OF d1(3,4) _ found]) (rule before)
  next
    case False
    with d1(1) have n: "next_turn d = NeedMore d1" "length (rest d1) = 1" by simp_all
    have "classify (max_body d) (rest d1) = More" using n(2) by (simp add: classify_def kHeaderSize_def)
    from before [OF parse_More [OF this]] show ?thesis
      using n(1) nm d1 by (auto simp: next_message.simps [of d] takes_message_def refines_def)
  qed
qed

lemma next_message_Good:
  assumes Good: "classify (max_body d) (rest d) = Good n sq mg" and nm: "next_message d = (mo, d')"
    and IH: "\<And>d1. next_turn d = Again d1 \<Longrightarrow> decoder_ok d1 \<Longrightarrow> next_message d1 = (mo, d') \<Longrightarrow> takes_message d1 mo d'"
  shows "takes_message d mo d'"
proof -
  obtain d1 where d1: "next_turn d = (case mg of None \<Rightarrow> Again d1
        | Some m \<Rightarrow> Deliver (m\<lparr>gap_before := pending (account sq (seq_state d))\<rparr>) d1)"
    "decoder_ok d1" "max_body d1 = max_body d" "rest d1 = drop n (rest d)"
    "seq_state d1 = (if mg = None then account sq (seq_state d) else delivered (account sq (seq_state d)))"
    using next_turn_Good [OF Good] by blast
  show ?thesis
  proof (cases mg)
    case None
    then have t: "next_turn d = Again d1" using d1(1) by simp
    then have "next_message d1 = (mo, d')" using nm by (simp add: next_message.simps [of d])
    moreover have "parse (max_body d) (seq_state d) (rest d) = parse (max_body d) (seq_state d1) (rest d1)"
      using parse_Skip [OF Good [unfolded None]] d1 None by simp
    ultimately show ?thesis
      using IH [OF t d1(2)] by (cases mo) (simp_all add: takes_message_def refines_def d1(3))
  next
    case (Some m)
    then have "mo = Some (m\<lparr>gap_before := pending (account sq (seq_state d))\<rparr>)" "d' = d1"
      using d1(1) nm by (simp_all add: next_message.simps [of d])
    then show ?thesis using parse_Msg [OF Good [unfolded Some]] d1 Some by (auto simp: takes_message_def)
  qed
qed

lemma next_message_refines: "decoder_ok d \<Longrightarrow> next_message d = (mo, d') \<Longrightarrow> takes_message d mo d'"
proof (induction d rule: next_message.induct)
  case (1 d)
  show ?case
  proof (cases "classify (max_body d) (rest d)")
    case More
    then have "mo = None" "d' = d" using next_turn_More [OF More] "1.prems"(2) by (simp_all add: next_message.simps [of d])
    then show ?thesis using More "1.prems"(1) by (simp add: takes_message_def refines_def parse_More)
  next
    case Bad
    then show ?thesis by (rule next_message_Bad [OF _ "1.prems"(2) "1.IH"])
  next
    case (Good n sq mg)
    then show ?thesis by (rule next_message_Good [OF _ "1.prems"(2) "1.IH"])
  qed
qed

lemma drain_refines: "decoder_ok d \<Longrightarrow> drain d = (ms, d') \<Longrightarrow> refines d ms d'"
proof (induction d arbitrary: ms rule: drain.induct)
  case (1 d)
  obtain mo d1 where n: "next_message d = (mo, d1)" by (cases "next_message d")
  note step = next_message_refines [OF "1.prems"(1) n, unfolded takes_message_def]
  show ?case
  proof (cases mo)
    case None
    then show ?thesis using step n "1.prems"(2) by (simp add: drain.simps [of d])
  next
    case (Some m)
    obtain ms1 where dr: "drain d1 = (ms1, d')" "ms = m # ms1"
      using n Some "1.prems"(2) by (auto simp: drain.simps [of d] split: prod.splits)
    have "refines d1 ms1 d'" using "1.IH" [OF n [symmetric] Some _ dr(1)] step by simp
    then obtain r where r: "decoder_ok d'" "max_body d' = max_body d1" "junk_before r (rest d')"
      "parse (max_body d1) (seq_state d1) (rest d1) = (ms1, seq_state d', r)" by (auto simp: refines_def)
    have "parse (max_body d) (seq_state d1) (rest d1) = (ms1, seq_state d', r)" using r(4) step by simp
    moreover have "\<forall>ms st r. parse (max_body d) (seq_state d1) (rest d1) = (ms, st, r) \<longrightarrow>
        (\<exists>r'. parse (max_body d) (seq_state d) (rest d) = (m # ms, st, r') \<and> junk_before r' r)"
      using step Some by (simp del: split_paired_All)
    ultimately obtain r' where
      "parse (max_body d) (seq_state d) (rest d) = (m # ms1, seq_state d', r')" "junk_before r' r" by blast
    with r show ?thesis using step dr(2) by (auto simp: refines_def intro: junk_before_trans)
  qed
qed

text \<open>A decoder from which all messages were taken.\<close>

definition idle :: "FrameDecoder \<Rightarrow> bool" where
  "idle d \<longleftrightarrow> decoder_ok d \<and> classify (max_body d) (rest d) = More"

lemma parse_rest_More: "parse mb st bs = (ms, st', r) \<Longrightarrow> classify mb r = More"
proof (induction mb st bs arbitrary: ms rule: parse.induct)
  case (1 mb st bs)
  show ?case
  proof (cases "classify mb bs")
    case More
    then show ?thesis using "1.prems" by (simp add: parse_More)
  next
    case Bad
    then show ?thesis using "1.IH"(1) [OF Bad] "1.prems" by (simp add: parse_Bad)
  next
    case (Good n sq mo)
    show ?thesis
    proof (cases mo)
      case None
      then show ?thesis using "1.IH"(2) [OF Good None] "1.prems" parse_Skip [OF Good [unfolded None]] by simp
    next
      case (Some m)
      obtain ms' r' where p: "parse mb (delivered (account sq st)) (drop n bs) = (ms', r')"
        by (cases "parse mb (delivered (account sq st)) (drop n bs)")
      then show ?thesis
        using "1.IH"(3) [OF Good Some refl] "1.prems" parse_Msg [OF Good [unfolded Some] p] by simp
    qed
  qed
qed

lemma junk_before_More:
  assumes "classify mb r = More" "junk_before r c"
  shows "classify mb c = More"
proof (cases "length r < kHeaderSize")
  case True
  then have "length c < kHeaderSize" using junk_before_length [OF assms(2)] by simp
  then show ?thesis by (simp add: classify_def)
next
  case False
  then have m: "load_be16 0 r = kMagic" using assms(1) classify_no_magic [of r mb] by (auto simp: not_less)
  obtain j where "r = j @ c" "\<forall>i<length j. i + 2 \<le> length r \<and> load_be16 i r \<noteq> kMagic"
    using assms(2) by (auto simp: junk_before_def)
  then have "r = c" using m by (cases j) auto
  then show ?thesis using assms(1) by simp
qed

lemma refines_idle: "refines d ms d' \<Longrightarrow> idle d'"
  by (auto simp: refines_def idle_def intro: junk_before_More parse_rest_More)

lemma receive_refines:
  "idle d \<Longrightarrow> receive d chunks = (ms, d') \<Longrightarrow>
   idle d' \<and> max_body d' = max_body d \<and>
   (\<exists>r. parse (max_body d) (seq_state d) (rest d @ concat chunks) = (ms, seq_state d', r) \<and> junk_before r (rest d'))"
proof (induction chunks arbitrary: d ms)
  case Nil
  then show ?case by (simp add: idle_def parse_More)
next
  case (Cons c cs)
  have ok: "decoder_ok d" using Cons.prems(1) by (simp add: idle_def)
  obtain ms1 d1 ms2 where dr: "drain (feed c d) = (ms1, d1)" "receive d1 cs = (ms2, d')" "ms = ms1 @ ms2"
    using Cons.prems(2) by (auto split: prod.splits)
  have f: "rest (feed c d) = rest d @ c" "max_body (feed c d) = max_body d" "seq_state (feed c d) = seq_state d"
    using rest_feed [OF ok] by (simp_all add: feed_def Let_def seq_state_def)
  have ref: "refines (feed c d) ms1 d1" by (rule drain_refines [OF feed_ok [OF ok] dr(1)])
  then obtain r1 where r1: "parse (max_body d) (seq_state d) (rest d @ c) = (ms1, seq_state d1, r1)"
    "junk_before r1 (rest d1)" "max_body d1 = max_body d" by (auto simp: refines_def f)
  from Cons.IH [OF refines_idle [OF ref] dr(2)] r1(3) obtain r2 where
    r2: "idle d'" "max_body d' = max_body d" "junk_before r2 (rest d')"
    "parse (max_body d) (seq_state d1) (rest d1 @ concat cs) = (ms2, seq_state d', r2)" by auto
  from parse_before_junk [OF junk_before_append [OF r1(2)] r2(4)] obtain r where
    r: "parse (max_body d) (seq_state d1) (r1 @ concat cs) = (ms2, seq_state d', r)" "junk_before r r2" by blast
  from parse_append [OF r1(1) r(1)] show ?case
    using r2 r(2) dr(3) by (auto intro: junk_before_trans)
qed

lemma receive_parse: "fst (receive (new_decoder mb) chunks) = fst (parse mb (False, 0, 0) (concat chunks))"
proof -
  have "idle (new_decoder mb)"
    by (simp add: idle_def decoder_ok_def new_decoder_def rest_def classify_def kHeaderSize_def)
  then show ?thesis
    using receive_refines [of "new_decoder mb" chunks "fst (receive (new_decoder mb) chunks)"
        "snd (receive (new_decoder mb) chunks)"]
    by (auto simp: new_decoder_def seq_state_def rest_def)
qed

text \<open>
  (C4) A read is not a message: however the stream is cut into reads, down to single bytes, and whatever is
  in it, damaged frames and unknown types included, taking all messages after each read gives
  exactly the messages, with their gaps, of the reference parser on the whole stream; so two
  different cuts of one stream give the same messages.  The decoder terminates on every input.
\<close>

theorem decode_split_invariant:
  "fst (receive (new_decoder mb) chunks) = fst (parse mb (False, 0, 0) (concat chunks))
   \<and> (concat chunks = concat chunks' \<longrightarrow>
        fst (receive (new_decoder mb) chunks) = fst (receive (new_decoder mb) chunks'))"
  by (simp add: receive_parse)

section \<open>Encoded streams\<close>

text \<open>The frame that \<^verbatim>\<open>encode\<close> writes into a buffer of \<^verbatim>\<open>kMaxEncodedFrame\<close> bytes.\<close>

definition kMaxEncodedFrame :: nat where
  "kMaxEncodedFrame = kHeaderSize + 64"

definition encoded :: "Message \<Rightarrow> u8 list" where
  "encoded m = (case encode m (replicate kMaxEncodedFrame 0) of Some (n, out) \<Rightarrow> take n out | None \<Rightarrow> [])"

text \<open>What a stream of messages looks like when every one of them arrives.\<close>

fun with_gaps :: "seq_state \<Rightarrow> Message list \<Rightarrow> Message list" where
  "with_gaps st [] = []"
| "with_gaps st (m # ms) =
     m\<lparr>gap_before := pending (account (mseq m) st)\<rparr> # with_gaps (delivered (account (mseq m) st)) ms"

lemma classify_encoded:
  assumes "message_ok m" "44 \<le> mb"
  shows "\<exists>n. classify mb (encoded m @ bs) = Good n (mseq m) (Some (m\<lparr>gap_before := 0\<rparr>)) \<and> length (encoded m) = n"
proof -
  let ?n = "length (frame_body m)" and ?out = "replicate kMaxEncodedFrame (0 :: u8)"
  have size: "body_size_for (mtype m) = Some ?n" by (rule length_frame_body [OF assms(1)])
  have n: "?n \<le> 44" by (rule known_type_size [OF size])
  then have "kHeaderSize + ?n \<le> length ?out" by (simp add: kMaxEncodedFrame_def)
  from encode_spec [OF assms(1) size this] obtain fr where
    fr: "encode m ?out = Some (kHeaderSize + ?n, fr @ drop (kHeaderSize + ?n) ?out)" "length fr = kHeaderSize + ?n"
      "load_be16 0 fr = kMagic" "load_u8 2 fr = kVersion" "load_u8 3 fr = type_code (mtype m)"
      "load_be32 4 fr = of_nat ?n" "load_be64 8 fr = mseq m" "load_be16 16 fr = fletcher16 (slice kHeaderSize ?n fr)"
    and dec: "\<forall>m0. body m0 = empty_body \<longrightarrow> decode_body (mtype m) kHeaderSize fr m0 = m0\<lparr>body := body m\<rparr>"
    by blast
  have e: "encoded m = fr" using fr(1,2) by (simp add: encoded_def)
  have un: "unat (of_nat ?n :: u32) = ?n" using n by (simp add: unat_of_nat)
  have "classify mb fr = Good (kHeaderSize + ?n) (mseq m) (Some (m\<lparr>gap_before := 0\<rparr>))"
    using fr(2-) dec size n un assms by (simp add: classify_def Let_def msg_type_code)
  then show ?thesis using e fr(2) by (simp add: classify_append)
qed

lemma parse_encoded:
  "\<forall>m\<in>set ms. message_ok m \<Longrightarrow> 44 \<le> mb \<Longrightarrow>
   fst (parse mb st (concat (map encoded ms))) = with_gaps st ms"
proof (induction ms arbitrary: st)
  case Nil
  then show ?case by (simp add: parse_More classify_def kHeaderSize_def)
next
  case (Cons m ms)
  obtain n where c: "classify mb (encoded m @ concat (map encoded ms)) = Good n (mseq m) (Some (m\<lparr>gap_before := 0\<rparr>))"
    "length (encoded m) = n" using classify_encoded [of m mb "concat (map encoded ms)"] Cons.prems by auto
  obtain ms' r' where p: "parse mb (delivered (account (mseq m) st)) (concat (map encoded ms)) = (ms', r')"
    by (cases "parse mb (delivered (account (mseq m) st)) (concat (map encoded ms))")
  have "drop n (encoded m @ concat (map encoded ms)) = concat (map encoded ms)" using c(2) by simp
  from parse_Msg [OF c(1), unfolded this, OF p] show ?case
    using Cons.IH [of "delivered (account (mseq m) st)"] Cons.prems p by simp
qed

text \<open>Consecutive sequence numbers leave no gap.\<close>

fun consecutive :: "u64 \<Rightarrow> Message list \<Rightarrow> bool" where
  "consecutive n [] \<longleftrightarrow> True"
| "consecutive n (m # ms) \<longleftrightarrow> mseq m = n \<and> gap_before m = 0 \<and> consecutive (n + 1) ms"

lemma with_gaps_consecutive: "consecutive n ms \<Longrightarrow> with_gaps (True, n, 0) ms = ms"
  by (induction ms arbitrary: n) auto

text \<open>
  (C19) Round trip of a stream: messages of every known type, encoded one after the other and received in
  any cut, come out of a fresh decoder complete, in order and equal field by field, each with the
  number of messages missing before it; on a stream with consecutive sequence numbers that number
  is zero and the messages are the very messages that were encoded.
\<close>

theorem stream_roundtrip:
  assumes "\<forall>m\<in>set ms. message_ok m" "44 \<le> mb" "concat chunks = concat (map encoded ms)"
  shows "fst (receive (new_decoder mb) chunks) = with_gaps (False, 0, 0) ms
    \<and> (consecutive n ms \<longrightarrow> fst (receive (new_decoder mb) chunks) = ms)"
proof -
  have "fst (receive (new_decoder mb) chunks) = with_gaps (False, 0, 0) ms"
    using parse_encoded [OF assms(1,2)] by (simp add: receive_parse assms(3))
  moreover have "with_gaps (False, 0, 0) ms = ms" if "consecutive n ms"
    using that with_gaps_consecutive by (cases ms) auto
  ultimately show ?thesis by simp
qed

text \<open>
  (C30) Damage is left behind: when the bytes at hand are no frame, because of a wrong magic, version, length
  or checksum, and no magic starts in the damaged bytes that follow, the decoder delivers exactly
  the messages encoded behind the damage, in any cut of the stream.
\<close>

theorem resync_recovers:
  assumes "\<forall>m\<in>set ms. message_ok m" "44 \<le> mb"
    and "concat chunks = x # junk @ concat (map encoded ms)"
    and "classify mb (x # junk @ concat (map encoded ms)) = Bad"
    and "junk_before (junk @ concat (map encoded ms)) (concat (map encoded ms))"
  shows "fst (receive (new_decoder mb) chunks) = with_gaps (False, 0, 0) ms"
proof -
  let ?good = "concat (map encoded ms)"
  obtain st r where p: "parse mb (False, 0, 0) ?good = (with_gaps (False, 0, 0) ms, st, r)"
    using parse_encoded [OF assms(1,2), of "(False, 0, 0)"] by (metis prod.collapse)
  from parse_before_junk [OF assms(5) p] parse_Bad [OF assms(4), of "(False, 0, 0)"]
  show ?thesis by (auto simp: receive_parse assms(3))
qed

section \<open>The books balance\<close>

text \<open>All bytes ever fed, and the gap messages already reported.\<close>

definition total_bytes :: "FrameDecoder \<Rightarrow> u64" where
  "total_bytes d = bytes_consumed (dstats d) + bytes_discarded (dstats d) + of_nat (buffered d)"

definition reported :: "FrameDecoder \<Rightarrow> u64" where
  "reported d = seq_missing (dstats d) - pending_gap d"

definition balanced :: "FrameDecoder \<Rightarrow> FrameDecoder \<Rightarrow> u64 \<Rightarrow> bool" where
  "balanced d d' k \<longleftrightarrow> total_bytes d' = total_bytes d \<and> reported d' = reported d + k"

lemma resync_balanced:
  assumes "rpos d + kHeaderSize \<le> length (buf d)" "resync d = (found, d')"
  shows "balanced d d' 0"
proof -
  let ?p0 = "scan (buf d) (rpos d + 1)"
  define p where "p = (if ?p0 + 2 \<le> length (buf d) then ?p0 else length (buf d) - 1)"
  have "rpos d + 1 \<le> ?p0" "?p0 < length (buf d)"
    using scan_spec(1) scan_end [of "rpos d + 1" "buf d"] assms(1) by (simp_all add: kHeaderSize_def)
  then have p: "rpos d \<le> p" "p \<le> length (buf d)" by (auto simp: p_def)
  define d1 where "d1 = (add_to bytes_discarded_update (of_nat (p - rpos d)) (bump resyncs_update d))\<lparr>rpos := p\<rparr>"
  have "resync d = (?p0 + 2 \<le> length (buf d), compact d1)" by (simp add: resync_def Let_def d1_def p_def)
  then have d': "d' = compact d1" using assms(2) by simp
  have "p - rpos d + (length (buf d) - p) = length (buf d) - rpos d" using p by simp
  then have "(of_nat (p - rpos d) :: u64) + of_nat (length (buf d) - p) = of_nat (length (buf d) - rpos d)"
    by (metis of_nat_add)
  then have "total_bytes d1 = total_bytes d"
    by (simp add: total_bytes_def d1_def buffered_def algebra_simps del: of_nat_diff)
  then show ?thesis by (simp add: balanced_def d' total_bytes_def reported_def) (simp add: d1_def)
qed

lemma after_resync_balanced:
  "rpos d + kHeaderSize \<le> length (buf d) \<Longrightarrow> after_resync d = Again d' \<or> after_resync d = NeedMore d' \<Longrightarrow> balanced d d' 0"
  using resync_balanced by (cases "resync d") (auto simp: after_resync_def split: if_splits)

lemma account_seq_balanced:
  "total_bytes (account_seq sq d) = total_bytes d" "reported (account_seq sq d) = reported d"
  by (auto simp: account_seq_def total_bytes_def reported_def buffered_def Let_def)

lemma accept_balanced:
  assumes "rpos d + n \<le> length (buf d)"
    and "d2 = compact (account_seq sq (bump frames_decoded_update
      (add_to bytes_consumed_update (of_nat n) (d\<lparr>rpos := rpos d + n\<rparr>))))"
  shows "balanced d d2 0"
proof -
  let ?d1 = "bump frames_decoded_update (add_to bytes_consumed_update (of_nat n) (d\<lparr>rpos := rpos d + n\<rparr>))"
  have "n + (length (buf d) - (rpos d + n)) = length (buf d) - rpos d" using assms(1) by simp
  then have "(of_nat n :: u64) + of_nat (length (buf d) - (rpos d + n)) = of_nat (length (buf d) - rpos d)"
    by (metis of_nat_add)
  then have "total_bytes ?d1 = total_bytes d" "reported ?d1 = reported d"
    by (simp_all add: total_bytes_def reported_def buffered_def algebra_simps del: of_nat_diff)
  moreover have "total_bytes (compact d') = total_bytes d'" "reported (compact d') = reported d'" for d'
    by (simp_all add: total_bytes_def reported_def)
  ultimately show ?thesis by (simp add: balanced_def assms(2) account_seq_balanced)
qed

lemma balanced_bump: "balanced (d\<lparr>dstats := s\<rparr>) d' k \<Longrightarrow> bytes_consumed s = bytes_consumed (dstats d) \<Longrightarrow>
    bytes_discarded s = bytes_discarded (dstats d) \<Longrightarrow> seq_missing s = seq_missing (dstats d) \<Longrightarrow> balanced d d' k"
  by (simp add: balanced_def total_bytes_def reported_def buffered_def)

fun turn_balanced :: "FrameDecoder \<Rightarrow> turn \<Rightarrow> bool" where
  "turn_balanced d (NeedMore d') = balanced d d' 0"
| "turn_balanced d (Again d') = balanced d d' 0"
| "turn_balanced d (Deliver m d') = balanced d d' (gap_before m)"

lemma after_resync_turn:
  assumes "rpos d + kHeaderSize \<le> length (buf d)" "d1 = d\<lparr>dstats := s\<rparr>" "bytes_consumed s = bytes_consumed (dstats d)"
    "bytes_discarded s = bytes_discarded (dstats d)" "seq_missing s = seq_missing (dstats d)"
  shows "turn_balanced d (after_resync d1)"
proof -
  have "rpos d1 + kHeaderSize \<le> length (buf d1)" using assms(1,2) by simp
  note after = after_resync_balanced [OF this]
  show ?thesis
  proof (cases "after_resync d1")
    case (NeedMore d')
    then show ?thesis using after [of d'] balanced_bump [OF _ assms(3-5)] assms(2) by simp
  next
    case (Again d')
    then show ?thesis using after [of d'] balanced_bump [OF _ assms(3-5)] assms(2) by simp
  next
    case (Deliver m d')
    then show ?thesis by (auto simp: after_resync_def split: prod.splits if_splits)
  qed
qed

lemma next_turn_balanced: "turn_balanced d (next_turn d)"
proof (cases "length (buf d) - rpos d < kHeaderSize")
  case True
  then show ?thesis by (simp add: next_turn_def balanced_def)
next
  case False
  then have fit: "rpos d + kHeaderSize \<le> length (buf d)" by (simp add: kHeaderSize_def)
  note bad = after_resync_turn [OF fit]
  let ?n = "kHeaderSize + unat (load_be32 (rpos d + 4) (buf d))"
  define d2 where "d2 = compact (account_seq (load_be64 (rpos d + 8) (buf d)) (bump frames_decoded_update
      (add_to bytes_consumed_update (of_nat ?n) (d\<lparr>rpos := rpos d + ?n\<rparr>))))"
  have good: "balanced d d2 0" if "\<not> length (buf d) - rpos d < ?n"
    using that fit by (intro accept_balanced [OF _ d2_def]) auto
  have up: "balanced d (d2\<lparr>pending_gap := 0\<rparr>) (pending_gap d2)" "balanced d (bump unknown_type_update d2) 0"
    if "balanced d d2 0"
    using that by (simp_all add: balanced_def total_bytes_def reported_def buffered_def diff_eq_eq)
  show ?thesis
    using False good up bad unfolding next_turn_def Let_def d2_def [symmetric] by (auto simp: balanced_def)
qed

lemma balanced_trans: "balanced d d1 j \<Longrightarrow> balanced d1 d2 k \<Longrightarrow> balanced d d2 (j + k)"
  by (simp add: balanced_def add.assoc)

lemma next_message_balanced:
  "next_message d = (mo, d') \<Longrightarrow> balanced d d' (case mo of None \<Rightarrow> 0 | Some m \<Rightarrow> gap_before m)"
proof (induction d rule: next_message.induct)
  case (1 d)
  show ?case
  proof (cases "next_turn d")
    case (NeedMore d1)
    then show ?thesis using "1.prems" next_turn_balanced [of d] by (auto simp: next_message.simps [of d])
  next
    case (Again d1)
    then have "next_message d1 = (mo, d')" using "1.prems" by (simp add: next_message.simps [of d])
    then show ?thesis
      using "1.IH" [OF Again] next_turn_balanced [of d] balanced_trans [of d d1 0] Again by simp
  next
    case (Deliver m d1)
    then show ?thesis using "1.prems" next_turn_balanced [of d] by (auto simp: next_message.simps [of d])
  qed
qed

lemma drain_balanced: "drain d = (ms, d') \<Longrightarrow> balanced d d' (sum_list (map gap_before ms))"
proof (induction d arbitrary: ms rule: drain.induct)
  case (1 d)
  obtain mo d1 where n: "next_message d = (mo, d1)" by (cases "next_message d")
  show ?case
  proof (cases mo)
    case None
    then show ?thesis using n "1.prems" next_message_balanced [OF n] by (simp add: drain.simps [of d])
  next
    case (Some m)
    obtain ms1 where dr: "drain d1 = (ms1, d')" "ms = m # ms1"
      using n Some "1.prems" by (auto simp: drain.simps [of d] split: prod.splits)
    then show ?thesis
      using "1.IH" [OF n [symmetric] Some] next_message_balanced [OF n] Some by (auto intro: balanced_trans)
  qed
qed

lemma feed_totals:
  assumes "decoder_ok d"
  shows "total_bytes (feed c d) = total_bytes d + of_nat (length c)" and "reported (feed c d) = reported d"
proof -
  have "buffered (feed c d) = buffered d + length c"
    using rest_feed [OF assms, of c] by (simp flip: length_rest)
  moreover have "dstats (feed c d) = dstats d" "pending_gap (feed c d) = pending_gap d"
    by (simp_all add: feed_def Let_def)
  ultimately show "total_bytes (feed c d) = total_bytes d + of_nat (length c)" "reported (feed c d) = reported d"
    by (simp_all add: total_bytes_def reported_def)
qed

lemma receive_totals:
  "decoder_ok d \<Longrightarrow> receive d chunks = (ms, d') \<Longrightarrow>
   total_bytes d' = total_bytes d + of_nat (length (concat chunks))
   \<and> reported d' = reported d + sum_list (map gap_before ms)"
proof (induction chunks arbitrary: d ms)
  case (Cons c cs)
  obtain ms1 d1 ms2 where dr: "drain (feed c d) = (ms1, d1)" "receive d1 cs = (ms2, d')" "ms = ms1 @ ms2"
    using Cons.prems(2) by (auto split: prod.splits)
  have "decoder_ok d1" using drain_refines [OF feed_ok [OF Cons.prems(1)] dr(1)] by (simp add: refines_def)
  from Cons.IH [OF this dr(2)] drain_balanced [OF dr(1)] feed_totals [OF Cons.prems(1), of c]
  show ?case by (simp add: balanced_def dr(3))
qed simp

text \<open>
  The decoder's books balance on any input in any cut: the bytes it counts as consumed and as
  discarded and the bytes it still holds are all the bytes that came in; and no missing message is
  dropped from the account: those counted missing are the gaps reported on the delivered messages
  and the gap still pending, also when the gap showed on a frame of unknown type (all counters
  modulo \<open>2\<^sup>6\<^sup>4\<close>).
\<close>

theorem decoder_accounts:
  assumes "receive (new_decoder mb) chunks = (ms, d)"
  shows "bytes_consumed (dstats d) + bytes_discarded (dstats d) + of_nat (buffered d) = of_nat (length (concat chunks))
    \<and> seq_missing (dstats d) = sum_list (map gap_before ms) + pending_gap d"
proof -
  have "decoder_ok (new_decoder mb)" by (simp add: decoder_ok_def new_decoder_def)
  from receive_totals [OF this assms] show ?thesis
    by (simp add: total_bytes_def reported_def new_decoder_def no_stats_def buffered_def diff_eq_eq)
qed

section \<open>Witnesses\<close>

definition heartbeat :: "u64 \<Rightarrow> Message" where
  "heartbeat n = \<lparr>mtype = Heartbeat, mseq = n, gap_before = 0, body = empty_body\<rparr>"

definition tick :: "u64 \<Rightarrow> Message" where
  "tick n = \<lparr>mtype = Trade, mseq = n, gap_before = 0,
     body = TradeBody \<lparr>tr_symbol = 7, tr_price = 10050, tr_qty = - 3, tr_ts_ns = 12\<rparr>\<rparr>"

lemma samples_ok: "message_ok (heartbeat n)" "message_ok (tick n)"
  by (simp_all add: message_ok_def heartbeat_def tick_def i64_ok_def)

theorem decode_split_invariant_witness:
  "fst (receive (new_decoder 64) [take 7 (encoded (tick 1)), drop 7 (encoded (tick 1))])
   = fst (receive (new_decoder 64) [encoded (tick 1)])"
  using decode_split_invariant [of 64 "[take 7 (encoded (tick 1)), drop 7 (encoded (tick 1))]" "[encoded (tick 1)]", THEN conjunct2]
  by (simp del: receive.simps)

text \<open>Two frames, one byte per read.\<close>

theorem stream_roundtrip_witness:
  "fst (receive (new_decoder 64) (map (\<lambda>b. [b]) (encoded (tick 1) @ encoded (heartbeat 2)))) = [tick 1, heartbeat 2]"
  using stream_roundtrip [of "[tick 1, heartbeat 2]" 64
      "map (\<lambda>b. [b]) (encoded (tick 1) @ encoded (heartbeat 2))" 1] samples_ok
  by (simp add: concat_map_singleton [where f = "\<lambda>b. b"]) (simp add: tick_def heartbeat_def)

lemma heartbeat_bytes:
  "encoded (heartbeat 5) = [0x4B, 0x58, 1, 0, 0, 0, 0, 0, 0, 0, 0, 0, 0, 0, 0, 5, 0xFF, 0xFF, 0, 0]"
  by code_simp

theorem resync_recovers_witness:
  "fst (receive (new_decoder 64) [[9, 1], [2, 3], encoded (heartbeat 5)]) = [heartbeat 5]"
proof -
  let ?s = "concat (map encoded [heartbeat 5])"
  have bad: "classify 64 (9 # [1, 2, 3] @ ?s) = Bad"
    by (rule classify_no_magic) (simp_all add: heartbeat_bytes kHeaderSize_def kMagic_def load_be16_def)
  have junk: "junk_before ([1, 2, 3] @ ?s) ?s"
    unfolding junk_before_def
    by (rule exI [of _ "[1, 2, 3]"])
      (simp add: heartbeat_bytes kMagic_def load_be16_def All_less_Suc)
  from resync_recovers [OF _ _ _ bad junk, of "[[9, 1], [2, 3], encoded (heartbeat 5)]"] samples_ok
  show ?thesis by (simp add: heartbeat_def)
qed

theorem decoder_accounts_witness:
  "\<exists>ms d. receive (new_decoder 64) [[9, 1], [2, 3], encoded (heartbeat 5)] = (ms, d)
    \<and> bytes_consumed (dstats d) + bytes_discarded (dstats d) + of_nat (buffered d) = 24"
proof -
  obtain ms d where r: "receive (new_decoder 64) [[9, 1], [2, 3], encoded (heartbeat 5)] = (ms, d)"
    by (cases "receive (new_decoder 64) [[9, 1], [2, 3], encoded (heartbeat 5)]")
  have "length (concat [[9, 1], [2, 3], encoded (heartbeat 5)]) = 24" by (simp add: heartbeat_bytes)
  with decoder_accounts [OF r] show ?thesis using r by (metis of_nat_numeral)
qed

end
