(* ===== verification/Flat_Config.thy ===== *)
theory Flat_Config
  imports Prelude "HOL-Library.List_Lexorder" "HOL-Library.Char_ord"
begin

text \<open>
  The flat configuration loader, \<^verbatim>\<open>include/lloms/config.hpp\<close>.  The hash map is an association
  list with ascending keys: its own order is never observed, since \<^verbatim>\<open>keys\<close> sorts.  Strings
  compare as \<^verbatim>\<open>std::string\<close> does, by the codes of their characters.
\<close>

section \<open>Characters and numbers\<close>

text \<open>\<^verbatim>\<open>isspace\<close>, \<^verbatim>\<open>isdigit\<close> and \<^verbatim>\<open>tolower\<close> in the C locale.\<close>

definition isspace :: "char \<Rightarrow> bool" where
  "isspace c \<longleftrightarrow> c = CHR '' '' \<or> 9 \<le> (of_char c :: nat) \<and> (of_char c :: nat) \<le> 13"

definition isdigit :: "char \<Rightarrow> bool" where
  "isdigit c \<longleftrightarrow> 48 \<le> (of_char c :: nat) \<and> (of_char c :: nat) \<le> 57"

definition tolower :: "char \<Rightarrow> char" where
  "tolower c = (if 65 \<le> (of_char c :: nat) \<and> (of_char c :: nat) \<le> 90 then char_of (of_char c + 32 :: nat) else c)"

definition digit :: "char \<Rightarrow> nat" where
  "digit c = of_char c - 48"

definition trim :: "string \<Rightarrow> string" where
  "trim s = rev (dropWhile isspace (rev (dropWhile isspace s)))"

definition digits_value :: "string \<Rightarrow> nat" where
  "digits_value ds = foldl (\<lambda>n c. 10 * n + digit c) 0 ds"

text \<open>
  \<^verbatim>\<open>std::stoll\<close>: leading white space, an optional sign, the longest run of digits; it throws when
  there is no digit and when the value is out of range, and ignores what follows the digits.
\<close>

definition stoll :: "string \<Rightarrow> int option" where
  "stoll s =
     (let t = dropWhile isspace s;
          neg = (case t of c # _ \<Rightarrow> c = CHR ''-'' | [] \<Rightarrow> False);
          u = (case t of c # r \<Rightarrow> if c = CHR ''-'' \<or> c = CHR ''+'' then r else t | [] \<Rightarrow> []);
          ds = takeWhile isdigit u;
          v = (if neg then - int (digits_value ds) else int (digits_value ds))
      in if ds = [] then None else if i64_ok v then Some v else None)"

section \<open>The configuration\<close>

record Config =
  kv :: "(string, string) smap"

definition empty_config :: Config where
  "empty_config = \<lparr>kv = []\<rparr>"

definition parse_line :: "string \<Rightarrow> Config \<Rightarrow> Config" where
  "parse_line line0 c =
     (let line = takeWhile (\<lambda>ch. ch \<noteq> CHR ''#'') line0;
          before_colon = takeWhile (\<lambda>ch. ch \<noteq> CHR '':'') line
      in if length before_colon = length line then c
         else
           let key = trim before_colon; val = trim (drop (length before_colon + 1) line)
           in if key \<noteq> [] then c\<lparr>kv := smap_put key val (kv c)\<rparr> else c)"

text \<open>
  \<^verbatim>\<open>std::getline\<close> until the stream is exhausted: the pieces between newlines, the last one only if
  it is not empty.
\<close>

fun getlines :: "string \<Rightarrow> string \<Rightarrow> string list" where
  "getlines acc [] = (if acc = [] then [] else [acc])"
| "getlines acc (c # s) = (if c = CHR 0x0A then acc # getlines [] s else getlines (acc @ [c]) s)"

definition from_string :: "string \<Rightarrow> Config" where
  "from_string text = fold parse_line (getlines [] text) empty_config"

text \<open>\<open>read\<close> is the file system: the content of a readable file; an unreadable one reads as empty.\<close>

definition from_file :: "(string \<Rightarrow> string option) \<Rightarrow> string \<Rightarrow> Config" where
  "from_file read path = from_string (case read path of None \<Rightarrow> [] | Some text \<Rightarrow> text)"

definition has :: "Config \<Rightarrow> string \<Rightarrow> bool" where
  "has c key \<longleftrightarrow> map_of (kv c) key \<noteq> None"

definition get_str :: "Config \<Rightarrow> string \<Rightarrow> string \<Rightarrow> string" where
  "get_str c key fallback = (case map_of (kv c) key of None \<Rightarrow> fallback | Some v \<Rightarrow> v)"

definition get_int :: "Config \<Rightarrow> string \<Rightarrow> int \<Rightarrow> int" where
  "get_int c key fallback =
     (case map_of (kv c) key of
        None \<Rightarrow> fallback
      | Some v \<Rightarrow> (case stoll v of None \<Rightarrow> fallback | Some n \<Rightarrow> n))"

definition config_size :: "Config \<Rightarrow> nat" where
  "config_size c = length (kv c)"

definition keys :: "Config \<Rightarrow> string list" where
  "keys c = map fst (kv c)"

section \<open>Lemmas\<close>

lemma dropWhile_hd: "dropWhile P s \<noteq> [] \<Longrightarrow> \<not> P (hd (dropWhile P s))"
  by (induction s) auto

lemma trim_id: "s = [] \<or> \<not> isspace (hd s) \<and> \<not> isspace (last s) \<Longrightarrow> trim s = s"
proof (cases "s = []")
  case False
  assume "s = [] \<or> \<not> isspace (hd s) \<and> \<not> isspace (last s)"
  then have "dropWhile isspace s = s" "dropWhile isspace (rev s) = rev s"
    using False by (simp_all add: dropWhile_eq_self_iff hd_rev)
  then show ?thesis by (simp add: trim_def)
qed (simp add: trim_def)

text \<open>What trimming leaves has no white space at either end.\<close>

definition trimmed :: "string \<Rightarrow> bool" where
  "trimmed s \<longleftrightarrow> s = [] \<or> \<not> isspace (hd s) \<and> \<not> isspace (last s)"

lemma trimmed_trim: "trimmed (trim s)"
proof -
  define a where "a = dropWhile isspace s"
  define b where "b = dropWhile isspace (rev a)"
  obtain p where "rev a = p @ b" unfolding b_def by (metis takeWhile_dropWhile_id)
  then have a: "a = rev b @ rev p" by (metis rev_append rev_rev_ident)
  show ?thesis
  proof (cases "b = []")
    case False
    then have "\<not> isspace (hd b)" unfolding b_def by (rule dropWhile_hd)
    moreover have "a \<noteq> []" "hd a = hd (rev b)" using a False by simp_all
    moreover from this(1) have "\<not> isspace (hd a)" unfolding a_def by (rule dropWhile_hd)
    ultimately show ?thesis using False by (simp add: trimmed_def trim_def last_rev flip: a_def b_def)
  qed (simp add: trimmed_def trim_def flip: a_def b_def)
qed

lemma trim_trimmed [simp]: "trimmed s \<Longrightarrow> trim s = s"
  by (simp add: trimmed_def trim_id)

lemma parse_line_ok: "smap_ok (kv c) \<Longrightarrow> smap_ok (kv (parse_line l c))"
  by (simp add: parse_line_def Let_def smap_simps)

lemma from_string_ok: "smap_ok (kv (from_string text))"
proof -
  have "smap_ok (kv c) \<Longrightarrow> smap_ok (kv (fold parse_line ls c))" for ls c
    by (induction ls arbitrary: c) (simp_all add: parse_line_ok)
  then show ?thesis by (simp add: from_string_def empty_config_def)
qed

section \<open>Round trip of a configuration\<close>

text \<open>A key and a value that the format can carry, the line that carries them, and a whole file.\<close>

definition plain :: "string \<Rightarrow> bool" where
  "plain s \<longleftrightarrow> trimmed s \<and> CHR ''#'' \<notin> set s \<and> CHR 0x0A \<notin> set s"

definition entry_ok :: "string \<times> string \<Rightarrow> bool" where
  "entry_ok e \<longleftrightarrow> plain (fst e) \<and> fst e \<noteq> [] \<and> CHR '':'' \<notin> set (fst e) \<and> plain (snd e)"

definition entry_line :: "string \<times> string \<Rightarrow> string" where
  "entry_line e = fst e @ '': '' @ snd e"

definition render :: "(string \<times> string) list \<Rightarrow> string" where
  "render es = concat (map (\<lambda>e. entry_line e @ [CHR 0x0A]) es)"

lemma getlines_line: "CHR 0x0A \<notin> set l \<Longrightarrow> getlines acc (l @ CHR 0x0A # s) = (acc @ l) # getlines [] s"
  by (induction l arbitrary: acc) auto

lemma getlines_render: "\<forall>e\<in>set es. entry_ok e \<Longrightarrow> getlines [] (render es) = map entry_line es"
proof (induction es)
  case (Cons e es)
  then have "CHR 0x0A \<notin> set (entry_line e)" by (auto simp: entry_ok_def plain_def entry_line_def)
  then show ?case using Cons getlines_line [of "entry_line e" "[]" "render es"] by (simp add: render_def)
qed (simp add: render_def)

lemma takeWhile_all: "\<forall>x\<in>set xs. P x \<Longrightarrow> takeWhile P xs = xs"
  by (induction xs) auto

lemma trim_space_front: "trim (CHR '' '' # s) = trim s"
  by (simp add: trim_def isspace_def)

lemma parse_entry:
  assumes "entry_ok e"
  shows "parse_line (entry_line e) c = c\<lparr>kv := smap_put (fst e) (snd e) (kv c)\<rparr>"
proof -
  define line where "line = entry_line e"
  have t1: "takeWhile (\<lambda>ch. ch \<noteq> CHR ''#'') line = line"
    unfolding line_def using assms
    by (intro takeWhile_all) (auto simp: entry_ok_def plain_def entry_line_def)
  have t2: "takeWhile (\<lambda>ch. ch \<noteq> CHR '':'') line = fst e"
    unfolding line_def entry_line_def using assms by (subst takeWhile_append2) (auto simp: entry_ok_def)
  have "length (fst e) \<noteq> length line" "drop (length (fst e) + 1) line = CHR '' '' # snd e"
    by (simp_all add: line_def entry_line_def)
  moreover have "trim (fst e) = fst e" "trim (CHR '' '' # snd e) = snd e" "fst e \<noteq> []"
    using assms by (simp_all add: entry_ok_def plain_def trim_space_front)
  ultimately show ?thesis unfolding line_def [symmetric] parse_line_def Let_def t1 t2 by simp
qed

lemma lookup_fold_put:
  "map_of (kv (fold (\<lambda>e c. c\<lparr>kv := smap_put (fst e) (snd e) (kv c)\<rparr>) es c)) = map_of (kv c) ++ map_of (rev es)"
  by (induction es arbitrary: c) (simp_all add: map_of_smap_put map_add_def fun_eq_iff split: option.splits)

text \<open>
  A configuration survives being written out and read back: from a file of \<^verbatim>\<open>key: value\<close> lines
  every key has the value of its last line and no other key appears, comments and white space
  apart from the format never leak into a value, and \<^verbatim>\<open>keys\<close> lists exactly the keys present, in
  ascending order.
\<close>

theorem config_roundtrip:
  assumes "\<forall>e\<in>set es. entry_ok e"
  shows "get_str (from_string (render es)) k fallback = (case map_of (rev es) k of None \<Rightarrow> fallback | Some v \<Rightarrow> v)
    \<and> (has (from_string (render es)) k \<longleftrightarrow> k \<in> fst ` set es)
    \<and> sorted_wrt (<) (keys (from_string (render es))) \<and> set (keys (from_string (render es))) = fst ` set es"
proof -
  have "fold parse_line (map entry_line es) c = fold (\<lambda>e c. c\<lparr>kv := smap_put (fst e) (snd e) (kv c)\<rparr>) es c" for c
    using assms by (induction es arbitrary: c) (simp_all add: parse_entry)
  then have m: "map_of (kv (from_string (render es))) = map_of (rev es)"
    using lookup_fold_put [of es empty_config] by (simp add: from_string_def getlines_render [OF assms] empty_config_def)
  have d: "fst ` set (kv (from_string (render es))) = fst ` set es"
    using m dom_map_of_conv_image_fst [of "kv (from_string (render es))"] dom_map_of_conv_image_fst [of "rev es"] by simp
  have "has (from_string (render es)) k \<longleftrightarrow> k \<in> fst ` set es"
    using dom_map_of_conv_image_fst [of "kv (from_string (render es))"] d by (auto simp: has_def)
  then show ?thesis using m d from_string_ok [of "render es"] by (simp add: get_str_def keys_def)
qed

theorem config_roundtrip_witness:
  "get_str (from_string (render [(''port'', ''9001''), (''port'', ''9002'')])) ''port'' [] = ''9002''"
proof -
  have "\<forall>e\<in>set [(''port'', ''9001''), (''port'', ''9002'')]. entry_ok e"
    by (simp add: entry_ok_def plain_def trimmed_def isspace_def)
  from config_roundtrip [OF this, of "''port''" "[]"] show ?thesis by simp
qed

section \<open>Numbers\<close>

text \<open>Decimal notation, and that the digit loops read it back.\<close>

fun show_nat :: "nat \<Rightarrow> string" where
  "show_nat n = (if n < 10 then [char_of (48 + n)] else show_nat (n div 10) @ [char_of (48 + n mod 10)])"

declare show_nat.simps [simp del]

definition show_int :: "int \<Rightarrow> string" where
  "show_int z = (if z < 0 then CHR ''-'' # show_nat (nat (- z)) else show_nat (nat z))"

lemma of_char_digit: "d < 10 \<Longrightarrow> (of_char (char_of (48 + d :: nat)) :: nat) = 48 + d"
  by simp

lemma digits_value_snoc: "digits_value (ds @ [c]) = 10 * digits_value ds + digit c"
  by (simp add: digits_value_def)

lemma show_nat_digits:
  "digits_value (show_nat n) = n \<and> show_nat n \<noteq> [] \<and> (\<forall>c\<in>set (show_nat n). isdigit c)"
proof (induction n rule: show_nat.induct)
  case (1 n)
  show ?case
  proof (cases "n < 10")
    case True
    then show ?thesis
      using of_char_digit [OF True] by (simp add: show_nat.simps [of n] digits_value_def digit_def isdigit_def)
  next
    case False
    have d: "n mod 10 < 10" by simp
    have "10 * (n div 10) + n mod 10 = n" by simp
    then show ?thesis
      using 1 [OF False] False of_char_digit [OF d]
      by (simp add: show_nat.simps [of n] digits_value_snoc digit_def isdigit_def)
  qed
qed

lemma digit_not_space: "isdigit c \<Longrightarrow> \<not> isspace c \<and> c \<noteq> CHR ''-'' \<and> c \<noteq> CHR ''+''"
  by (auto simp: isdigit_def isspace_def)

lemma stoll_show_int:
  assumes "i64_ok z"
  shows "stoll (show_int z) = Some z"
proof -
  define ds where "ds = show_nat (nat \<bar>z\<bar>)"
  have ds: "digits_value ds = nat \<bar>z\<bar>" "ds \<noteq> []" "\<forall>c\<in>set ds. isdigit c"
    using show_nat_digits [of "nat \<bar>z\<bar>"] by (simp_all add: ds_def)
  have tw: "takeWhile isdigit ds = ds" by (rule takeWhile_all [OF ds(3)])
  obtain c cs where c: "ds = c # cs" "isdigit c" using ds(2,3) by (cases ds) auto
  have dw: "dropWhile isspace ds = ds" using digit_not_space [OF c(2)] c(1) by simp
  show ?thesis
  proof (cases "z < 0")
    case True
    then have "show_int z = CHR ''-'' # ds" by (simp add: show_int_def ds_def)
    then show ?thesis
      using True assms ds(1,2) tw by (simp add: stoll_def Let_def isspace_def del: takeWhile_eq_all_conv)
  next
    case False
    then have "show_int z = ds" by (simp add: show_int_def ds_def)
    then show ?thesis
      using False assms ds(1,2) tw dw digit_not_space [OF c(2)] c(1)
      by (simp add: stoll_def Let_def del: takeWhile_eq_all_conv)
  qed
qed

text \<open>
  Every 64-bit integer that is written in decimal is read back as itself by \<^verbatim>\<open>get_int\<close>, the extremes
  included; an absent key, a value without digits and a value beyond 64 bits give the fallback,
  never an exception.
\<close>

theorem get_int_roundtrip:
  assumes "i64_ok z"
  shows "get_int \<lparr>kv = [(k, show_int z)]\<rparr> k fallback = z
    \<and> get_int \<lparr>kv = []\<rparr> k fallback = fallback
    \<and> (takeWhile isdigit v = [] \<and> \<not> isspace (hd v) \<and> hd v \<noteq> CHR ''-'' \<and> hd v \<noteq> CHR ''+'' \<longrightarrow>
        get_int \<lparr>kv = [(k, v)]\<rparr> k fallback = fallback)
    \<and> (\<not> i64_ok (int n) \<longrightarrow> get_int \<lparr>kv = [(k, show_nat n)]\<rparr> k fallback = fallback)"
proof (intro conjI impI)
  show "get_int \<lparr>kv = [(k, show_int z)]\<rparr> k fallback = z" by (simp add: get_int_def stoll_show_int [OF assms])
  show "get_int \<lparr>kv = []\<rparr> k fallback = fallback" by (simp add: get_int_def)
next
  assume "takeWhile isdigit v = [] \<and> \<not> isspace (hd v) \<and> hd v \<noteq> CHR ''-'' \<and> hd v \<noteq> CHR ''+''"
  then have "stoll v = None" by (cases v) (simp_all add: stoll_def Let_def)
  then show "get_int \<lparr>kv = [(k, v)]\<rparr> k fallback = fallback" by (simp add: get_int_def)
next
  assume big: "\<not> i64_ok (int n)"
  have ds: "digits_value (show_nat n) = n" "\<forall>c\<in>set (show_nat n). isdigit c" using show_nat_digits by simp_all
  obtain c cs where c: "show_nat n = c # cs" "isdigit c" using show_nat_digits [of n] by (cases "show_nat n") auto
  have "takeWhile isdigit (c # cs) = c # cs" using takeWhile_all [OF ds(2)] c(1) by simp
  then have "stoll (c # cs) = None"
    using big ds(1) c digit_not_space [OF c(2)]
    by (simp add: stoll_def Let_def del: takeWhile_eq_all_conv takeWhile.simps)
  then show "get_int \<lparr>kv = [(k, show_nat n)]\<rparr> k fallback = fallback" by (simp add: get_int_def c(1))
qed

theorem get_int_roundtrip_witness:
  "get_int \<lparr>kv = [(''seq'', show_int (- (2 ^ 63)))]\<rparr> ''seq'' 7 = - (2 ^ 63)"
  using get_int_roundtrip [of "- (2 ^ 63)" "''seq''" 7] by (simp add: i64_ok_def)

end
