(* ===== verification/Order_Router.thy ===== *)
theory Order_Router
  imports Order_Types Flat_Config
begin

text \<open>
  The order router, \<^verbatim>\<open>include/lloms/order_router.hpp\<close> and \<^verbatim>\<open>src/order_router.cpp\<close>: venues and their
  sessions, the routing table, client order identifiers, and the construction from a configuration.
\<close>

section \<open>Data\<close>

type_synonym VenueId = u16

definition kNoVenue :: VenueId where
  "kNoVenue = 0"

datatype VenueState = Down | Up | DrainOnly

datatype RouteDecision =
    Routed | RejectRouterNotConfigured | RejectInvalidOrder | RejectUnknownSymbol | RejectVenueDown
  | RejectVenueDraining | RejectIdSpaceExhausted

definition to_string_VenueState :: "VenueState \<Rightarrow> string" where
  "to_string_VenueState s = (case s of Down \<Rightarrow> ''down'' | Up \<Rightarrow> ''up'' | DrainOnly \<Rightarrow> ''drain-only'')"

definition reason :: "RouteDecision \<Rightarrow> string" where
  "reason d = (case d of
     Routed \<Rightarrow> ''routed'' | RejectRouterNotConfigured \<Rightarrow> ''router-not-configured''
   | RejectInvalidOrder \<Rightarrow> ''invalid-order'' | RejectUnknownSymbol \<Rightarrow> ''no-route-for-symbol''
   | RejectVenueDown \<Rightarrow> ''venue-down'' | RejectVenueDraining \<Rightarrow> ''venue-draining''
   | RejectIdSpaceExhausted \<Rightarrow> ''client-order-id-space-exhausted'')"

record RouteRequest =
  req_order :: Order
  liquidating :: bool

record RouteResult =
  decision :: RouteDecision
  res_venue :: VenueId
  client_order_id :: u64
  res_venue_seq :: u64

record RouterStats =
  routed :: u64
  rejected_not_configured :: u64
  rejected_invalid :: u64
  rejected_unknown_symbol :: u64
  rejected_venue_down :: u64
  rejected_draining :: u64
  rejected_id_exhausted :: u64

record Venue =
  v_name :: string
  v_state :: VenueState
  v_seq :: u64
  v_routed :: u64

record OrderRouter =
  epoch :: u32
  counter_bits :: nat
  counter_max :: u64
  counter :: u64
  valid :: bool
  venues :: "Venue list"
  routes :: "Symbol \<rightharpoonup> VenueId"
  rstats :: RouterStats

definition no_rstats :: RouterStats where
  "no_rstats = \<lparr>routed = 0, rejected_not_configured = 0, rejected_invalid = 0, rejected_unknown_symbol = 0,
     rejected_venue_down = 0, rejected_draining = 0, rejected_id_exhausted = 0\<rparr>"

definition new_router :: "u32 \<Rightarrow> nat \<Rightarrow> OrderRouter" where
  "new_router session_epoch bits =
     (let r = \<lparr>epoch = session_epoch, counter_bits = bits, counter_max = 0, counter = 1, valid = False,
                venues = [], routes = Map.empty, rstats = no_rstats\<rparr>
      in if bits < 1 \<or> bits > 48 then r
         else
           let epoch_bits = 64 - bits;
               epoch_max = (if epoch_bits \<ge> 64 then - 1 else push_bit epoch_bits 1 - 1)
           in r\<lparr>counter_max := push_bit bits 1 - 1, valid := ucast session_epoch \<le> (epoch_max :: u64)\<rparr>)"

section \<open>The venue registry and the routing table\<close>

text \<open>A venue pointer is the position in the vector; \<open>None\<close> is the null pointer.\<close>

definition venue_ptr :: "VenueId \<Rightarrow> OrderRouter \<Rightarrow> nat option" where
  "venue_ptr venue r = (if venue = kNoVenue \<or> unat venue > length (venues r) then None else Some (unat venue - 1))"

fun find_name :: "string \<Rightarrow> nat \<Rightarrow> Venue list \<Rightarrow> VenueId" where
  "find_name name i [] = kNoVenue"
| "find_name name i (v # vs) = (if v_name v = name then of_nat (i + 1) else find_name name (i + 1) vs)"

definition find_venue :: "string \<Rightarrow> OrderRouter \<Rightarrow> VenueId" where
  "find_venue name r = find_name name 0 (venues r)"

definition add_venue :: "string \<Rightarrow> VenueState \<Rightarrow> OrderRouter \<Rightarrow> VenueId \<times> OrderRouter" where
  "add_venue name initial r =
     (if name = [] \<or> length (venues r) \<ge> 0xFFFE \<or> find_venue name r \<noteq> kNoVenue then (kNoVenue, r)
      else
        let r' = r\<lparr>venues := venues r @ [\<lparr>v_name = name, v_state = initial, v_seq = 0, v_routed = 0\<rparr>]\<rparr>
        in (of_nat (length (venues r')), r'))"

definition upd_venue :: "nat \<Rightarrow> (Venue \<Rightarrow> Venue) \<Rightarrow> OrderRouter \<Rightarrow> OrderRouter" where
  "upd_venue i f r = r\<lparr>venues := (venues r)[i := f (venues r ! i)]\<rparr>"

definition set_venue_state :: "VenueId \<Rightarrow> VenueState \<Rightarrow> OrderRouter \<Rightarrow> bool \<times> OrderRouter" where
  "set_venue_state venue st r =
     (case venue_ptr venue r of None \<Rightarrow> (False, r) | Some i \<Rightarrow> (True, upd_venue i (\<lambda>v. v\<lparr>v_state := st\<rparr>) r))"

definition venue_state :: "VenueId \<Rightarrow> OrderRouter \<Rightarrow> VenueState" where
  "venue_state venue r = (case venue_ptr venue r of None \<Rightarrow> Down | Some i \<Rightarrow> v_state (venues r ! i))"

definition venue_name :: "VenueId \<Rightarrow> OrderRouter \<Rightarrow> string" where
  "venue_name venue r = (case venue_ptr venue r of None \<Rightarrow> [] | Some i \<Rightarrow> v_name (venues r ! i))"

definition on_logon :: "VenueId \<Rightarrow> OrderRouter \<Rightarrow> OrderRouter" where
  "on_logon venue r =
     (case venue_ptr venue r of None \<Rightarrow> r | Some i \<Rightarrow> upd_venue i (\<lambda>v. v\<lparr>v_seq := 0, v_state := Up\<rparr>) r)"

definition on_disconnect :: "VenueId \<Rightarrow> OrderRouter \<Rightarrow> OrderRouter" where
  "on_disconnect venue r =
     (case venue_ptr venue r of None \<Rightarrow> r | Some i \<Rightarrow> upd_venue i (\<lambda>v. v\<lparr>v_state := Down\<rparr>) r)"

definition venue_seq :: "VenueId \<Rightarrow> OrderRouter \<Rightarrow> u64" where
  "venue_seq venue r = (case venue_ptr venue r of None \<Rightarrow> 0 | Some i \<Rightarrow> v_seq (venues r ! i))"

definition venue_routed :: "VenueId \<Rightarrow> OrderRouter \<Rightarrow> u64" where
  "venue_routed venue r = (case venue_ptr venue r of None \<Rightarrow> 0 | Some i \<Rightarrow> v_routed (venues r ! i))"

definition map_symbol :: "Symbol \<Rightarrow> VenueId \<Rightarrow> OrderRouter \<Rightarrow> bool \<times> OrderRouter" where
  "map_symbol symbol venue r =
     (if venue_ptr venue r = None then (False, r) else (True, r\<lparr>routes := (routes r)(symbol \<mapsto> venue)\<rparr>))"

definition unmap_symbol :: "Symbol \<Rightarrow> OrderRouter \<Rightarrow> bool \<times> OrderRouter" where
  "unmap_symbol symbol r = (routes r symbol \<noteq> None, r\<lparr>routes := (routes r)(symbol := None)\<rparr>)"

definition venue_for :: "Symbol \<Rightarrow> OrderRouter \<Rightarrow> VenueId" where
  "venue_for symbol r = (case routes r symbol of None \<Rightarrow> kNoVenue | Some v \<Rightarrow> v)"

definition ids_issued :: "OrderRouter \<Rightarrow> u64" where
  "ids_issued r = counter r - 1"

section \<open>Routing\<close>

abbreviation bump :: "((u64 \<Rightarrow> u64) \<Rightarrow> RouterStats \<Rightarrow> RouterStats) \<Rightarrow> OrderRouter \<Rightarrow> OrderRouter" where
  "bump upd r \<equiv> r\<lparr>rstats := upd (\<lambda>n. n + 1) (rstats r)\<rparr>"

definition make_id :: "OrderRouter \<Rightarrow> u64" where
  "make_id r = push_bit (counter_bits r) (ucast (epoch r)) OR counter r"

text \<open>\<open>None\<close>: the venue pointer that is dereferenced is null.\<close>

definition route :: "RouteRequest \<Rightarrow> OrderRouter \<Rightarrow> (RouteResult \<times> OrderRouter) option" where
  "route req r =
     (let res = \<lparr>decision = RejectRouterNotConfigured, res_venue = kNoVenue, client_order_id = 0, res_venue_seq = 0\<rparr> in
      if \<not> valid r then Some (res, bump rejected_not_configured_update r)
      else if o_qty (req_order req) \<le> 0 then
        Some (res\<lparr>decision := RejectInvalidOrder\<rparr>, bump rejected_invalid_update r)
      else
        let venue = venue_for (o_symbol (req_order req)) r in
        if venue = kNoVenue then
          Some (res\<lparr>decision := RejectUnknownSymbol\<rparr>, bump rejected_unknown_symbol_update r)
        else
          case venue_ptr venue r of
            None \<Rightarrow> None
          | Some i \<Rightarrow>
              let v = venues r ! i; res = res\<lparr>res_venue := venue\<rparr> in
              if v_state v = Down then Some (res\<lparr>decision := RejectVenueDown\<rparr>, bump rejected_venue_down_update r)
              else if v_state v = DrainOnly \<and> \<not> liquidating req then
                Some (res\<lparr>decision := RejectVenueDraining\<rparr>, bump rejected_draining_update r)
              else if counter r > counter_max r then
                Some (res\<lparr>decision := RejectIdSpaceExhausted\<rparr>, bump rejected_id_exhausted_update r)
              else
                Some (res\<lparr>client_order_id := make_id r, res_venue_seq := v_seq v + 1, decision := Routed\<rparr>,
                  bump routed_update (upd_venue i (\<lambda>v. v\<lparr>v_seq := v_seq v + 1, v_routed := v_routed v + 1\<rparr>)
                    (r\<lparr>counter := counter r + 1\<rparr>))))"

section \<open>Construction from a configuration\<close>

function split_csv :: "string \<Rightarrow> string list" where
  "split_csv s =
     (let piece = trim (takeWhile (\<lambda>c. c \<noteq> CHR '','') s);
          tail = dropWhile (\<lambda>c. c \<noteq> CHR '','') s;
          out = (if piece \<noteq> [] then [piece] else [])
      in if tail = [] then out else out @ split_csv (tl tail))"
  by auto
termination
proof (relation "measure length", goal_cases)
  case (2 s piece tail out)
  have "tail \<noteq> []" "length tail \<le> length s" using 2 by (simp_all add: length_dropWhile_le)
  then show ?case by (cases tail) auto
qed simp

declare split_csv.simps [simp del]

definition lower :: "string \<Rightarrow> string" where
  "lower s = map tolower s"

text \<open>\<^verbatim>\<open>strtoull\<close> of a string of digits, saturating at the largest 64-bit value.\<close>

definition strtoull :: "string \<Rightarrow> nat" where
  "strtoull s = min (digits_value s) (2 ^ 64 - 1)"

definition parse_symbol :: "string \<Rightarrow> Symbol option" where
  "parse_symbol text =
     (if text = [] then None
      else if \<not> list_all isdigit text then None
      else let v = strtoull text in if v > 0xFFFFFFFF then None else Some (of_nat v))"

definition parse_state :: "string \<Rightarrow> VenueState option" where
  "parse_state text =
     (let t = lower (trim text) in
      if t = ''up'' then Some Up
      else if t = ''down'' then Some Down
      else if t = ''drain'' \<or> t = ''drainonly'' \<or> t = ''drain_only'' then Some DrainOnly
      else None)"

text \<open>
  The three loops of \<^verbatim>\<open>configure_router\<close>.  Each returns the error message of its first problem, if
  any, and the router as it is then.
\<close>

fun add_venues :: "string list \<Rightarrow> OrderRouter \<Rightarrow> string option \<times> OrderRouter" where
  "add_venues [] r = (None, r)"
| "add_venues (name # names) r =
     (let (v, r') = add_venue name Down r in
      if v = kNoVenue then (Some (''duplicate or unusable venue name: '' @ name), r') else add_venues names r')"

definition kStatePrefix :: string where
  "kStatePrefix = ''venue_state.''"

definition kRoutePrefix :: string where
  "kRoutePrefix = ''route.''"

definition has_prefix :: "string \<Rightarrow> string \<Rightarrow> bool" where
  "has_prefix p key \<longleftrightarrow> take (length p) key = p"

fun set_states :: "Config \<Rightarrow> string list \<Rightarrow> OrderRouter \<Rightarrow> string option \<times> OrderRouter" where
  "set_states cfg [] r = (None, r)"
| "set_states cfg (key # ks) r =
     (if \<not> has_prefix kStatePrefix key then set_states cfg ks r
      else
        let name = drop (length kStatePrefix) key; venue = find_venue name r in
        if venue = kNoVenue then (Some (''venue_state for unknown venue: '' @ name), r)
        else
          case parse_state (get_str cfg key []) of
            None \<Rightarrow> (Some (''unrecognised state for venue '' @ name @ '': '' @ get_str cfg key []), r)
          | Some st \<Rightarrow> set_states cfg ks (snd (set_venue_state venue st r)))"

fun map_routes :: "Config \<Rightarrow> string list \<Rightarrow> OrderRouter \<Rightarrow> string option \<times> OrderRouter" where
  "map_routes cfg [] r = (None, r)"
| "map_routes cfg (key # ks) r =
     (if \<not> has_prefix kRoutePrefix key then map_routes cfg ks r
      else
        case parse_symbol (drop (length kRoutePrefix) key) of
          None \<Rightarrow> (Some (''route key is not a numeric symbol: '' @ key), r)
        | Some symbol \<Rightarrow>
            let name = trim (get_str cfg key []); venue = find_venue name r in
            if venue = kNoVenue then (Some (''route '' @ key @ '' names an undeclared venue: '' @ name), r)
            else map_routes cfg ks (snd (map_symbol symbol venue r)))"

definition configure_router :: "Config \<Rightarrow> OrderRouter \<Rightarrow> string option \<times> OrderRouter" where
  "configure_router cfg r =
     (case add_venues (split_csv (get_str cfg ''venues'' [])) r of
        (Some e, r1) \<Rightarrow> (Some e, r1)
      | (None, r1) \<Rightarrow>
          (case set_states cfg (keys cfg) r1 of
             (Some e, r2) \<Rightarrow> (Some e, r2)
           | (None, r2) \<Rightarrow> map_routes cfg (keys cfg) r2))"

section \<open>The invariant of a router\<close>

definition names_ok :: "OrderRouter \<Rightarrow> bool" where
  "names_ok r \<longleftrightarrow> distinct (map v_name (venues r)) \<and> [] \<notin> v_name ` set (venues r) \<and> length (venues r) \<le> 0xFFFE"

definition routes_ok :: "OrderRouter \<Rightarrow> bool" where
  "routes_ok r \<longleftrightarrow> (\<forall>s v. routes r s = Some v \<longrightarrow> venue_ptr v r \<noteq> None)"

text \<open>An identifier layout that is usable, and the counter within it.\<close>

definition ids_ok :: "OrderRouter \<Rightarrow> bool" where
  "ids_ok r \<longleftrightarrow> (valid r \<longrightarrow> 1 \<le> counter_bits r \<and> counter_bits r \<le> 48
     \<and> unat (counter_max r) = 2 ^ counter_bits r - 1
     \<and> unat (epoch r) < 2 ^ (64 - counter_bits r)
     \<and> 1 \<le> unat (counter r) \<and> unat (counter r) \<le> 2 ^ counter_bits r)"

definition router_ok :: "OrderRouter \<Rightarrow> bool" where
  "router_ok r \<longleftrightarrow> names_ok r \<and> routes_ok r \<and> ids_ok r"

lemma unat_u16_of_nat: "n < 65536 \<Longrightarrow> unat (of_nat n :: u16) = n"
  by (simp add: unat_of_nat)

lemma find_name_spec:
  "i + length vs < 65535 \<Longrightarrow>
   (if name \<in> v_name ` set vs
    then \<exists>k<length vs. find_name name i vs = of_nat (i + k + 1) \<and> v_name (vs ! k) = name
    else find_name name i vs = kNoVenue)"
proof (induction name i vs rule: find_name.induct)
  case (2 name i v vs)
  show ?case
  proof (cases "v_name v = name")
    case True
    then show ?thesis by (auto intro!: exI [of _ 0])
  next
    case False
    then show ?thesis
      using 2 by (cases "name \<in> v_name ` set vs") (auto intro: exI [of _ "Suc k" for k])
  qed
qed simp

lemma find_venue_None: "names_ok r \<Longrightarrow> find_venue name r = kNoVenue \<longleftrightarrow> name \<notin> v_name ` set (venues r)"
proof -
  assume "names_ok r"
  then have len: "0 + length (venues r) < 65535" by (simp add: names_ok_def)
  show ?thesis
  proof (cases "name \<in> v_name ` set (venues r)")
    case True
    with find_name_spec [OF len, of name] obtain k where k: "k < length (venues r)" "find_venue name r = of_nat (k + 1)"
      by (auto simp: find_venue_def)
    have "unat (of_nat (k + 1) :: u16) = k + 1" using k(1) len by (intro unat_u16_of_nat) simp
    then have "find_venue name r \<noteq> kNoVenue" using k(2) by (auto simp: kNoVenue_def)
    then show ?thesis using True by simp
  next
    case False
    then show ?thesis using find_name_spec [OF len, of name] by (simp add: find_venue_def)
  qed
qed

lemma find_venue_Some:
  assumes "names_ok r" "name \<in> v_name ` set (venues r)"
  obtains k where "k < length (venues r)" "v_name (venues r ! k) = name" "find_venue name r = of_nat (k + 1)"
    "venue_ptr (find_venue name r) r = Some k"
proof -
  have len: "0 + length (venues r) < 65535" using assms(1) by (simp add: names_ok_def)
  from find_name_spec [OF len, of name] assms(2) obtain k where
    k: "k < length (venues r)" "find_venue name r = of_nat (k + 1)" "v_name (venues r ! k) = name"
    by (auto simp: find_venue_def)
  have "unat (of_nat (k + 1) :: u16) = k + 1" using k(1) len by (intro unat_u16_of_nat) simp
  then have "venue_ptr (find_venue name r) r = Some k"
    using k by (auto simp: venue_ptr_def kNoVenue_def)
  then show ?thesis using that k by blast
qed

lemma venue_ptr_length: "length (venues r') = length (venues r) \<Longrightarrow> venue_ptr v r' = venue_ptr v r"
  by (simp add: venue_ptr_def)

lemma venue_ptr_bound: "venue_ptr v r = Some i \<Longrightarrow> i < length (venues r)"
proof -
  assume "venue_ptr v r = Some i"
  then have "unat v \<noteq> 0" "i = unat v - 1" "unat v \<le> length (venues r)"
    by (auto simp: venue_ptr_def kNoVenue_def unsigned_eq_0_iff split: if_splits)
  then show ?thesis by simp
qed

lemma venue_ptr_None: "venue_ptr v r = None \<longleftrightarrow> v = kNoVenue \<or> length (venues r) < unat v"
  by (simp add: venue_ptr_def)

lemma upd_venue_frame [simp]:
  "length (venues (upd_venue i f r)) = length (venues r)" "routes (upd_venue i f r) = routes r"
  "venue_ptr v (upd_venue i f r) = venue_ptr v r" "valid (upd_venue i f r) = valid r"
  "epoch (upd_venue i f r) = epoch r" "counter_bits (upd_venue i f r) = counter_bits r"
  "counter_max (upd_venue i f r) = counter_max r" "counter (upd_venue i f r) = counter r"
  by (simp_all add: upd_venue_def venue_ptr_def)

text \<open>An operation that touches neither names, routes nor identifiers.\<close>

lemma upd_venue_ok:
  assumes "\<And>v. v_name (f v) = v_name v" "router_ok r"
  shows "router_ok (upd_venue i f r)"
proof -
  have "map v_name (venues (upd_venue i f r)) = map v_name (venues r)"
    using assms(1) by (cases "i < length (venues r)")
      (auto simp: upd_venue_def list_eq_iff_nth_eq [of "map v_name xs" for xs] nth_list_update)
  then show ?thesis
    using assms(2) by (simp add: router_ok_def names_ok_def routes_ok_def ids_ok_def flip: set_map)
qed

lemma router_ok_rstats [simp]: "router_ok (r\<lparr>rstats := x\<rparr>) = router_ok r"
  by (simp add: router_ok_def names_ok_def routes_ok_def ids_ok_def venue_ptr_def)

lemma set_venue_state_ok: "router_ok r \<Longrightarrow> router_ok (snd (set_venue_state v st r))"
  by (auto simp: set_venue_state_def intro: upd_venue_ok split: option.split)

lemma on_logon_ok: "router_ok r \<Longrightarrow> router_ok (on_logon v r)"
  by (auto simp: on_logon_def intro: upd_venue_ok split: option.split)

lemma on_disconnect_ok: "router_ok r \<Longrightarrow> router_ok (on_disconnect v r)"
  by (auto simp: on_disconnect_def intro: upd_venue_ok split: option.split)

lemma add_venue_ok: "router_ok r \<Longrightarrow> router_ok (snd (add_venue name st r))"
  using find_venue_None [of r name]
  by (fastforce simp: add_venue_def Let_def router_ok_def names_ok_def routes_ok_def ids_ok_def venue_ptr_None)

lemma map_symbol_ok: "router_ok r \<Longrightarrow> router_ok (snd (map_symbol s v r))"
  by (simp add: map_symbol_def router_ok_def names_ok_def routes_ok_def ids_ok_def venue_ptr_None)

lemma unmap_symbol_ok: "router_ok r \<Longrightarrow> router_ok (snd (unmap_symbol s r))"
  by (simp add: unmap_symbol_def router_ok_def names_ok_def routes_ok_def ids_ok_def venue_ptr_None)

lemma unat_pow_minus_1:
  assumes "n < 64"
  shows "unat (push_bit n 1 - 1 :: u64) = 2 ^ n - 1"
proof -
  have "(2 :: nat) ^ n < 2 ^ 64" using assms by (intro power_strict_increasing) simp_all
  then have "unat (of_nat (2 ^ n) :: u64) = 2 ^ n" by (simp only: unat_of_nat mod_less) simp
  then have "unat (push_bit n 1 :: u64) = 2 ^ n" by (simp add: push_bit_eq_mult)
  moreover have "(1 :: u64) \<le> push_bit n 1" using calculation by (simp add: word_le_nat_alt)
  ultimately show ?thesis by (simp add: unat_sub)
qed

lemma new_router_ok: "router_ok (new_router e bits)"
proof (cases "bits < 1 \<or> bits > 48")
  case True
  then show ?thesis
    by (simp add: new_router_def router_ok_def names_ok_def routes_ok_def ids_ok_def)
next
  case False
  then have b: "1 \<le> bits" "bits \<le> 48" by auto
  have "unat e < 2 ^ (64 - bits)" if "(ucast e :: u64) \<le> push_bit (64 - bits) 1 - 1"
  proof -
    have "unat (ucast e :: u64) \<le> 2 ^ (64 - bits) - 1"
      using that b unat_pow_minus_1 [of "64 - bits"] by (simp add: word_le_nat_alt)
    moreover have "unat (ucast e :: u64) = unat e"
      using unsigned_less [where 'a = nat, of e] by (simp add: unsigned_ucast_eq take_bit_nat_eq_self)
    moreover have "(0 :: nat) < 2 ^ (64 - bits)" by simp
    ultimately show ?thesis by linarith
  qed
  moreover have "\<not> 64 \<le> 64 - bits" using b by simp
  ultimately show ?thesis
    using b unat_pow_minus_1 [of bits]
    by (simp add: new_router_def Let_def router_ok_def names_ok_def routes_ok_def ids_ok_def)
qed

section \<open>Routing one order\<close>

lemma route_defined: "router_ok r \<Longrightarrow> route req r \<noteq> None"
  by (fastforce simp: route_def Let_def router_ok_def routes_ok_def venue_for_def split: option.splits)

text \<open>The outcome of routing, by the first condition that stops the order.\<close>

lemma route_cases:
  assumes "router_ok r" "route req r = Some (res, r')"
  obtains (reject) "decision res \<noteq> Routed" "client_order_id res = 0" "res_venue_seq res = 0"
      "r' = r\<lparr>rstats := rstats r'\<rparr>"
  | (routed) i where "valid r" "venue_ptr (res_venue res) r = Some i"
      "routes r (o_symbol (req_order req)) = Some (res_venue res)" "0 < o_qty (req_order req)"
      "v_state (venues r ! i) = Up \<or> v_state (venues r ! i) = DrainOnly \<and> liquidating req"
      "counter r \<le> counter_max r" "decision res = Routed" "client_order_id res = make_id r"
      "res_venue_seq res = v_seq (venues r ! i) + 1"
      "r' = (upd_venue i (\<lambda>v. v\<lparr>v_seq := v_seq v + 1, v_routed := v_routed v + 1\<rparr>)
        (r\<lparr>counter := counter r + 1\<rparr>))\<lparr>rstats := rstats r'\<rparr>"
proof -
  consider "\<not> valid r" | "valid r" "o_qty (req_order req) \<le> 0"
    | "valid r" "\<not> o_qty (req_order req) \<le> 0" "venue_for (o_symbol (req_order req)) r = kNoVenue"
    | i where "valid r" "\<not> o_qty (req_order req) \<le> 0" "venue_for (o_symbol (req_order req)) r \<noteq> kNoVenue"
      "venue_ptr (venue_for (o_symbol (req_order req)) r) r = Some i"
    using route_defined [OF assms(1), of req] by (force simp: route_def Let_def split: option.splits)
  then show ?thesis
  proof cases
    case (4 i)
    let ?v = "venues r ! i"
    have rt: "routes r (o_symbol (req_order req)) = Some (venue_for (o_symbol (req_order req)) r)"
      using 4(3) by (auto simp: venue_for_def split: option.splits)
    show ?thesis
    proof (cases "v_state ?v = Down \<or> v_state ?v = DrainOnly \<and> \<not> liquidating req \<or> counter r > counter_max r")
      case True
      then show ?thesis
        using 4 assms(2) by (intro reject) (auto simp: route_def Let_def split: if_splits)
    next
      case False
      then have "v_state ?v = Up \<or> v_state ?v = DrainOnly \<and> liquidating req"
        by (cases "v_state ?v") auto
      then show ?thesis
        using False 4 rt assms(2) by (intro routed [of i]) (auto simp: route_def Let_def upd_venue_def)
    qed
  qed (use assms(2) in \<open>auto simp: route_def Let_def intro: reject\<close>)
qed

lemma route_routed_iff:
  assumes "router_ok r" "route req r = Some (res, r')"
  shows "decision res = Routed \<longleftrightarrow> valid r \<and> 0 < o_qty (req_order req)
    \<and> (\<exists>v. routes r (o_symbol (req_order req)) = Some v
         \<and> (venue_state v r = Up \<or> venue_state v r = DrainOnly \<and> liquidating req))
    \<and> counter r \<le> counter_max r"
proof (cases "routes r (o_symbol (req_order req))")
  case None
  then show ?thesis using assms(2) by (auto simp: route_def Let_def venue_for_def kNoVenue_def split: if_splits)
next
  case (Some v)
  then obtain i where i: "venue_ptr v r = Some i" using assms(1) by (auto simp: router_ok_def routes_ok_def)
  then have "v \<noteq> kNoVenue" by (auto simp: venue_ptr_def split: if_splits)
  then show ?thesis
    using assms(2) Some i
    by (cases "v_state (venues r ! i)") (auto simp: route_def Let_def venue_for_def venue_state_def not_le split: if_splits)
qed

lemma counter_step:
  assumes "router_ok r" "valid r" "counter r \<le> counter_max r"
  shows "unat (counter r + 1) = unat (counter r) + 1" "unat (counter r) < 2 ^ counter_bits r"
proof -
  have i: "unat (counter_max r) = 2 ^ counter_bits r - 1" "counter_bits r \<le> 48"
    using assms(1,2) by (simp_all add: router_ok_def ids_ok_def)
  have "unat (counter r) \<le> 2 ^ counter_bits r - 1" using assms(3) i(1) by (simp add: word_le_nat_alt)
  moreover have "(0 :: nat) < 2 ^ counter_bits r" by simp
  ultimately show lt: "unat (counter r) < 2 ^ counter_bits r" by linarith
  have "(2 :: nat) ^ counter_bits r \<le> 2 ^ 48" using i(2) by (intro power_increasing) simp_all
  then show "unat (counter r + 1) = unat (counter r) + 1" using lt by (subst unat_plus_if') simp
qed

lemma route_ok:
  assumes "router_ok r" "route req r = Some (res, r')"
  shows "router_ok r'"
  using assms
proof (cases rule: route_cases)
  case reject
  then show ?thesis using assms(1) by (metis router_ok_rstats)
next
  case (routed i)
  have "router_ok (r\<lparr>counter := counter r + 1\<rparr>)"
    using assms(1) routed(1) counter_step [OF assms(1) routed(1,6)]
    by (simp add: router_ok_def names_ok_def routes_ok_def ids_ok_def venue_ptr_def)
  then have "router_ok (upd_venue i (\<lambda>v. v\<lparr>v_seq := v_seq v + 1, v_routed := v_routed v + 1\<rparr>)
      (r\<lparr>counter := counter r + 1\<rparr>))" (is "router_ok ?r")
    by (intro upd_venue_ok) simp_all
  then show ?thesis by (subst routed(10)) simp
qed

end
