(* ===== verification/Router_Runs.thy ===== *)
theory Router_Runs
  imports Order_Router
begin

text \<open>
  What the router of \<^verbatim>\<open>src/order_router.cpp\<close> guarantees over a whole session: identifiers never
  repeat, also not across restarts, each venue's stream is numbered from one after every logon, no
  order leaves for a venue that must not get it, and a configuration is applied completely or
  refused.
\<close>

section \<open>Identifiers\<close>

lemma unat_ucast_epoch [simp]: "unat (ucast (e :: u32) :: u64) = unat e"
  using unsigned_less [where 'a = nat, of e] by (simp add: unsigned_ucast_eq take_bit_nat_eq_self)

lemma unat_make_id:
  assumes "router_ok r" "valid r" "unat (counter r) < 2 ^ counter_bits r"
  shows "unat (make_id r) = unat (epoch r) * 2 ^ counter_bits r + unat (counter r)"
proof -
  let ?b = "counter_bits r" and ?e = "ucast (epoch r) :: u64"
  have b: "?b \<le> 48" "unat (epoch r) < 2 ^ (64 - ?b)" using assms(1,2) by (simp_all add: router_ok_def ids_ok_def)
  have "take_bit ?b (counter r) = counter r"
    using assms(3) by (simp add: word_unat_eq_iff unsigned_take_bit_eq take_bit_nat_eq_self)
  then have "push_bit ?b ?e AND counter r = 0"
    by (metis (no_types, lifting) bit_0_eq bit_and_iff bit_push_bit_iff bit_take_bit_iff bot_apply bot_bool_def
        bit_eqI leD)
  then have or: "make_id r = push_bit ?b ?e + counter r" by (simp add: make_id_def disjunctive_add_eq_or)
  have "(unat (epoch r) + 1) * 2 ^ ?b \<le> 2 ^ (64 - ?b) * 2 ^ ?b" using b(2) by (intro mult_right_mono) simp_all
  also have "\<dots> = 2 ^ 64" using b(1) by (simp flip: power_add)
  finally have fits: "unat (epoch r) * 2 ^ ?b + 2 ^ ?b \<le> 2 ^ 64" by (simp add: algebra_simps)
  have "(0 :: nat) < 2 ^ ?b" by simp
  with fits have lt: "unat (epoch r) * 2 ^ ?b < 2 ^ 64" by linarith
  have "push_bit ?b ?e = of_nat (unat (epoch r) * 2 ^ ?b)"
    by (simp add: push_bit_eq_mult)
  moreover have "unat (of_nat (unat (epoch r) * 2 ^ ?b) :: u64) = unat (epoch r) * 2 ^ ?b"
    using lt by (simp only: unat_of_nat) (intro mod_less, simp)
  ultimately have "unat (push_bit ?b ?e) = unat (epoch r) * 2 ^ ?b" by simp
  then show ?thesis unfolding or using fits assms(3) by (subst unat_plus_if') simp
qed

section \<open>Runs\<close>

text \<open>What leaves the router: logons, and routed orders with their identifier and sequence.\<close>

datatype event = LoggedOn VenueId | Sent VenueId u64 u64

record router_run =
  rt :: OrderRouter
  log :: "event list"

fun ids_of :: "event list \<Rightarrow> u64 list" where
  "ids_of [] = []"
| "ids_of (LoggedOn v # es) = ids_of es"
| "ids_of (Sent v i n # es) = i # ids_of es"

text \<open>The numbers sent to a venue since its last logon.\<close>

definition stream :: "VenueId \<Rightarrow> event list \<Rightarrow> u64 list" where
  "stream v es = foldl (\<lambda>acc e. case e of
     LoggedOn w \<Rightarrow> if w = v then [] else acc
   | Sent w i n \<Rightarrow> if w = v then acc @ [n] else acc) [] es"

lemma ids_of_append [simp]: "ids_of (xs @ ys) = ids_of xs @ ids_of ys"
  by (induction xs rule: ids_of.induct) simp_all

lemma stream_snoc [simp]:
  "stream v (es @ [LoggedOn w]) = (if w = v then [] else stream v es)"
  "stream v (es @ [Sent w i n]) = (if w = v then stream v es @ [n] else stream v es)"
  by (simp_all add: stream_def)

inductive router_step :: "router_run \<Rightarrow> router_run \<Rightarrow> bool" where
  add: "router_step s (s\<lparr>rt := snd (add_venue name st (rt s))\<rparr>)"
| state: "router_step s (s\<lparr>rt := snd (set_venue_state v st (rt s))\<rparr>)"
| logon: "router_step s (s\<lparr>rt := on_logon v (rt s), log := log s @ [LoggedOn v]\<rparr>)"
| disconnect: "router_step s (s\<lparr>rt := on_disconnect v (rt s)\<rparr>)"
| mapped: "router_step s (s\<lparr>rt := snd (map_symbol sm v (rt s))\<rparr>)"
| unmapped: "router_step s (s\<lparr>rt := snd (unmap_symbol sm (rt s))\<rparr>)"
| order: "route req (rt s) = Some (res, r') \<Longrightarrow>
    router_step s (s\<lparr>rt := r', log := log s @
      (if decision res = Routed then [Sent (res_venue res) (client_order_id res) (res_venue_seq res)] else [])\<rparr>)"

definition start_router :: "u32 \<Rightarrow> nat \<Rightarrow> router_run" where
  "start_router e b = \<lparr>rt = new_router e b, log = []\<rparr>"

definition ids_inv :: "u32 \<Rightarrow> nat \<Rightarrow> router_run \<Rightarrow> bool" where
  "ids_inv e b s \<longleftrightarrow> router_ok (rt s) \<and> epoch (rt s) = e \<and> counter_bits (rt s) = b
     \<and> 1 \<le> unat (counter (rt s)) \<and> (\<not> valid (rt s) \<longrightarrow> counter (rt s) = 1)
     \<and> map unat (ids_of (log s)) = map (\<lambda>k. unat e * 2 ^ b + k) [1..<unat (counter (rt s))]"

definition seqs_inv :: "router_run \<Rightarrow> bool" where
  "seqs_inv s \<longleftrightarrow> (\<forall>v. stream v (log s) = map of_nat [1..<Suc (length (stream v (log s)))]
     \<and> venue_seq v (rt s) = of_nat (length (stream v (log s)))
     \<and> (venue_ptr v (rt s) = None \<longrightarrow> stream v (log s) = []))"

lemma venue_ptr_inj:
  assumes "venue_ptr v r = Some i" "venue_ptr w r = Some i"
  shows "v = w"
proof -
  have "unat v \<noteq> 0" "unat w \<noteq> 0" "unat v - 1 = unat w - 1"
    using assms by (auto simp: venue_ptr_def kNoVenue_def unsigned_eq_0_iff split: if_splits)
  then show ?thesis by (simp add: word_unat_eq_iff)
qed

lemma venue_seq_upd:
  assumes "venue_ptr v r = Some i"
  shows "venue_seq w (upd_venue i f r) = (if w = v then v_seq (f (venues r ! i)) else venue_seq w r)"
proof (cases "w = v")
  case True
  then show ?thesis using assms venue_ptr_bound [OF assms] by (simp add: venue_seq_def) (simp add: upd_venue_def)
next
  case False
  then have "venue_ptr w r \<noteq> Some i" using venue_ptr_inj [OF assms] by blast
  then show ?thesis using False by (simp add: venue_seq_def split: option.split) (auto simp: upd_venue_def)
qed

lemma venue_seq_cong: "venues r' = venues r \<Longrightarrow> venue_seq v r' = venue_seq v r \<and> venue_ptr v r' = venue_ptr v r"
  by (simp add: venue_seq_def venue_ptr_def)

lemma seqs_inv_same:
  assumes "seqs_inv s" "log s' = log s" "\<And>v. venue_seq v (rt s') = venue_seq v (rt s)"
    "\<And>v. venue_ptr v (rt s') = None \<Longrightarrow> venue_ptr v (rt s) = None"
  shows "seqs_inv s'"
  using assms by (simp add: seqs_inv_def)

lemma venue_seq_null: "venue_ptr v r = None \<Longrightarrow> venue_seq v r = 0"
  by (simp add: venue_seq_def)

lemma add_venue_seqs:
  "venue_seq v (snd (add_venue name st r)) = venue_seq v r"
  "venue_ptr v (snd (add_venue name st r)) = None \<Longrightarrow> venue_ptr v r = None"
proof -
  have "venue_ptr v r = None \<Longrightarrow> unat v \<le> Suc (length (venues r)) \<Longrightarrow> v \<noteq> kNoVenue \<Longrightarrow> unat v = Suc (length (venues r))"
    by (simp add: venue_ptr_None)
  then show "venue_seq v (snd (add_venue name st r)) = venue_seq v r"
    using venue_ptr_bound [of v r]
    by (auto simp: add_venue_def Let_def venue_seq_def venue_ptr_def nth_append kNoVenue_def split: option.splits)
  show "venue_ptr v (snd (add_venue name st r)) = None \<Longrightarrow> venue_ptr v r = None"
    by (auto simp: add_venue_def Let_def venue_ptr_None split: if_splits)
qed

lemma set_state_seqs:
  "venue_seq w (snd (set_venue_state v st r)) = venue_seq w r" "venue_seq w (on_disconnect v r) = venue_seq w r"
  "venue_ptr w (snd (set_venue_state v st r)) = venue_ptr w r" "venue_ptr w (on_disconnect v r) = venue_ptr w r"
  by (auto simp: set_venue_state_def on_disconnect_def venue_seq_upd venue_seq_def [of w r] split: option.split)

lemma logon_seqs:
  assumes "seqs_inv s"
  shows "seqs_inv (s\<lparr>rt := on_logon v (rt s), log := log s @ [LoggedOn v]\<rparr>)"
proof (cases "venue_ptr v (rt s)")
  case None
  then have "stream v (log s) = []" using assms by (simp add: seqs_inv_def)
  then show ?thesis using assms None by (auto simp: seqs_inv_def on_logon_def venue_seq_null)
next
  case (Some i)
  then show ?thesis using assms by (auto simp: seqs_inv_def on_logon_def venue_seq_upd [OF Some])
qed

lemma route_seqs:
  assumes inv: "seqs_inv s" "router_ok (rt s)" and r: "route req (rt s) = Some (res, r')"
  shows "seqs_inv (s\<lparr>rt := r', log := log s @
    (if decision res = Routed then [Sent (res_venue res) (client_order_id res) (res_venue_seq res)] else [])\<rparr>)"
  using inv(2) r
proof (cases rule: route_cases)
  case reject
  then have "venues r' = venues (rt s)" by (metis OrderRouter.select_convs(6) OrderRouter.surjective OrderRouter.update_convs(8))
  from venue_seq_cong [OF this] show ?thesis using reject by (intro seqs_inv_same [OF inv(1)]) simp_all
next
  case (routed i)
  let ?v = "res_venue res" and ?c = "rt s\<lparr>counter := counter (rt s) + 1\<rparr>"
  let ?r = "upd_venue i (\<lambda>v. v\<lparr>v_seq := v_seq v + 1, v_routed := v_routed v + 1\<rparr>) ?c"
  have "venues r' = venues ?r" by (subst routed(10)) simp
  from venue_seq_cong [OF this] have r': "venue_seq w r' = venue_seq w ?r" "venue_ptr w r' = venue_ptr w (rt s)" for w
    by (simp_all add: venue_ptr_def)
  have ptr: "venue_ptr ?v ?c = Some i" using routed(2) by (simp add: venue_ptr_def)
  have sq: "v_seq (venues (rt s) ! i) = venue_seq ?v (rt s)" using routed(2) by (simp add: venue_seq_def)
  have sw: "venue_seq w ?c = venue_seq w (rt s)" for w by (simp add: venue_seq_def venue_ptr_def)
  show ?thesis using inv(1) routed(2,7,9) sq by (auto simp: seqs_inv_def r' venue_seq_upd [OF ptr] sw)
qed

lemma seqs_step:
  assumes "seqs_inv s" "router_ok (rt s)" "router_step s s'"
  shows "seqs_inv s'"
  using assms(3)
proof cases
  case (add name st)
  then show ?thesis using assms(1) add_venue_seqs by (intro seqs_inv_same [OF assms(1)]) simp_all
next
  case (state v st)
  then show ?thesis using set_state_seqs by (intro seqs_inv_same [OF assms(1)]) simp_all
next
  case (logon v)
  then show ?thesis using logon_seqs [OF assms(1)] by simp
next
  case (disconnect v)
  then show ?thesis using set_state_seqs by (intro seqs_inv_same [OF assms(1)]) simp_all
next
  case (mapped sm v)
  have "venues (snd (map_symbol sm v (rt s))) = venues (rt s)" by (simp add: map_symbol_def)
  from venue_seq_cong [OF this] mapped show ?thesis by (intro seqs_inv_same [OF assms(1)]) simp_all
next
  case (unmapped sm)
  have "venues (snd (unmap_symbol sm (rt s))) = venues (rt s)" by (simp add: unmap_symbol_def)
  from venue_seq_cong [OF this] unmapped show ?thesis by (intro seqs_inv_same [OF assms(1)]) simp_all
next
  case (order req res r')
  then show ?thesis using route_seqs [OF assms(1,2) order(2)] by simp
qed

lemma op_frame:
  "epoch (snd (add_venue name st r)) = epoch r" "counter_bits (snd (add_venue name st r)) = counter_bits r"
  "counter (snd (add_venue name st r)) = counter r"
  "epoch (snd (set_venue_state v st r)) = epoch r" "counter_bits (snd (set_venue_state v st r)) = counter_bits r"
  "counter (snd (set_venue_state v st r)) = counter r"
  "epoch (on_logon v r) = epoch r" "counter_bits (on_logon v r) = counter_bits r" "counter (on_logon v r) = counter r"
  "epoch (on_disconnect v r) = epoch r" "counter_bits (on_disconnect v r) = counter_bits r"
  "counter (on_disconnect v r) = counter r"
  "epoch (snd (map_symbol sm v r)) = epoch r" "counter_bits (snd (map_symbol sm v r)) = counter_bits r"
  "counter (snd (map_symbol sm v r)) = counter r"
  "epoch (snd (unmap_symbol sm r)) = epoch r" "counter_bits (snd (unmap_symbol sm r)) = counter_bits r"
  "counter (snd (unmap_symbol sm r)) = counter r"
  "valid (snd (add_venue name st r)) = valid r" "valid (snd (set_venue_state v st r)) = valid r"
  "valid (on_logon v r) = valid r" "valid (on_disconnect v r) = valid r"
  "valid (snd (map_symbol sm v r)) = valid r" "valid (snd (unmap_symbol sm r)) = valid r"
  by (auto simp: add_venue_def set_venue_state_def on_logon_def on_disconnect_def map_symbol_def unmap_symbol_def
      Let_def split: option.split)

lemmas router_ops_ok = add_venue_ok set_venue_state_ok on_logon_ok on_disconnect_ok map_symbol_ok unmap_symbol_ok

lemma ids_step:
  assumes inv: "ids_inv e b s" and "router_step s s'"
  shows "ids_inv e b s'"
  using assms(2)
proof cases
  case (order req res r')
  have ok: "router_ok (rt s)" using inv by (simp add: ids_inv_def)
  have ok': "router_ok r'" by (rule route_ok [OF ok order(2)])
  from ok order(2) show ?thesis
  proof (cases rule: route_cases)
    case reject
    then have "epoch r' = epoch (rt s)" "counter_bits r' = counter_bits (rt s)" "counter r' = counter (rt s)"
      "valid r' = valid (rt s)"
      by (metis OrderRouter.select_convs OrderRouter.surjective OrderRouter.update_convs(8))+
    then show ?thesis using inv order(1) reject ok' by (simp add: ids_inv_def)
  next
    case (routed i)
    have c: "epoch r' = epoch (rt s)" "counter_bits r' = counter_bits (rt s)" "counter r' = counter (rt s) + 1"
      "valid r' = valid (rt s)"
      by (subst routed(10), simp)+
    note st = counter_step [OF ok routed(1,6)]
    have "unat (make_id (rt s)) = unat e * 2 ^ b + unat (counter (rt s))"
      using unat_make_id [OF ok routed(1) st(2)] inv by (simp add: ids_inv_def)
    then show ?thesis using inv order(1) routed(1,7,8) ok' c st(1) by (simp add: ids_inv_def)
  qed
qed (use inv in \<open>simp_all add: ids_inv_def op_frame router_ops_ok\<close>)

definition run_inv :: "u32 \<Rightarrow> nat \<Rightarrow> router_run \<Rightarrow> bool" where
  "run_inv e b s \<longleftrightarrow> ids_inv e b s \<and> seqs_inv s"

lemma start_router_inv: "run_inv e b (start_router e b)"
proof -
  have f: "epoch (new_router e b) = e" "counter_bits (new_router e b) = b" "counter (new_router e b) = 1"
    "venues (new_router e b) = []"
    by (simp_all add: new_router_def Let_def)
  show ?thesis
    by (simp add: run_inv_def ids_inv_def seqs_inv_def start_router_def f new_router_ok stream_def venue_seq_def
        venue_ptr_def kNoVenue_def unsigned_eq_0_iff)
qed

interpretation router_sys: invariant_system "\<lambda>s. s = start_router e b" router_step "run_inv e b" for e b
proof (unfold_locales, goal_cases)
  case (1 s) then show ?case by (simp add: start_router_inv)
next
  case (2 s s')
  then have "ids_inv e b s" "seqs_inv s" "router_step s s'" by (simp_all add: run_inv_def)
  moreover from this have "router_ok (rt s)" by (simp add: ids_inv_def)
  ultimately show ?case unfolding run_inv_def by (blast intro: ids_step seqs_step)
qed

section \<open>An example run\<close>

text \<open>A run for the examples: a venue is added, logs on, gets a symbol and an order.\<close>

definition demo_router :: OrderRouter where
  "demo_router = snd (map_symbol 7 1 (on_logon 1 (snd (add_venue ''XNAS'' Down (new_router 3 8)))))"

definition demo_order :: RouteRequest where
  "demo_order = \<lparr>req_order = \<lparr>o_id = 1, o_symbol = 7, o_side = Buy, o_type = Limit, o_price = 100, o_qty = 5\<rparr>,
     liquidating = False\<rparr>"

definition demo_routed :: OrderRouter where
  "demo_routed = snd (the (route demo_order demo_router))"

definition demo_run :: router_run where
  "demo_run = \<lparr>rt = demo_routed, log = [LoggedOn 1, Sent 1 0x301 1]\<rparr>"

lemma demo_router_simps:
  "demo_router = \<lparr>epoch = 3, counter_bits = 8, counter_max = 255, counter = 1, valid = True,
     venues = [\<lparr>v_name = ''XNAS'', v_state = Up, v_seq = 0, v_routed = 0\<rparr>],
     routes = [7 \<mapsto> 1], rstats = no_rstats\<rparr>"
  by (simp add: demo_router_def new_router_def add_venue_def find_venue_def on_logon_def upd_venue_def
      map_symbol_def venue_ptr_def kNoVenue_def)

lemma demo_route:
  "route demo_order demo_router = Some (\<lparr>decision = Routed, res_venue = 1, client_order_id = 0x301, res_venue_seq = 1\<rparr>,
     demo_routed)"
  by (simp add: demo_routed_def demo_router_simps demo_order_def route_def venue_for_def venue_ptr_def kNoVenue_def
      make_id_def Let_def)

lemma demo_reach: "reach (\<lambda>s. s = start_router 3 8) router_step demo_run"
proof -
  let ?s1 = "start_router 3 8\<lparr>rt := snd (add_venue ''XNAS'' Down (rt (start_router 3 8)))\<rparr>"
  let ?s2 = "?s1\<lparr>rt := on_logon 1 (rt ?s1), log := log ?s1 @ [LoggedOn 1]\<rparr>"
  let ?s3 = "?s2\<lparr>rt := snd (map_symbol 7 1 (rt ?s2))\<rparr>"
  have r0: "reach (\<lambda>s. s = start_router 3 8) router_step (start_router 3 8)" by (rule reach.start) simp
  have r3: "reach (\<lambda>s. s = start_router 3 8) router_step ?s3"
    by (rule reach.more [OF reach.more [OF reach.more [OF r0
          router_step.add] router_step.logon] router_step.mapped])
  have s3: "?s3 = \<lparr>rt = demo_router, log = [LoggedOn 1]\<rparr>"
    by (simp add: start_router_def demo_router_def)
  have "router_step ?s3 demo_run"
    unfolding s3 using router_step.order [of demo_order "\<lparr>rt = demo_router, log = [LoggedOn 1]\<rparr>"]
    by (simp add: demo_route demo_run_def)
  with r3 show ?thesis by (rule reach.more)
qed

section \<open>Properties\<close>

text \<open>
  (C6) Client order identifiers are unique for life: within a session no identifier is issued twice, none
  is zero, and each carries the epoch above its counter; so two sessions with different epochs
  under the same layout, a process and its restart, never issue the same identifier, whatever
  either of them did.
\<close>

theorem router_ids_unique:
  assumes "reach (\<lambda>s. s = start_router e1 b) router_step s1" "reach (\<lambda>s. s = start_router e2 b) router_step s2"
  shows "distinct (ids_of (log s1)) \<and> 0 \<notin> set (ids_of (log s1))
    \<and> (\<forall>i\<in>set (ids_of (log s1)). unat i div 2 ^ b = unat e1)
    \<and> (e1 \<noteq> e2 \<longrightarrow> set (ids_of (log s1)) \<inter> set (ids_of (log s2)) = {})"
proof -
  have main: "distinct (ids_of (log s)) \<and> 0 \<notin> set (ids_of (log s)) \<and> (\<forall>i\<in>set (ids_of (log s)). unat i div 2 ^ b = unat e)"
    if "reach (\<lambda>s. s = start_router e b) router_step s" for e s
  proof -
    let ?c = "unat (counter (rt s))"
    have inv: "ids_inv e b s" using router_sys.reach_inv [OF that] by (simp add: run_inv_def)
    then have m: "map unat (ids_of (log s)) = map (\<lambda>k. unat e * 2 ^ b + k) [1..<?c]" by (simp add: ids_inv_def)
    have small: "k < 2 ^ b" if "1 \<le> k" "k < ?c" for k
    proof (cases "valid (rt s)")
      case True
      then have "?c \<le> 2 ^ b" using inv by (auto simp: ids_inv_def router_ok_def ids_ok_def)
      with that(2) show ?thesis by linarith
    next
      case False
      then show ?thesis using inv that by (simp add: ids_inv_def)
    qed
    have "distinct (map unat (ids_of (log s)))" unfolding m by (simp add: distinct_map inj_on_def)
    moreover have "unat i \<noteq> 0 \<and> unat i div 2 ^ b = unat e" if "i \<in> set (ids_of (log s))" for i
    proof -
      have "unat i \<in> set (map unat (ids_of (log s)))" using that by simp
      then obtain k where "1 \<le> k" "k < ?c" "unat i = unat e * 2 ^ b + k" unfolding m set_map by fastforce
      then show ?thesis using small [of k] by simp
    qed
    moreover from this [of 0] have "0 \<notin> set (ids_of (log s))" by auto
    ultimately show ?thesis by (simp add: distinct_map)
  qed
  from main [OF assms(1)] main [OF assms(2)] show ?thesis by (metis disjoint_iff word_unat_eq_iff)
qed

theorem router_ids_unique_witness:
  "ids_of (log demo_run) = [0x301] \<and> set (ids_of (log demo_run)) \<inter> set (ids_of (log (start_router 4 8))) = {}"
proof -
  have "reach (\<lambda>s. s = start_router 4 8) router_step (start_router 4 8)" by (rule reach.start) simp
  from router_ids_unique [OF demo_reach this] show ?thesis by (simp add: demo_run_def)
qed

text \<open>
  Each venue sees a gap-free stream: the sequence numbers sent to it since its last logon are 1,
  2, 3 and so on in order, and the counter the router keeps for the venue is their number, however
  logons, disconnects, state changes and orders to other venues were interleaved.
\<close>

theorem router_streams:
  assumes "reach (\<lambda>s. s = start_router e b) router_step s"
  shows "stream v (log s) = map of_nat [1..<Suc (length (stream v (log s)))]
    \<and> venue_seq v (rt s) = of_nat (length (stream v (log s)))"
  using router_sys.reach_inv [OF assms] by (simp only: run_inv_def seqs_inv_def)

theorem router_streams_witness: "stream 1 (log demo_run) = [1] \<and> venue_seq 1 (rt demo_run) = 1"
proof -
  have "stream 1 (log demo_run) = [1]" by (simp add: demo_run_def stream_def)
  with router_streams [OF demo_reach, of 1] show ?thesis by simp
qed

text \<open>
  (C21) Routing in a reachable state always returns (the venue pointer it dereferences is never null),
  and an order leaves exactly when the identifier layout is usable, the quantity is positive, the
  symbol is mapped, its venue is up (or draining and the order only reduces risk) and an
  identifier is left.  A rejected order consumes neither an identifier nor a sequence number:
  it changes nothing but the statistics.
\<close>

theorem route_decides:
  assumes "reach (\<lambda>s. s = start_router e b) router_step s"
  shows "\<exists>res r'. route req (rt s) = Some (res, r')
    \<and> (decision res = Routed \<longleftrightarrow> valid (rt s) \<and> 0 < o_qty (req_order req)
         \<and> (\<exists>v. routes (rt s) (o_symbol (req_order req)) = Some v
              \<and> (venue_state v (rt s) = Up \<or> venue_state v (rt s) = DrainOnly \<and> liquidating req))
         \<and> unat (counter (rt s)) < 2 ^ b)
    \<and> (decision res \<noteq> Routed \<longrightarrow>
         client_order_id res = 0 \<and> res_venue_seq res = 0 \<and> r' = (rt s)\<lparr>rstats := rstats r'\<rparr>)"
proof -
  have inv: "ids_inv e b s" using router_sys.reach_inv [OF assms] by (simp add: run_inv_def)
  then have ok: "router_ok (rt s)" and b: "counter_bits (rt s) = b" by (simp_all add: ids_inv_def)
  obtain res r' where r: "route req (rt s) = Some (res, r')" using route_defined [OF ok, of req] by auto
  have lim: "counter (rt s) \<le> counter_max (rt s) \<longleftrightarrow> unat (counter (rt s)) < 2 ^ b" if "valid (rt s)"
    using ok b that by (auto simp: router_ok_def ids_ok_def word_le_nat_alt)
  have "decision res = Routed \<longleftrightarrow> valid (rt s) \<and> 0 < o_qty (req_order req)
      \<and> (\<exists>v. routes (rt s) (o_symbol (req_order req)) = Some v
           \<and> (venue_state v (rt s) = Up \<or> venue_state v (rt s) = DrainOnly \<and> liquidating req))
      \<and> counter (rt s) \<le> counter_max (rt s)"
    using route_routed_iff [OF ok r] .
  moreover have "decision res \<noteq> Routed \<longrightarrow>
      client_order_id res = 0 \<and> res_venue_seq res = 0 \<and> r' = (rt s)\<lparr>rstats := rstats r'\<rparr>"
    by (rule route_cases [OF ok r]) simp_all
  ultimately show ?thesis
    using r lim by (intro exI [of _ res] exI [of _ r']) (simp only: simp_thms conj_ac, blast)
qed

theorem route_decides_witness:
  "\<exists>res r'. route demo_order (rt demo_run) = Some (res, r') \<and> decision res = Routed"
proof -
  have "valid (rt demo_run)" "routes (rt demo_run) 7 = Some 1" "venue_state 1 (rt demo_run) = Up"
    "unat (counter (rt demo_run)) < 2 ^ 8"
    by (simp_all add: demo_run_def demo_routed_def demo_router_simps demo_order_def
        route_def venue_for_def venue_ptr_def kNoVenue_def upd_venue_def Let_def venue_state_def)
  with route_decides [OF demo_reach, of demo_order] show ?thesis by (auto simp: demo_order_def)
qed

end
