(* ===== verification/Router_Config.thy ===== *)
theory Router_Config
  imports Router_Runs
begin

text \<open>
  What \<^verbatim>\<open>configure_router\<close> of \<^verbatim>\<open>src/order_router.cpp\<close> does with a configuration: it refuses every
  configuration that is not consistent, and a consistent one is applied completely.
\<close>

section \<open>Shared facts\<close>

lemma find_name_cong: "map v_name vs = map v_name ws \<Longrightarrow> find_name name i vs = find_name name i ws"
proof (induction vs arbitrary: ws i)
  case (Cons v vs)
  then show ?case by (cases ws) auto
qed simp

lemma find_venue_cong: "map v_name (venues r) = map v_name (venues r') \<Longrightarrow> find_venue name r = find_venue name r'"
  unfolding find_venue_def by (rule find_name_cong)

lemma names_ok_cong: "map v_name (venues r) = map v_name (venues r') \<Longrightarrow> names_ok r = names_ok r'"
  unfolding names_ok_def by (metis length_map set_map)

lemma has_prefix_append: "has_prefix p key \<longleftrightarrow> (\<exists>s. key = p @ s)"
  by (metis append_eq_conv_conj append_take_drop_id has_prefix_def)

lemma split_csv_nonempty: "[] \<notin> set (split_csv s)"
proof (induction s rule: split_csv.induct)
  case (1 s)
  then show ?case by (subst split_csv.simps) (auto simp: Let_def)
qed

section \<open>Declaring the venues\<close>

abbreviation new_venue :: "string \<Rightarrow> Venue" where
  "new_venue name \<equiv> \<lparr>v_name = name, v_state = Down, v_seq = 0, v_routed = 0\<rparr>"

lemma add_venue_cases:
  assumes "names_ok r" "name \<noteq> []"
  shows "add_venue name Down r =
    (if length (venues r) \<ge> 0xFFFE \<or> name \<in> v_name ` set (venues r) then (kNoVenue, r)
     else (of_nat (length (venues r) + 1), r\<lparr>venues := venues r @ [new_venue name]\<rparr>))"
  using assms find_venue_None [OF assms(1), of name] by (simp add: add_venue_def Let_def)

lemma add_venues_spec:
  assumes "names_ok r" "[] \<notin> set names"
  shows "(fst (add_venues names r) = None \<longleftrightarrow>
      distinct (map v_name (venues r) @ names) \<and> length (venues r) + length names \<le> 0xFFFE)
    \<and> (fst (add_venues names r) = None \<longrightarrow>
      snd (add_venues names r) = r\<lparr>venues := venues r @ map new_venue names\<rparr>)"
  using assms
proof (induction names arbitrary: r)
  case Nil
  then show ?case by (simp add: names_ok_def)
next
  case (Cons name names)
  have "name \<noteq> []" using Cons.prems(2) by auto
  note add = add_venue_cases [OF Cons.prems(1) this]
  show ?case
  proof (cases "length (venues r) \<ge> 0xFFFE \<or> name \<in> v_name ` set (venues r)")
    case True
    then have "fst (add_venues (name # names) r) \<noteq> None" by (simp add: add)
    with True show ?thesis by auto
  next
    case False
    let ?r = "r\<lparr>venues := venues r @ [new_venue name]\<rparr>"
    have ok: "names_ok ?r" using False Cons.prems by (auto simp: names_ok_def)
    have "unat (of_nat (length (venues r) + 1) :: u16) = length (venues r) + 1"
      using False by (intro unat_u16_of_nat) simp
    then have "(of_nat (length (venues r) + 1) :: u16) \<noteq> kNoVenue" by (auto simp: kNoVenue_def)
    then have "add_venues (name # names) r = add_venues names ?r"
      using False by (simp add: add)
    then show ?thesis using Cons.IH [OF ok] Cons.prems(2) False by auto
  qed
qed

section \<open>Initial states\<close>

abbreviation state_key_ok :: "Config \<Rightarrow> string set \<Rightarrow> string \<Rightarrow> bool" where
  "state_key_ok cfg names key \<equiv> has_prefix kStatePrefix key \<longrightarrow>
     drop (length kStatePrefix) key \<in> names \<and> parse_state (get_str cfg key []) \<noteq> None"

text \<open>The state the configuration gives a venue, if it gives it one.\<close>

definition state_after :: "Config \<Rightarrow> string list \<Rightarrow> Venue \<Rightarrow> VenueState" where
  "state_after cfg ks v =
     (if kStatePrefix @ v_name v \<in> set ks then the (parse_state (get_str cfg (kStatePrefix @ v_name v) []))
      else v_state v)"

text \<open>One key sets the state of the one venue it names, which later keys may set again.\<close>

lemma state_after_key:
  assumes names: "names_ok r" and key: "key = kStatePrefix @ name" and st: "parse_state (get_str cfg key []) = Some st"
    and k: "k < length (venues r)" "v_name (venues r ! k) = name"
  shows "map (\<lambda>v. v\<lparr>v_state := state_after cfg ks v\<rparr>) (venues (upd_venue k (\<lambda>v. v\<lparr>v_state := st\<rparr>) r))
    = map (\<lambda>v. v\<lparr>v_state := state_after cfg (key # ks) v\<rparr>) (venues r)" (is "?L = ?R")
proof (rule nth_equalityI)
  show "length ?L = length ?R" by (simp add: upd_venue_def)
  fix i assume "i < length ?L"
  then have i: "i < length (venues r)" by (simp add: upd_venue_def)
  have "i = k" if "v_name (venues r ! i) = name"
    using that i k names by (simp add: names_ok_def distinct_conv_nth) metis
  then have "v_name (venues r ! i) = name \<longleftrightarrow> i = k" using k(2) by blast
  moreover from this key have "key = kStatePrefix @ v_name (venues r ! i) \<longleftrightarrow> i = k" by auto
  ultimately show "?L ! i = ?R ! i"
    using i k(1) st key by (auto simp: upd_venue_def nth_list_update state_after_def)
qed

lemma set_states_spec:
  assumes "names_ok r"
  shows "(fst (set_states cfg ks r) = None \<longleftrightarrow> (\<forall>key\<in>set ks. state_key_ok cfg (v_name ` set (venues r)) key))
    \<and> (fst (set_states cfg ks r) = None \<longrightarrow>
      snd (set_states cfg ks r) = r\<lparr>venues := map (\<lambda>v. v\<lparr>v_state := state_after cfg ks v\<rparr>) (venues r)\<rparr>)"
  using assms
proof (induction ks arbitrary: r)
  case Nil
  then show ?case by (simp add: state_after_def)
next
  case (Cons key ks)
  let ?name = "drop (length kStatePrefix) key"
  show ?case
  proof (cases "has_prefix kStatePrefix key")
    case False
    then have "state_after cfg (key # ks) v = state_after cfg ks v" for v
      by (auto simp: state_after_def has_prefix_append)
    then show ?thesis using Cons.IH [OF Cons.prems] False by simp
  next
    case pre: True
    then have key: "key = kStatePrefix @ ?name" by (simp add: has_prefix_def) (metis append_take_drop_id)
    show ?thesis
    proof (cases "state_key_ok cfg (v_name ` set (venues r)) key")
      case False
      then have "fst (set_states cfg (key # ks) r) \<noteq> None"
        using pre find_venue_None [OF Cons.prems, of ?name] by (auto simp: Let_def split: option.split)
      then show ?thesis using False by auto
    next
      case True
      then obtain st where st: "parse_state (get_str cfg key []) = Some st" using pre by auto
      from True pre obtain k where k: "k < length (venues r)" "v_name (venues r ! k) = ?name"
        "venue_ptr (find_venue ?name r) r = Some k"
        using find_venue_Some [OF Cons.prems, of ?name] by metis
      then have nz: "find_venue ?name r \<noteq> kNoVenue" by (auto simp: venue_ptr_def split: if_splits)
      let ?r = "upd_venue k (\<lambda>v. v\<lparr>v_state := st\<rparr>) r"
      have step: "set_states cfg (key # ks) r = set_states cfg ks ?r"
        using pre nz st k(3) by (simp add: Let_def set_venue_state_def)
      have nm: "map v_name (venues ?r) = map v_name (venues r)"
        using k(1) by (auto simp: upd_venue_def list_eq_iff_nth_eq nth_list_update)
      have "names_ok ?r" using names_ok_cong [OF nm] Cons.prems by simp
      note IH = Cons.IH [OF this]
      note state_after_key [OF Cons.prems key st k(1,2), of ks]
      moreover have "v_name ` set (venues ?r) = v_name ` set (venues r)" using nm by (metis set_map)
      ultimately show ?thesis using IH True pre unfolding step by (simp add: upd_venue_def)
    qed
  qed
qed

section \<open>Routes\<close>

abbreviation route_key_ok :: "Config \<Rightarrow> string set \<Rightarrow> string \<Rightarrow> bool" where
  "route_key_ok cfg names key \<equiv> has_prefix kRoutePrefix key \<longrightarrow>
     parse_symbol (drop (length kRoutePrefix) key) \<noteq> None \<and> trim (get_str cfg key []) \<in> names"

text \<open>The keys that route a symbol: more than one when the symbol is also written with leading zeros.\<close>

definition route_keys :: "Symbol \<Rightarrow> string list \<Rightarrow> string list" where
  "route_keys sm ks = filter (\<lambda>key. has_prefix kRoutePrefix key
     \<and> parse_symbol (drop (length kRoutePrefix) key) = Some sm) ks"

lemma route_keys_Cons [simp]:
  "route_keys sm (key # ks) =
     (if has_prefix kRoutePrefix key \<and> parse_symbol (drop (length kRoutePrefix) key) = Some sm
      then key # route_keys sm ks else route_keys sm ks)"
  by (simp add: route_keys_def)

definition route_after :: "Config \<Rightarrow> string list \<Rightarrow> OrderRouter \<Rightarrow> Symbol \<rightharpoonup> VenueId" where
  "route_after cfg ks r = (\<lambda>sm. if route_keys sm ks = [] then routes r sm
     else Some (find_venue (trim (get_str cfg (last (route_keys sm ks)) [])) r))"

lemma find_venue_routes [simp]: "find_venue name (r\<lparr>routes := m\<rparr>) = find_venue name r"
  by (simp add: find_venue_def)

lemma map_routes_spec:
  assumes "names_ok r"
  shows "(fst (map_routes cfg ks r) = None \<longleftrightarrow> (\<forall>key\<in>set ks. route_key_ok cfg (v_name ` set (venues r)) key))
    \<and> (fst (map_routes cfg ks r) = None \<longrightarrow> snd (map_routes cfg ks r) = r\<lparr>routes := route_after cfg ks r\<rparr>)"
  using assms
proof (induction ks arbitrary: r)
  case Nil
  then show ?case by (simp add: route_after_def route_keys_def)
next
  case (Cons key ks)
  let ?sym = "parse_symbol (drop (length kRoutePrefix) key)" and ?name = "trim (get_str cfg key [])"
  show ?case
  proof (cases "has_prefix kRoutePrefix key")
    case False
    then have "route_after cfg (key # ks) r = route_after cfg ks r" by (auto simp: route_after_def fun_eq_iff)
    then show ?thesis using Cons.IH [OF Cons.prems] False by simp
  next
    case pre: True
    show ?thesis
    proof (cases "route_key_ok cfg (v_name ` set (venues r)) key")
      case False
      then have "fst (map_routes cfg (key # ks) r) \<noteq> None"
        using pre find_venue_None [OF Cons.prems, of ?name] by (auto simp: Let_def split: option.split)
      then show ?thesis using False by auto
    next
      case True
      then obtain sm where sm: "?sym = Some sm" using pre by auto
      from True pre obtain k where "venue_ptr (find_venue ?name r) r = Some k"
        using find_venue_Some [OF Cons.prems, of ?name] by metis
      moreover from this have "find_venue ?name r \<noteq> kNoVenue" by (auto simp: venue_ptr_def split: if_splits)
      moreover define r1 where "r1 = r\<lparr>routes := (routes r)(sm \<mapsto> find_venue ?name r)\<rparr>"
      ultimately have step: "map_routes cfg (key # ks) r = map_routes cfg ks r1"
        using pre sm by (simp add: Let_def map_symbol_def)
      have "names_ok r1" using Cons.prems by (simp add: r1_def names_ok_def)
      note IH = Cons.IH [OF this]
      have "route_after cfg ks r1 = route_after cfg (key # ks) r"
        using pre sm by (auto simp: r1_def route_after_def fun_eq_iff)
      then show ?thesis using IH True pre unfolding step by (simp add: r1_def)
    qed
  qed
qed

section \<open>The whole configuration\<close>

definition venue_names :: "Config \<Rightarrow> string list" where
  "venue_names cfg = split_csv (get_str cfg ''venues'' [])"

text \<open>
  A consistent configuration: venues are named once each and fit the identifiers, initial states are
  given for declared venues and recognised, routes have a symbol and lead to a declared venue.
\<close>

definition consistent :: "Config \<Rightarrow> bool" where
  "consistent cfg \<longleftrightarrow> distinct (venue_names cfg) \<and> length (venue_names cfg) \<le> 0xFFFE
     \<and> (\<forall>key\<in>set (keys cfg). state_key_ok cfg (set (venue_names cfg)) key)
     \<and> (\<forall>key\<in>set (keys cfg). route_key_ok cfg (set (venue_names cfg)) key)"

definition configured :: "Config \<Rightarrow> u32 \<Rightarrow> nat \<Rightarrow> OrderRouter" where
  "configured cfg e b =
     (let vs = map (\<lambda>name. (new_venue name)\<lparr>v_state := state_after cfg (keys cfg) (new_venue name)\<rparr>) (venue_names cfg);
          r = (new_router e b)\<lparr>venues := vs\<rparr>
      in r\<lparr>routes := route_after cfg (keys cfg) r\<rparr>)"

lemma no_error_pair:
  "(fst x = None \<longleftrightarrow> P) \<and> (fst x = None \<longrightarrow> snd x = y) \<Longrightarrow> (fst x = None \<longleftrightarrow> P) \<and> (P \<longrightarrow> x = (None, y))"
  by (cases x) auto

lemma configure_spec:
  "(fst (configure_router cfg (new_router e b)) = None \<longleftrightarrow> consistent cfg)
   \<and> (consistent cfg \<longrightarrow> configure_router cfg (new_router e b) = (None, configured cfg e b))"
proof -
  let ?r = "new_router e b" and ?names = "venue_names cfg"
  let ?r1 = "?r\<lparr>venues := map new_venue ?names\<rparr>"
  let ?r2 = "?r1\<lparr>venues := map (\<lambda>v. v\<lparr>v_state := state_after cfg (keys cfg) v\<rparr>) (venues ?r1)\<rparr>"
  have v: "venues ?r = []" by (simp add: new_router_def Let_def)
  have n: "[] \<notin> set ?names" by (simp add: venue_names_def split_csv_nonempty)
  have ok: "names_ok ?r" using new_router_ok by (simp add: router_ok_def)
  note A = add_venues_spec [OF ok n, unfolded v, simplified]
  show ?thesis
  proof (cases "distinct ?names \<and> length ?names \<le> 0xFFFE")
    case False
    then have "fst (add_venues ?names ?r) \<noteq> None" using A by blast
    then show ?thesis
      using False by (auto simp: configure_router_def consistent_def venue_names_def split: prod.split option.split)
  next
    case True
    with A have a: "add_venues ?names ?r = (None, ?r1)" by (metis prod.collapse)
    have ok1: "names_ok ?r1" using True n by (simp add: names_ok_def image_image comp_def)
    have set1: "v_name ` set (venues ?r1) = set ?names" by (simp add: image_image)
    note S = set_states_spec [OF ok1, of cfg "keys cfg", unfolded set1]
    show ?thesis
    proof (cases "\<forall>key\<in>set (keys cfg). state_key_ok cfg (set ?names) key")
      case False
      then have "fst (set_states cfg (keys cfg) ?r1) \<noteq> None" using S by blast
      then show ?thesis
        using False a by (auto simp: configure_router_def consistent_def venue_names_def split: prod.split option.split)
    next
      case st: True
      then have s: "set_states cfg (keys cfg) ?r1 = (None, ?r2)" by (rule no_error_pair [OF S, THEN conjunct2, THEN mp])
      have "map v_name (venues ?r1) = map v_name (venues ?r2)" by simp
      with ok1 have ok2: "names_ok ?r2" using names_ok_cong by blast
      have set2: "v_name ` set (venues ?r2) = set ?names" by (simp add: image_image)
      note R = map_routes_spec [OF ok2, of cfg "keys cfg", unfolded set2]
      have c: "configure_router cfg ?r = map_routes cfg (keys cfg) ?r2"
        using a s by (simp add: configure_router_def flip: venue_names_def)
      have d: "?r2\<lparr>routes := route_after cfg (keys cfg) ?r2\<rparr> = configured cfg e b"
        by (simp add: configured_def Let_def comp_def)
      have i: "consistent cfg \<longleftrightarrow> (\<forall>key\<in>set (keys cfg). route_key_ok cfg (set ?names) key)"
        using True st by (simp add: consistent_def)
      show ?thesis unfolding c i d [symmetric] by (rule no_error_pair [OF R])
    qed
  qed
qed

section \<open>Configuring is a run of the router\<close>

lemma add_venues_reach:
  "reach init router_step s \<Longrightarrow> reach init router_step (s\<lparr>rt := snd (add_venues names (rt s))\<rparr>)"
proof (induction names arbitrary: s)
  case (Cons name names)
  have "reach init router_step (s\<lparr>rt := snd (add_venue name Down (rt s))\<rparr>)"
    by (rule reach.more [OF Cons.prems router_step.add])
  from this Cons.IH [OF this] show ?case by (simp add: case_prod_beta Let_def)
qed simp

lemma set_states_reach:
  "reach init router_step s \<Longrightarrow> reach init router_step (s\<lparr>rt := snd (set_states cfg ks (rt s))\<rparr>)"
proof (induction ks arbitrary: s)
  case (Cons key ks)
  have "reach init router_step (s\<lparr>rt := snd (set_venue_state v st (rt s))\<rparr>)" for v st
    by (rule reach.more [OF Cons.prems router_step.state])
  from Cons.IH [OF this] Cons.IH [OF Cons.prems] Cons.prems show ?case by (simp add: Let_def split: option.split)
qed simp

lemma map_routes_reach:
  "reach init router_step s \<Longrightarrow> reach init router_step (s\<lparr>rt := snd (map_routes cfg ks (rt s))\<rparr>)"
proof (induction ks arbitrary: s)
  case (Cons key ks)
  have "reach init router_step (s\<lparr>rt := snd (map_symbol sm v (rt s))\<rparr>)" for sm v
    by (rule reach.more [OF Cons.prems router_step.mapped])
  from Cons.IH [OF this] Cons.IH [OF Cons.prems] Cons.prems show ?case by (simp add: Let_def split: option.split)
qed simp

lemma configure_reach:
  "reach (\<lambda>s. s = start_router e b) router_step
     \<lparr>rt = snd (configure_router cfg (new_router e b)), log = []\<rparr>"
proof -
  let ?reach = "\<lambda>r. reach (\<lambda>s. s = start_router e b) router_step \<lparr>rt = r, log = []\<rparr>"
  have "?reach (new_router e b)" by (rule reach.start) (simp add: start_router_def)
  then have a: "?reach (snd (add_venues ns (new_router e b)))" for ns
    using add_venues_reach [of _ "\<lparr>rt = new_router e b, log = []\<rparr>" ns] by simp
  have s: "?reach (snd (set_states cfg ks r))" "?reach (snd (map_routes cfg ks r))" if "?reach r" for r ks
    using set_states_reach [OF that, of cfg ks] map_routes_reach [OF that, of cfg ks] by simp_all
  obtain e1 r1 where A: "add_venues (split_csv (get_str cfg ''venues'' [])) (new_router e b) = (e1, r1)"
    by (rule prod.exhaust)
  obtain e2 r2 where S: "set_states cfg (keys cfg) r1 = (e2, r2)" by (rule prod.exhaust)
  have 1: "?reach r1" using a [of "split_csv (get_str cfg ''venues'' [])"] by (simp add: A)
  then have 2: "?reach r2" using s(1) [of r1 "keys cfg"] by (simp add: S)
  show ?thesis
    using 1 2 s(2) [OF 2] by (cases e1; cases e2) (simp_all add: configure_router_def A S)
qed

section \<open>Properties\<close>

text \<open>
  (C36) A configuration is refused, with an error message, exactly when it is inconsistent: a venue named
  twice or too many of them, a state for an undeclared venue or one that is not recognised, a
  route whose symbol is not a 32-bit decimal number or that leads to an undeclared venue.  No
  problem is skipped over.
\<close>

theorem configure_refuses_iff: "fst (configure_router cfg (new_router e b)) = None \<longleftrightarrow> consistent cfg"
  using configure_spec by blast

text \<open>
  (C35) An accepted configuration is applied completely: the venues are the declared ones in their order,
  each is down unless its state key says otherwise, with sequence number zero; each symbol with
  a route leads to the venue that the route names (the last key in string order, when several
  keys denote the same number), every other symbol is unmapped; and the router is in a reachable
  state, so all that holds of its runs holds from there on.
\<close>

theorem configure_applies:
  assumes "configure_router cfg (new_router e b) = (None, r)"
  shows "venues r = map (\<lambda>name. \<lparr>v_name = name,
        v_state = (if has cfg (kStatePrefix @ name) then the (parse_state (get_str cfg (kStatePrefix @ name) [])) else Down),
        v_seq = 0, v_routed = 0\<rparr>) (venue_names cfg)
    \<and> (\<forall>sm. if route_keys sm (keys cfg) = [] then routes r sm = None
        else venue_name (venue_for sm r) r = trim (get_str cfg (last (route_keys sm (keys cfg))) []))
    \<and> reach (\<lambda>s. s = start_router e b) router_step \<lparr>rt = r, log = []\<rparr>"
proof -
  have con: "consistent cfg" using configure_spec [of cfg e b] assms by simp
  then have r: "r = configured cfg e b" using configure_spec [of cfg e b] assms by simp
  have re: "reach (\<lambda>s. s = start_router e b) router_step \<lparr>rt = r, log = []\<rparr>"
    using configure_reach [of e b cfg] assms by simp
  then have ok: "names_ok r" using router_sys.reach_inv [OF re] by (simp add: run_inv_def ids_inv_def router_ok_def)
  have hk: "key \<in> set (keys cfg) \<longleftrightarrow> has cfg key" for key
    by (simp add: keys_def has_def map_of_eq_None_iff)
  have v: "venues r = map (\<lambda>name. (new_venue name)\<lparr>v_state := state_after cfg (keys cfg) (new_venue name)\<rparr>) (venue_names cfg)"
    by (simp add: r configured_def Let_def)
  have rt0: "routes (new_router e b) = Map.empty" by (simp add: new_router_def Let_def)
  have fv: "find_venue name (new_router e b\<lparr>venues := venues r\<rparr>) = find_venue name r" for name
    by (simp add: find_venue_def)
  have rts: "routes r sm = (if route_keys sm (keys cfg) = [] then None
      else Some (find_venue (trim (get_str cfg (last (route_keys sm (keys cfg))) [])) r))" for sm
    using rt0 fv by (simp add: r configured_def Let_def route_after_def)
  have "venue_name (venue_for sm r) r = trim (get_str cfg (last (route_keys sm (keys cfg))) [])"
    if "route_keys sm (keys cfg) \<noteq> []" for sm
  proof -
    let ?key = "last (route_keys sm (keys cfg))"
    have "?key \<in> set (route_keys sm (keys cfg))" using that by simp
    then have "has_prefix kRoutePrefix ?key" "?key \<in> set (keys cfg)" by (auto simp: route_keys_def)
    then have "trim (get_str cfg ?key []) \<in> set (venue_names cfg)" using con by (simp add: consistent_def)
    then have "trim (get_str cfg ?key []) \<in> v_name ` set (venues r)" by (simp add: v image_image)
    from find_venue_Some [OF ok this] show ?thesis
      using that by (metis (no_types, lifting) rts venue_for_def venue_name_def option.simps(5))
  qed
  with rts re show ?thesis by (simp add: v state_after_def hk)
qed

definition demo_config :: Config where
  "demo_config = from_string
     (''venues: XNAS, ARCX'' @ [CHR 0x0A] @ ''route.7: ARCX'' @ [CHR 0x0A] @ ''venue_state.ARCX: up'')"

theorem configure_applies_witness:
  "\<exists>r. configure_router demo_config (new_router 3 8) = (None, r)
     \<and> venue_name (venue_for 7 r) r = ''ARCX'' \<and> map v_state (venues r) = [Down, Up]"
proof -
  have ks: "keys demo_config = [''route.7'', ''venue_state.ARCX'', ''venues'']" by code_simp
  have n: "venue_names demo_config = [''XNAS'', ''ARCX'']" by code_simp
  have t: "trim (get_str demo_config ''route.7'' []) = ''ARCX''" by code_simp
  have p: "parse_symbol ''7'' = Some 7"
    by (simp add: parse_symbol_def strtoull_def digits_value_def digit_def isdigit_def of_char_def)
  have st: "\<not> has demo_config (kStatePrefix @ ''XNAS'')" "has demo_config (kStatePrefix @ ''ARCX'')"
    "parse_state (get_str demo_config (kStatePrefix @ ''ARCX'') []) = Some Up"
    by code_simp+
  have k: "route_keys 7 (keys demo_config) = [''route.7'']"
    by (simp add: ks p has_prefix_def kRoutePrefix_def) (simp add: route_keys_def)
  have "consistent demo_config"
    using st(3) by (simp add: consistent_def ks n t p has_prefix_def kRoutePrefix_def kStatePrefix_def)
  then have c: "configure_router demo_config (new_router 3 8) = (None, configured demo_config 3 8)" (is "_ = (None, ?r)")
    using configure_spec by blast
  note P = configure_applies [OF c]
  have "venue_name (venue_for 7 ?r) ?r = ''ARCX''"
    using P [THEN conjunct2, THEN conjunct1, THEN spec, of 7] by (simp only: k t list.simps if_False if_True last.simps refl simp_thms)
  moreover have "map v_state (venues ?r) = [Down, Up]"
    using arg_cong [OF P [THEN conjunct1], of "map v_state"]
    by (simp only: n st list.map Venue.select_convs if_True if_False option.sel)
  ultimately show ?thesis using c by (intro exI [of _ ?r] conjI)
qed

end
