(* ===== verification/Latency_Histogram.thy ===== *)
theory Latency_Histogram
  imports Prelude
begin

text \<open>
  The latency histogram of \<^verbatim>\<open>include/lloms/latency_histogram.hpp\<close> and
  \<^verbatim>\<open>src/latency_histogram.cpp\<close>.  Its floating-point computations are parameters: the accumulation
  \<open>fadd\<close> and the quotient \<open>fmean\<close> of the running sum, and the rank that \<^verbatim>\<open>percentile\<close> computes from
  its argument in \<^verbatim>\<open>double\<close> arithmetic before it clamps it.
\<close>

section \<open>The histogram and its operations\<close>

text \<open>The loop of \<^verbatim>\<open>bit_length\<close>, which the compiler intrinsic computes too.\<close>

function bit_length :: "u64 \<Rightarrow> nat" where
  "bit_length v = (if v = 0 then 0 else Suc (bit_length (drop_bit 1 v)))"
  by auto
termination
proof (relation "measure unat", goal_cases)
  case (2 v)
  then have "0 < unat v" by (simp add: unat_gt_0)
  then show ?case by (simp add: drop_bit_eq_div unat_div_distrib)
qed simp

declare bit_length.simps [simp del]

definition clampi :: "int \<Rightarrow> int \<Rightarrow> int \<Rightarrow> int" where
  "clampi v lo hi = (if v < lo then lo else if v > hi then hi else v)"

record 'f LatencyHistogram =
  sub_bits :: nat
  sub_count :: u64
  sub_half :: u64
  counts :: "u64 list"
  total_n :: u64
  min_v :: u64
  max_v :: u64
  sum_v :: 'f

definition new_histogram :: "'f \<Rightarrow> int \<Rightarrow> 'f LatencyHistogram" where
  "new_histogram fzero precision_bits =
     (let sb = nat (clampi precision_bits 1 14);
          sc = push_bit sb 1;
          sh = drop_bit 1 sc;
          max_bucket = 64 - of_nat sb
      in \<lparr>sub_bits = sb, sub_count = sc, sub_half = sh,
          counts = replicate (unat ((max_bucket + 2) * sh) + 1) 0,
          total_n = 0, min_v = - 1, max_v = 0, sum_v = fzero\<rparr>)"

definition bucket_of :: "'f LatencyHistogram \<Rightarrow> u64 \<Rightarrow> u64" where
  "bucket_of h value = of_nat (bit_length (value OR (sub_count h - 1))) - of_nat (sub_bits h)"

definition index_for :: "'f LatencyHistogram \<Rightarrow> u64 \<Rightarrow> u64" where
  "index_for h value =
     (let bucket = bucket_of h value; sub = drop_bit (unat bucket) value
      in (bucket + 1) * sub_half h + (sub - sub_half h))"

definition value_from_index :: "'f LatencyHistogram \<Rightarrow> u64 \<Rightarrow> u64" where
  "value_from_index h index =
     (if index < sub_count h then index
      else
        let bucket = index div sub_half h - 1; offset = index mod sub_half h; sub = offset + sub_half h
        in push_bit (unat bucket) sub)"

definition record_value :: "('f \<Rightarrow> u64 \<Rightarrow> 'f) \<Rightarrow> u64 \<Rightarrow> 'f LatencyHistogram \<Rightarrow> 'f LatencyHistogram" where
  "record_value fadd value h0 =
     (let h1 = h0\<lparr>total_n := total_n h0 + 1, sum_v := fadd (sum_v h0) value\<rparr>;
          h2 = (if value < min_v h1 then h1\<lparr>min_v := value\<rparr> else h1);
          h = (if value > max_v h2 then h2\<lparr>max_v := value\<rparr> else h2);
          idx = unat (index_for h value)
      in if idx < length (counts h) then h\<lparr>counts := (counts h)[idx := counts h ! idx + 1]\<rparr>
         else h\<lparr>counts := (counts h)[length (counts h) - 1 := last (counts h) + 1]\<rparr>)"

definition count_hist :: "'f LatencyHistogram \<Rightarrow> u64" where
  "count_hist h = total_n h"

definition min_hist :: "'f LatencyHistogram \<Rightarrow> u64" where
  "min_hist h = (if total_n h \<noteq> 0 then min_v h else 0)"

definition max_hist :: "'f LatencyHistogram \<Rightarrow> u64" where
  "max_hist h = max_v h"

definition mean :: "('f \<Rightarrow> u64 \<Rightarrow> 'd) \<Rightarrow> 'd \<Rightarrow> 'f LatencyHistogram \<Rightarrow> 'd" where
  "mean fmean dzero h = (if total_n h \<noteq> 0 then fmean (sum_v h) (total_n h) else dzero)"

text \<open>The loop over the buckets, from bucket \<open>i\<close> with \<open>cum\<close> samples below it.\<close>

fun percentile_loop :: "'f LatencyHistogram \<Rightarrow> u64 \<Rightarrow> nat \<Rightarrow> u64 \<Rightarrow> u64 list \<Rightarrow> u64" where
  "percentile_loop h target i cum [] = max_v h"
| "percentile_loop h target i cum (c # cs) =
     (if cum + c \<ge> target then value_from_index h (of_nat i)
      else percentile_loop h target (Suc i) (cum + c) cs)"

text \<open>\<open>rank\<close> gives \<^verbatim>\<open>ceil(q / 100.0 * total)\<close> for the number of samples, with \<open>q\<close> clamped to 0..100.\<close>

definition percentile :: "(u64 \<Rightarrow> u64) \<Rightarrow> 'f LatencyHistogram \<Rightarrow> u64" where
  "percentile rank h =
     (if total_n h = 0 then 0
      else
        let target = rank (total_n h);
            target = (if target < 1 then 1 else target);
            target = (if target > total_n h then total_n h else target)
        in percentile_loop h target 0 0 (counts h))"

definition reset_hist :: "'f \<Rightarrow> 'f LatencyHistogram \<Rightarrow> 'f LatencyHistogram" where
  "reset_hist fzero h = h\<lparr>counts := replicate (length (counts h)) 0, total_n := 0, min_v := - 1, max_v := 0, sum_v := fzero\<rparr>"

section \<open>Bit lengths\<close>

lemma unat_less_pow_bits: "unat (w :: u64) < 2 ^ n \<longleftrightarrow> (\<forall>k\<ge>n. \<not> bit w k)"
proof -
  have "unat w < 2 ^ n \<longleftrightarrow> take_bit n (unat w) = unat w" by (simp add: take_bit_nat_eq_self_iff)
  also have "\<dots> \<longleftrightarrow> (\<forall>k. bit (unat w) k \<longrightarrow> k < n)" by (auto simp: bit_eq_iff bit_take_bit_iff)
  also have "\<dots> \<longleftrightarrow> (\<forall>k\<ge>n. \<not> bit w k)" by (auto simp: bit_unsigned_iff not_le [symmetric] dest: bit_imp_le_length)
  finally show ?thesis .
qed

lemma bit_length_le: "bit_length v \<le> n \<longleftrightarrow> unat v < 2 ^ n"
proof (induction v arbitrary: n rule: bit_length.induct)
  case (1 v)
  show ?case
  proof (cases "v = 0")
    case True
    then show ?thesis by (simp add: bit_length.simps)
  next
    case False
    have half: "unat (drop_bit 1 v) = unat v div 2" by (simp add: drop_bit_eq_div unat_div_distrib)
    have e: "bit_length v = Suc (bit_length (drop_bit 1 v))" using False by (subst bit_length.simps) simp
    have pos: "0 < unat v" using False by (simp add: unat_gt_0)
    show ?thesis
    proof (cases n)
      case 0
      then show ?thesis using e pos by simp
    next
      case (Suc m)
      then have "bit_length v \<le> n \<longleftrightarrow> unat v div 2 < 2 ^ m" using 1 [OF False, of m] by (simp only: e half Suc_le_mono)
      then show ?thesis using Suc by (simp add: div_less_iff_less_mult mult.commute)
    qed
  qed
qed

lemma bit_length_64: "bit_length v \<le> 64"
  using unsigned_less [where 'a = nat, of v] by (simp add: bit_length_le)

lemma bit_length_pow: "0 < bit_length v \<Longrightarrow> 2 ^ (bit_length v - 1) \<le> unat v"
  using bit_length_le [of v "bit_length v - 1"] by auto

lemma bit_length_or: "bit_length (v OR w) = max (bit_length v) (bit_length w)"
proof -
  have "bit_length (v OR w) \<le> n \<longleftrightarrow> max (bit_length v) (bit_length w) \<le> n" for n
    by (auto simp: bit_length_le unat_less_pow_bits bit_or_iff)
  then show ?thesis by (metis order.eq_iff)
qed

section \<open>The bucket of a value\<close>

text \<open>The layout that the constructor computes.\<close>

definition layout_ok :: "'f LatencyHistogram \<Rightarrow> bool" where
  "layout_ok h \<longleftrightarrow> 1 \<le> sub_bits h \<and> sub_bits h \<le> 14 \<and> sub_count h = 2 ^ sub_bits h
     \<and> sub_half h = 2 ^ (sub_bits h - 1) \<and> length (counts h) = (66 - sub_bits h) * 2 ^ (sub_bits h - 1) + 1"

lemma unat_pow2: "n < 64 \<Longrightarrow> unat (2 ^ n :: u64) = 2 ^ n"
proof -
  assume "n < 64"
  then have "(2 :: nat) ^ n < 2 ^ 64" by (intro power_strict_increasing) simp_all
  then have "unat (of_nat (2 ^ n) :: u64) = 2 ^ n" by (simp only: unat_of_nat mod_less) simp
  then show ?thesis by simp
qed

lemma pow2_bound: "n \<le> 14 \<Longrightarrow> (2 :: nat) ^ n \<le> 16384"
  using power_increasing [of n 14 "2 :: nat"] by simp

lemma new_histogram_layout: "layout_ok (new_histogram fzero p)"
proof -
  define sb where "sb = nat (clampi p 1 14)"
  have sb: "1 \<le> sb" "sb \<le> 14" by (auto simp: sb_def clampi_def)
  then obtain n where n: "sb = Suc n" by (cases sb) auto
  have half: "drop_bit 1 (push_bit sb 1 :: u64) = 2 ^ n"
    using sb unat_pow2 [of sb] unat_pow2 [of n]
    by (simp add: word_unat_eq_iff n drop_bit_eq_div push_bit_eq_mult unat_div_distrib)
  have "(64 - of_nat sb + 2) * 2 ^ n = (of_nat ((66 - sb) * 2 ^ n) :: u64)"
    using sb by (simp add: of_nat_diff)
  moreover have "(66 - sb) * 2 ^ n \<le> 66 * 16384"
    using pow2_bound [of n] sb n by (intro mult_mono) simp_all
  ultimately have "unat ((64 - of_nat sb + 2) * 2 ^ n :: u64) = (66 - sb) * 2 ^ n"
    by (simp only: unat_of_nat) simp
  then show ?thesis
    using sb n half by (simp add: layout_ok_def new_histogram_def Let_def push_bit_eq_mult flip: sb_def)
qed

text \<open>The same over the natural numbers: the exponent of a value and its position.\<close>

definition exponent :: "nat \<Rightarrow> u64 \<Rightarrow> nat" where
  "exponent sb v = bit_length v - sb"

definition position :: "nat \<Rightarrow> u64 \<Rightarrow> nat" where
  "position sb v = exponent sb v * 2 ^ (sb - 1) + unat v div 2 ^ exponent sb v"

lemma exponent_bounds: "1 \<le> sb \<Longrightarrow> exponent sb v + sb \<le> 64 \<or> exponent sb v = 0"
  using bit_length_64 [of v] by (auto simp: exponent_def)

lemma sub_bounds:
  assumes "1 \<le> sb"
  shows "unat v div 2 ^ exponent sb v < 2 ^ sb"
    and "0 < exponent sb v \<Longrightarrow> 2 ^ (sb - 1) \<le> unat v div 2 ^ exponent sb v"
proof -
  let ?b = "exponent sb v"
  have "bit_length v \<le> ?b + sb" by (simp add: exponent_def)
  then have "unat v < 2 ^ (?b + sb)" by (simp only: bit_length_le)
  then show "unat v div 2 ^ ?b < 2 ^ sb" by (simp add: less_mult_imp_div_less power_add mult.commute)
  assume b: "0 < ?b"
  then have "2 ^ (bit_length v - 1) \<le> unat v" by (intro bit_length_pow) (simp add: exponent_def)
  moreover have "bit_length v - 1 = ?b + (sb - 1)" using b assms by (simp add: exponent_def)
  ultimately have "2 ^ ?b * 2 ^ (sb - 1) \<le> unat v" by (simp add: power_add)
  then show "2 ^ (sb - 1) \<le> unat v div 2 ^ ?b" by (simp add: less_eq_div_iff_mult_less_eq mult.commute)
qed

lemma position_bound:
  assumes "1 \<le> sb" "sb \<le> 14"
  shows "position sb v < (66 - sb) * 2 ^ (sb - 1)"
proof -
  let ?b = "exponent sb v" and ?H = "2 ^ (sb - 1) :: nat"
  have two: "(2 :: nat) ^ sb = 2 * ?H" using assms(1) by (cases sb) simp_all
  have "?b \<le> 64 - sb" using exponent_bounds [OF assms(1), of v] by auto
  then have "?b * ?H \<le> (64 - sb) * ?H" by simp
  moreover have "unat v div 2 ^ ?b < 2 * ?H" using sub_bounds(1) [OF assms(1), of v] two by simp
  moreover have "66 - sb = (64 - sb) + 2" using assms(2) by simp
  then have "(66 - sb) * ?H = (64 - sb) * ?H + 2 * ?H" by (simp only: add_mult_distrib)
  ultimately show ?thesis unfolding position_def by linarith
qed

lemma position_mono:
  assumes "1 \<le> sb" "v \<le> w"
  shows "position sb v \<le> position sb w"
proof -
  let ?b = "exponent sb v" and ?c = "exponent sb w" and ?H = "2 ^ (sb - 1) :: nat"
  have two: "(2 :: nat) ^ sb = 2 * ?H" using assms(1) by (cases sb) simp_all
  have le: "unat v \<le> unat w" using assms(2) by (simp add: word_le_nat_alt)
  have "unat v < 2 ^ bit_length w" using le bit_length_le [of w "bit_length w"] by simp
  then have "bit_length v \<le> bit_length w" by (simp only: bit_length_le)
  then have "?b \<le> ?c" by (simp add: exponent_def)
  then consider "?b = ?c" | "?b + 1 \<le> ?c" by linarith
  then show ?thesis
  proof cases
    case 1
    then show ?thesis using le by (simp add: position_def div_le_mono)
  next
    case 2
    then have "(?b + 1) * ?H \<le> ?c * ?H" by (intro mult_right_mono) simp_all
    then have "?b * ?H + ?H \<le> ?c * ?H" by simp
    moreover have "?H \<le> unat w div 2 ^ ?c" using 2 by (intro sub_bounds(2) [OF assms(1)]) simp
    ultimately show ?thesis using sub_bounds(1) [OF assms(1), of v] two by (simp add: position_def)
  qed
qed

lemma layout_bits: "layout_ok h \<Longrightarrow> 1 \<le> sub_bits h" "layout_ok h \<Longrightarrow> sub_bits h \<le> 14"
  by (simp_all add: layout_ok_def)

lemma bucket_of_exponent:
  assumes "layout_ok h"
  shows "unat (bucket_of h v) = exponent (sub_bits h) v"
proof -
  let ?sb = "sub_bits h"
  have sb: "1 \<le> ?sb" "?sb \<le> 14" by (fact layout_bits [OF assms])+
  have u: "unat (2 ^ ?sb - 1 :: u64) = 2 ^ ?sb - 1"
    using unat_pow2 [of ?sb] sb by (subst unat_minus_one) (auto simp: word_unat_eq_iff)
  have "bit_length (2 ^ ?sb - 1) \<le> n \<longleftrightarrow> ?sb \<le> n" for n
  proof -
    have "(1 :: nat) \<le> 2 ^ ?sb" by simp
    then have "(2 :: nat) ^ ?sb - 1 < 2 ^ n \<longleftrightarrow> (2 :: nat) ^ ?sb \<le> 2 ^ n" by linarith
    then show ?thesis by (simp only: bit_length_le u) simp
  qed
  then have "bit_length (2 ^ ?sb - 1) = ?sb" by (metis order.eq_iff)
  then have "bit_length (v OR (sub_count h - 1)) = max (bit_length v) ?sb"
    using assms by (simp add: layout_ok_def bit_length_or)
  then have "bucket_of h v = of_nat (exponent ?sb v)"
    by (simp add: bucket_of_def exponent_def max_def of_nat_diff)
  moreover have "exponent ?sb v < 2 ^ 64" using bit_length_64 [of v] by (simp add: exponent_def)
  ultimately show ?thesis by (simp add: unat_of_nat)
qed

lemma index_for_position:
  assumes "layout_ok h"
  shows "unat (index_for h v) = position (sub_bits h) v" "index_for h v = of_nat (position (sub_bits h) v)"
proof -
  let ?sb = "sub_bits h" and ?b = "exponent (sub_bits h) v"
  have sb: "1 \<le> ?sb" "?sb \<le> 14" by (fact layout_bits [OF assms])+
  have b: "unat (bucket_of h v) = ?b" by (rule bucket_of_exponent [OF assms])
  then have w: "bucket_of h v = of_nat ?b" by (metis of_nat_unat ucast_id)
  have "unat (drop_bit ?b v) = unat v div 2 ^ ?b"
    using unsigned_less [where 'a = nat, of v]
    by (simp only: unsigned_drop_bit_eq [where 'a = nat] take_bit_nat_eq_self) (simp add: drop_bit_eq_div)
  then have sub: "drop_bit ?b v = of_nat (unat v div 2 ^ ?b)" by (metis of_nat_unat ucast_id)
  have half: "sub_half h = of_nat (2 ^ (?sb - 1))" using assms by (simp add: layout_ok_def)
  have "index_for h v = (bucket_of h v + 1) * sub_half h + (drop_bit ?b v - sub_half h)"
    by (simp only: index_for_def Let_def b)
  also have "\<dots> = of_nat (position ?sb v)" unfolding w sub half by (simp add: position_def algebra_simps)
  finally show i: "index_for h v = of_nat (position ?sb v)" .
  have "(66 - ?sb) * 2 ^ (?sb - 1) \<le> 66 * 16384" using pow2_bound [of "?sb - 1"] sb by (intro mult_mono) simp_all
  then have "position ?sb v < 2 ^ 64" using position_bound [OF sb, of v] by simp
  then show "unat (index_for h v) = position ?sb v" by (simp add: i unat_of_nat)
qed

lemma div_mod_step:
  assumes "H \<le> s" "s < 2 * (H :: nat)"
  shows "(b * H + s) div H = b + 1" "(b * H + s) mod H = s - H"
proof -
  from assms(1) obtain r where r: "s = H + r" using le_Suc_ex by blast
  then have "r < H" using assms(2) by simp
  moreover from this have "0 < H" by simp
  ultimately show "(b * H + s) div H = b + 1" "(b * H + s) mod H = s - H"
    unfolding r by (simp_all add: div_add_self1)
qed

lemma value_from_position:
  assumes "layout_ok h"
  shows "unat (value_from_index h (index_for h v)) =
    unat v div 2 ^ exponent (sub_bits h) v * 2 ^ exponent (sub_bits h) v"
proof -
  let ?sb = "sub_bits h" and ?b = "exponent (sub_bits h) v" and ?i = "index_for h v"
  let ?s = "unat v div 2 ^ ?b" and ?H = "2 ^ (sub_bits h - 1) :: nat"
  have sb: "1 \<le> ?sb" "?sb \<le> 14" by (fact layout_bits [OF assms])+
  have two: "(2 :: nat) ^ ?sb = 2 * ?H" using sb(1) by (cases ?sb) simp_all
  have i: "unat ?i = ?b * ?H + ?s" using index_for_position(1) [OF assms] by (simp add: position_def)
  have sc: "unat (sub_count h) = 2 * ?H" using unat_pow2 [of ?sb] sb two assms by (simp add: layout_ok_def)
  have sh: "unat (sub_half h) = ?H" using unat_pow2 [of "?sb - 1"] sb assms by (simp add: layout_ok_def)
  have s2: "?s < 2 * ?H" using sub_bounds(1) [OF sb(1), of v] two by simp
  show ?thesis
  proof (cases "?b = 0")
    case True
    then show ?thesis using i s2 sc by (simp add: value_from_index_def word_less_nat_alt)
  next
    case False
    then have s1: "?H \<le> ?s" by (intro sub_bounds(2) [OF sb(1)]) simp
    have "1 * ?H \<le> ?b * ?H" using False by (intro mult_right_mono) simp_all
    then have "unat (sub_count h) \<le> unat ?i" unfolding i sc using s1 by linarith
    then have ge: "\<not> ?i < sub_count h" by (simp add: word_less_nat_alt)
    note dv = div_mod_step [OF s1 s2, of ?b]
    have "unat (?i div sub_half h) = ?b + 1" using dv(1) by (simp add: unat_div_distrib i sh)
    then have bk: "unat (?i div sub_half h - 1) = ?b" by (subst unat_minus_one) (auto simp: word_unat_eq_iff)
    have "unat (?i mod sub_half h) = ?s - ?H" using dv(2) by (simp add: unat_mod_distrib i sh)
    moreover have "?H \<le> 16384" using pow2_bound [of "?sb - 1"] sb by simp
    ultimately have su: "unat (?i mod sub_half h + sub_half h) = ?s"
      using s1 s2 sh by (subst unat_plus_if') simp
    have "?s * 2 ^ ?b \<le> unat v" by simp
    also have "\<dots> < 2 ^ 64" using unsigned_less [where 'a = nat, of v] by simp
    finally have fit: "?s * 2 ^ ?b < 2 ^ 64" .
    have "value_from_index h ?i = push_bit ?b (?i mod sub_half h + sub_half h)"
      using ge bk by (simp add: value_from_index_def Let_def)
    then have "unat (value_from_index h ?i) = take_bit LENGTH(64) (push_bit ?b ?s)"
      by (simp only: unsigned_push_bit_eq [where 'a = nat] su)
    then show ?thesis using fit by (simp add: push_bit_eq_mult take_bit_nat_eq_self)
  qed
qed

section \<open>What a sequence of samples leaves\<close>

definition recorded :: "('f \<Rightarrow> u64 \<Rightarrow> 'f) \<Rightarrow> 'f \<Rightarrow> int \<Rightarrow> u64 list \<Rightarrow> 'f LatencyHistogram" where
  "recorded fadd fzero p vs = fold (record_value fadd) vs (new_histogram fzero p)"

text \<open>The samples of a bucket.\<close>

definition tally :: "nat \<Rightarrow> u64 list \<Rightarrow> nat \<Rightarrow> nat" where
  "tally sb vs i = length (filter (\<lambda>v. position sb v = i) vs)"

definition hist_inv :: "'f LatencyHistogram \<Rightarrow> u64 list \<Rightarrow> bool" where
  "hist_inv h vs \<longleftrightarrow> layout_ok h \<and> total_n h = of_nat (length vs)
     \<and> counts h = map (\<lambda>i. of_nat (tally (sub_bits h) vs i)) [0..<length (counts h)]
     \<and> min_v h = fold min vs (- 1) \<and> max_v h = fold max vs 0"

lemma new_histogram_inv: "hist_inv (new_histogram fzero p) []"
proof -
  let ?h = "new_histogram fzero p"
  have "counts ?h = replicate (length (counts ?h)) 0" "total_n ?h = 0" "min_v ?h = - 1" "max_v ?h = 0"
    by (simp_all add: new_histogram_def Let_def)
  then show ?thesis
    unfolding hist_inv_def using new_histogram_layout [of fzero p] by (simp add: tally_def map_replicate_const)
qed

lemma index_for_frame [simp]:
  "index_for (h\<lparr>total_n := a\<rparr>) v = index_for h v" "index_for (h\<lparr>sum_v := f\<rparr>) v = index_for h v"
  "index_for (h\<lparr>min_v := a\<rparr>) v = index_for h v" "index_for (h\<lparr>max_v := a\<rparr>) v = index_for h v"
  by (simp_all add: index_for_def bucket_of_def)

lemma record_value_inv:
  assumes "hist_inv h vs"
  shows "hist_inv (record_value fadd v h) (vs @ [v])" "sub_bits (record_value fadd v h) = sub_bits h"
proof -
  let ?i = "position (sub_bits h) v" and ?r = "record_value fadd v h"
  have lay: "layout_ok h" using assms by (simp add: hist_inv_def)
  have ix: "unat (index_for h v) = ?i" by (rule index_for_position(1) [OF lay])
  have bound: "?i < length (counts h)" using position_bound [OF layout_bits [OF lay], of v] lay by (simp add: layout_ok_def)
  have c: "counts ?r = (counts h)[?i := counts h ! ?i + 1]" using ix bound by (simp add: record_value_def Let_def)
  have r: "total_n ?r = total_n h + 1" "min_v ?r = min v (min_v h)" "max_v ?r = max v (max_v h)"
    "sub_count ?r = sub_count h" "sub_half ?r = sub_half h"
    by (auto simp: record_value_def Let_def min_def max_def)
  show sb: "sub_bits ?r = sub_bits h" by (simp add: record_value_def Let_def)
  have old: "counts h ! j = of_nat (tally (sub_bits h) vs j)" if "j < length (counts h)" for j
  proof -
    have "counts h = map (\<lambda>i. of_nat (tally (sub_bits h) vs i)) [0..<length (counts h)]"
      using assms by (simp only: hist_inv_def)
    from arg_cong [OF this, of "\<lambda>cs. cs ! j"] that show ?thesis by simp
  qed
  have "(counts h)[?i := counts h ! ?i + 1] = map (\<lambda>j. of_nat (tally (sub_bits h) (vs @ [v]) j)) [0..<length (counts h)]"
    using old bound by (intro nth_equalityI) (auto simp: nth_list_update tally_def)
  then show "hist_inv (record_value fadd v h) (vs @ [v])"
    using assms lay by (simp add: hist_inv_def layout_ok_def c r sb)
qed

lemma recorded_inv: "hist_inv (recorded fadd fzero p vs) vs \<and> sub_bits (recorded fadd fzero p vs) = nat (clampi p 1 14)"
proof (induction vs rule: rev_induct)
  case Nil
  then show ?case using new_histogram_inv [of fzero p] by (simp add: recorded_def) (simp add: new_histogram_def Let_def)
next
  case (snoc v vs)
  then show ?case using record_value_inv [of "recorded fadd fzero p vs" vs fadd v] by (simp add: recorded_def)
qed

section \<open>Ranks\<close>

text \<open>The loop stops in the bucket in which the running count reaches the target.\<close>

lemma percentile_loop_stops:
  assumes "c < t" "t \<le> c + sum_list ns" "c + sum_list ns < 2 ^ 64"
  shows "\<exists>k<length ns. c + sum_list (take k ns) < t \<and> t \<le> c + sum_list (take (Suc k) ns)
    \<and> percentile_loop h (of_nat t) i (of_nat c) (map of_nat ns) = value_from_index h (of_nat (i + k))"
  using assms
proof (induction ns arbitrary: c i)
  case (Cons n ns)
  have "c + n < 2 ^ 64" "t < 2 ^ 64" using Cons.prems by simp_all
  then have u: "unat (of_nat (c + n) :: u64) = c + n" "unat (of_nat t :: u64) = t"
    by (simp_all only: unat_of_nat) simp_all
  then have cmp: "(of_nat t :: u64) \<le> of_nat c + of_nat n \<longleftrightarrow> t \<le> c + n"
    unfolding word_le_nat_alt of_nat_add [symmetric] by simp
  show ?case
  proof (cases "t \<le> c + n")
    case True
    then show ?thesis using Cons.prems cmp by (intro exI [of _ 0]) simp
  next
    case False
    then obtain k where "k < length ns" "c + n + sum_list (take k ns) < t" "t \<le> c + n + sum_list (take (Suc k) ns)"
      "percentile_loop h (of_nat t) (Suc i) (of_nat (c + n)) (map of_nat ns) = value_from_index h (of_nat (Suc i + k))"
      using Cons.IH [of "c + n" "Suc i"] Cons.prems by auto
    then show ?thesis using False cmp by (intro exI [of _ "Suc k"]) (simp add: add.assoc)
  qed
qed simp

lemma sum_tally: "sum_list (map (tally sb vs) [0..<k]) = length (filter (\<lambda>v. position sb v < k) vs)"
proof (induction k)
  case (Suc k)
  have "length (filter (\<lambda>v. position sb v < Suc k) vs) =
      length (filter (\<lambda>v. position sb v < k) vs) + length (filter (\<lambda>v. position sb v = k) vs)"
    by (induction vs) (auto simp: less_Suc_eq)
  with Suc show ?case by (simp add: tally_def)
qed simp

text \<open>In a sorted list the number of elements below a bound tells which elements are.\<close>

lemma rank_iff:
  assumes "sorted xs" "j < length xs" "\<And>x y. x \<le> y \<Longrightarrow> f x \<le> (f y :: nat)"
  shows "f (xs ! j) < k \<longleftrightarrow> j < length (filter (\<lambda>x. f x < k) xs)"
proof -
  let ?P = "\<lambda>x. f x < k"
  have split: "length (filter ?P xs) = length (filter ?P (take n xs)) + length (filter ?P (drop n xs))" for n
    by (metis append_take_drop_id filter_append length_append)
  show ?thesis
  proof (cases "?P (xs ! j)")
    case True
    have "?P x" if x: "x \<in> set (take (Suc j) xs)" for x
    proof -
      obtain m where "m < Suc j" "x = xs ! m" using x assms(2) by (auto simp: in_set_conv_nth)
      then have "f x \<le> f (xs ! j)" using assms(2) by (intro assms(3)) (simp add: sorted_nth_mono [OF assms(1)])
      then show ?thesis using True by linarith
    qed
    then have "filter ?P (take (Suc j) xs) = take (Suc j) xs" by (simp add: filter_id_conv)
    then have "Suc j \<le> length (filter ?P xs)" using split [of "Suc j"] assms(2) by simp
    with True show ?thesis by simp
  next
    case False
    have "\<not> ?P x" if x: "x \<in> set (drop j xs)" for x
    proof -
      obtain m where "j \<le> m" "m < length xs" "x = xs ! m"
        using x by (auto simp: in_set_conv_nth) (metis add.commute le_add1 less_diff_conv)
      then have "f (xs ! j) \<le> f x" by (intro assms(3)) (simp add: sorted_nth_mono [OF assms(1)])
      then show ?thesis using False by linarith
    qed
    then have "filter ?P (drop j xs) = []" by (simp add: filter_empty_conv)
    then have "length (filter ?P xs) \<le> j" using split [of j] length_filter_le [of ?P "take j xs"] by simp
    with False show ?thesis by simp
  qed
qed

lemma percentile_position:
  assumes inv: "hist_inv h vs" and "vs \<noteq> []" "length vs < 2 ^ 64"
    and t: "t = max 1 (min (unat (rank (of_nat (length vs)))) (length vs))"
  shows "percentile rank h = value_from_index h (index_for h (sort vs ! (t - 1)))"
proof -
  let ?sb = "sub_bits h" and ?n = "length vs" and ?L = "length (counts h)"
  have lay: "layout_ok h" and tot: "total_n h = of_nat ?n"
    and cs: "counts h = map (\<lambda>i. of_nat (tally ?sb vs i)) [0..<?L]"
    using inv by (simp_all only: hist_inv_def)
  note sb = layout_bits [OF lay]
  define ns where "ns = map (tally ?sb vs) [0..<?L]"
  have below: "sum_list (take k ns) = length (filter (\<lambda>v. position ?sb v < k) vs)" if "k \<le> ?L" for k
    using sum_tally [of ?sb vs k] that by (simp add: ns_def take_map take_upt)
  have "position ?sb v < ?L" for v using position_bound [OF sb, of v] lay by (simp add: layout_ok_def)
  then have all: "sum_list ns = ?n" using below [of ?L] by (simp add: ns_def)
  have tn: "1 \<le> t" "t \<le> ?n" using assms(2) t by (auto simp: Suc_le_eq)
  have un: "unat (total_n h) = ?n" using assms(3) tot by (simp add: unat_of_nat)
  have "(let target = rank (total_n h); target = (if target < 1 then 1 else target)
      in if target > total_n h then total_n h else target) = of_nat t"
    unfolding Let_def t tot [symmetric] using un assms(2,3) tn
    by (auto simp: word_less_nat_alt word_unat_eq_iff unat_of_nat max_def min_def)
  then have "percentile rank h = percentile_loop h (of_nat t) 0 (of_nat 0) (map of_nat ns)"
    using un assms(2) cs by (simp add: percentile_def Let_def ns_def comp_def) auto
  moreover obtain k where k: "k < length ns" "0 + sum_list (take k ns) < t" "t \<le> 0 + sum_list (take (Suc k) ns)"
      "percentile_loop h (of_nat t) 0 (of_nat 0) (map of_nat ns) = value_from_index h (of_nat (0 + k))"
    using percentile_loop_stops [of 0 t ns h 0] tn all assms(3) by auto
  moreover have "k = position ?sb (sort vs ! (t - 1))"
  proof -
    let ?x = "sort vs ! (t - 1)"
    have kL: "Suc k \<le> ?L" using k(1) by (simp add: ns_def)
    have iff: "position ?sb ?x < j \<longleftrightarrow> t - 1 < length (filter (\<lambda>v. position ?sb v < j) vs)" for j
      using rank_iff [of "sort vs" "t - 1" "position ?sb" j] tn position_mono [OF sb(1)] by (simp add: filter_sort)
    have "position ?sb ?x < Suc k" using k(3) tn below [OF kL] by (subst iff) simp
    moreover have "\<not> position ?sb ?x < k" using k(2) tn below [of k] kL by (subst iff) simp
    ultimately show ?thesis by simp
  qed
  ultimately show ?thesis using index_for_position(2) [OF lay] by simp
qed

lemma bucket_error:
  fixes h :: "'f LatencyHistogram" and v :: u64
  assumes "layout_ok h"
  defines "lo \<equiv> value_from_index h (index_for h v)"
  shows "lo \<le> v \<and> (lo = v \<or> (unat v - unat lo) * 2 ^ (sub_bits h - 1) < unat lo)"
proof -
  let ?b = "exponent (sub_bits h) v" and ?H = "2 ^ (sub_bits h - 1) :: nat"
  note sb = layout_bits [OF assms(1)]
  have lo: "unat lo = unat v div 2 ^ ?b * 2 ^ ?b" unfolding lo_def by (rule value_from_position [OF assms(1)])
  then have le: "unat lo \<le> unat v" by simp
  have diff: "unat v - unat lo = unat v mod 2 ^ ?b" unfolding lo by (simp add: minus_div_mult_eq_mod)
  have "(unat v - unat lo) * ?H < unat lo" if "0 < ?b"
  proof -
    have "(unat v - unat lo) * ?H < 2 ^ ?b * ?H" unfolding diff by simp
    also have "\<dots> \<le> 2 ^ ?b * (unat v div 2 ^ ?b)" using sub_bounds(2) [OF sb(1) that] by simp
    finally show ?thesis unfolding lo by (simp add: mult.commute)
  qed
  moreover have "lo = v" if "?b = 0" using lo that by (simp add: word_unat_eq_iff)
  ultimately show ?thesis using le by (auto simp: word_le_nat_alt)
qed

lemma fold_min_word: "vs \<noteq> [] \<Longrightarrow> fold min vs (- 1 :: u64) = Min (set vs)"
proof -
  assume "vs \<noteq> []"
  then have "Min (set (- 1 # vs)) = min (- 1) (Min (set vs))" by simp
  moreover have "Min (set vs) \<le> (- 1 :: u64)" by simp
  ultimately show ?thesis by (metis Min.set_eq_fold min_absorb2)
qed

lemma fold_max_word: "vs \<noteq> [] \<Longrightarrow> fold max vs (0 :: u64) = Max (set vs)"
proof -
  assume "vs \<noteq> []"
  then have "Max (set (0 # vs)) = max 0 (Max (set vs))" by simp
  moreover have "(0 :: u64) \<le> Max (set vs)" by simp
  ultimately show ?thesis by (metis Max.set_eq_fold max_absorb2)
qed

section \<open>Properties\<close>

text \<open>
  (C37) The bucket of a value, at every precision the constructor admits: its index is inside the array,
  so the defensive branch of \<^verbatim>\<open>record\<close> is never taken; the shift stays below the width; and the
  bucket's lower bound, which stands for the value from then on, is at most the value and misses it
  by less than one part in \<open>2\<^bsup>b-1\<^esup>\<close>, where \<open>b\<close> is the number of precision bits.
\<close>

theorem bucket_relative_error:
  "let h = new_histogram fzero p; lo = value_from_index h (index_for h v) in
     unat (index_for h v) < length (counts h) - 1 \<and> unat (bucket_of h v) < 64
     \<and> lo \<le> v \<and> (lo = v \<or> (unat v - unat lo) * 2 ^ (nat (clampi p 1 14) - 1) < unat lo)"
proof -
  let ?h = "new_histogram fzero p"
  have lay: "layout_ok ?h" by (rule new_histogram_layout)
  have "sub_bits ?h = nat (clampi p 1 14)" by (simp add: new_histogram_def Let_def)
  moreover have "unat (index_for ?h v) < length (counts ?h) - 1"
    using index_for_position(1) [OF lay] position_bound [OF layout_bits [OF lay], of v] lay by (simp add: layout_ok_def)
  moreover have "unat (bucket_of ?h v) < 64"
    using bucket_of_exponent [OF lay, of v] bit_length_64 [of v] layout_bits(1) [OF lay] by (simp add: exponent_def)
  ultimately show ?thesis using bucket_error [OF lay, of v] by (simp add: Let_def)
qed

text \<open>
  (C24) Percentiles are right up to the resolution: after any samples, whatever the floating-point rank
  computation yields, \<^verbatim>\<open>percentile\<close> returns the lower bound of the bucket that holds the sample of
  that rank (the rank clamped to 1 and the number of samples), within the relative error of the
  buckets below the exact order statistic; count, minimum and maximum are exact.
\<close>

theorem percentile_rank:
  fixes vs :: "u64 list" and fadd :: "'f \<Rightarrow> u64 \<Rightarrow> 'f" and fzero :: 'f and p :: int and rank :: "u64 \<Rightarrow> u64"
  assumes "vs \<noteq> []" "length vs < 2 ^ 64"
  defines "h \<equiv> recorded fadd fzero p vs"
    and "x \<equiv> sort vs ! (max 1 (min (unat (rank (of_nat (length vs)))) (length vs)) - 1)"
  shows "percentile rank h = value_from_index h (index_for h x)
    \<and> percentile rank h \<le> x
    \<and> (percentile rank h = x \<or>
        (unat x - unat (percentile rank h)) * 2 ^ (nat (clampi p 1 14) - 1) < unat (percentile rank h))
    \<and> unat (count_hist h) = length vs \<and> min_hist h = Min (set vs) \<and> max_hist h = Max (set vs)"
proof -
  have inv: "hist_inv h vs" and sb: "sub_bits h = nat (clampi p 1 14)" by (simp_all add: h_def recorded_inv)
  have pos: "percentile rank h = value_from_index h (index_for h x)"
    unfolding x_def by (rule percentile_position [OF inv assms(1,2) refl])
  have "layout_ok h" using inv by (simp add: hist_inv_def)
  note err = bucket_error [OF this, of x, folded pos, unfolded sb]
  have tot: "unat (total_n h) = length vs" using inv assms(2) by (simp add: hist_inv_def unat_of_nat)
  then have "total_n h \<noteq> 0" using assms(1) by auto
  moreover have "min_v h = Min (set vs)" "max_v h = Max (set vs)"
    using inv assms(1) by (simp_all add: hist_inv_def fold_min_word fold_max_word)
  ultimately show ?thesis using pos err tot by (simp add: count_hist_def min_hist_def max_hist_def)
qed

theorem percentile_rank_witness:
  "let h = recorded (\<lambda>s v. s + unat v) 0 6 [3, 2111, 5] in
     percentile (\<lambda>n. n) h \<le> 2111 \<and> unat (count_hist h) = 3 \<and> min_hist h = 3 \<and> max_hist h = 2111"
proof -
  have s: "sort [3, 2111, 5 :: u64] = [3, 5, 2111]" by (simp add: sort_key_def)
  have "Min {3, 2111, 5 :: u64} = 3" "Max {3, 2111, 5 :: u64} = 2111" by simp_all
  with percentile_rank [where vs = "[3, 2111, 5]" and fadd = "\<lambda>s v. s + unat v" and fzero = 0 and p = 6 and rank = "\<lambda>n. n"] s show ?thesis
    by (auto simp: Let_def)
qed

end
