(* ===== verification/Feed_Handler.thy ===== *)
theory Feed_Handler
  imports Matching_Engine Risk_Gate Flat_Config
begin

text \<open>
  The feed handler of \<^verbatim>\<open>apps/feed_handler_linux.cpp\<close> up to its threads: the 24-byte frames, the
  reader that cuts the byte streams of its connections into orders, the consumer that sends the
  orders through the risk gate into the matching engine, and the frames that
  \<^verbatim>\<open>bench/bench_feed_client.cpp\<close> sends.  Sockets are the sequence of events that they deliver.  The
  frames are copied into integers as they are in memory, so the host is little-endian.
\<close>

section \<open>Frames\<close>

definition kFrameSize :: nat where
  "kFrameSize = 24"

text \<open>\<^verbatim>\<open>memcpy\<close> of bytes into an unsigned integer, and back.\<close>

definition le_value :: "u8 list \<Rightarrow> nat" where
  "le_value bs = foldr (\<lambda>b n. unat b + 256 * n) bs 0"

fun le_bytes :: "nat \<Rightarrow> nat \<Rightarrow> u8 list" where
  "le_bytes 0 n = []"
| "le_bytes (Suc k) n = of_nat n # le_bytes k (n div 256)"

definition decode :: "u8 list \<Rightarrow> Order" where
  "decode buf =
     \<lparr>o_id = 0,
      o_symbol = of_nat (le_value (slice 0 4 buf)),
      o_side = (if buf ! 4 = 0 then Buy else Sell),
      o_type = (if buf ! 5 = 0 then Limit else Market),
      o_price = sint (of_nat (le_value (slice 8 8 buf)) :: u64),
      o_qty = sint (of_nat (le_value (slice 16 8 buf)) :: u64)\<rparr>"

text \<open>The inner loop of the reader: whole frames are taken off the front of the buffer.\<close>

function frames :: "u8 list \<Rightarrow> Order list \<times> u8 list" where
  "frames buf =
     (if length buf \<ge> kFrameSize then
        let (os, rest) = frames (drop kFrameSize buf) in (decode buf # os, rest)
      else ([], buf))"
  by auto
termination
  by (relation "measure length") (simp_all add: kFrameSize_def)

declare frames.simps [simp del]

text \<open>The client's frame and its bytes.\<close>

record Frame =
  fr_symbol :: u32
  fr_side :: u8
  fr_type :: u8
  fr_pad :: u16
  fr_price :: u64
  fr_qty :: u64

definition frame_bytes :: "Frame \<Rightarrow> u8 list" where
  "frame_bytes f = le_bytes 4 (unat (fr_symbol f)) @ [fr_side f, fr_type f] @ le_bytes 2 (unat (fr_pad f))
     @ le_bytes 8 (unat (fr_price f)) @ le_bytes 8 (unat (fr_qty f))"

definition make_frame :: "u64 \<Rightarrow> Frame" where
  "make_frame i = \<lparr>fr_symbol = 1, fr_side = (if i mod 2 = 0 then 1 else 0), fr_type = 0, fr_pad = 0,
     fr_price = 100 + (i div 2) mod 32, fr_qty = 1\<rparr>"

section \<open>The reader\<close>

text \<open>
  What the sockets deliver: a connection accepted, the bytes of one successful \<^verbatim>\<open>read\<close>, the end of a
  connection.
\<close>

datatype event = Accepted nat | Bytes nat "u8 list" | PeerClosed nat

text \<open>\<open>pushed\<close> is the sequence of orders handed to the ring, each with the connection it came from.\<close>

record reader =
  partial :: "nat \<rightharpoonup> u8 list"
  pushed :: "(nat \<times> Order) list"

definition start_reader :: reader where
  "start_reader = \<lparr>partial = Map.empty, pushed = []\<rparr>"

text \<open>\<^verbatim>\<open>partial[fd]\<close> inserts an empty buffer when there is none.\<close>

definition buffer :: "nat \<Rightarrow> reader \<Rightarrow> u8 list" where
  "buffer fd r = (case partial r fd of None \<Rightarrow> [] | Some b \<Rightarrow> b)"

fun reader_event :: "event \<Rightarrow> reader \<Rightarrow> reader" where
  "reader_event (Accepted fd) r = r\<lparr>partial := (partial r)(fd \<mapsto> buffer fd r)\<rparr>"
| "reader_event (Bytes fd chunk) r =
     (let (os, rest) = frames (buffer fd r @ chunk)
      in r\<lparr>partial := (partial r)(fd \<mapsto> rest), pushed := pushed r @ map (Pair fd) os\<rparr>)"
| "reader_event (PeerClosed fd) r = r\<lparr>partial := (partial r)(fd := None)\<rparr>"

definition reader_run :: "event list \<Rightarrow> reader" where
  "reader_run evs = fold reader_event evs start_reader"

text \<open>
  After the loop: the connections still in the accept backlog, then one more pass over the
  connections; \<open>reads\<close> are the connections in the order of the pass, each with what its reads give.
\<close>

definition final_drain :: "nat list \<Rightarrow> (nat \<times> u8 list list) list \<Rightarrow> reader \<Rightarrow> reader" where
  "final_drain backlog reads r =
     fold (\<lambda>(fd, chunks). fold (\<lambda>chunk. reader_event (Bytes fd chunk)) chunks) reads
       (fold (\<lambda>fd. reader_event (Accepted fd)) backlog r)"

section \<open>The consumer\<close>

definition feed_limits :: "Config \<Rightarrow> RiskLimits" where
  "feed_limits cfg = \<lparr>max_order_qty = get_int cfg ''max_order_qty'' 1000, max_position = get_int cfg ''max_position'' 0,
     reference_price = get_int cfg ''reference_price'' 0, price_band = get_int cfg ''price_band'' 0\<rparr>"

record consumer_state =
  eng :: OrderBook
  matched :: u64
  rejected :: u64

definition start_consumer :: consumer_state where
  "start_consumer = \<lparr>eng = new_book 1, matched = 0, rejected = 0\<rparr>"

text \<open>One order that was popped; \<open>None\<close> is undefined behaviour in the gate or the engine.\<close>

definition consume :: "RiskLimits \<Rightarrow> Order \<Rightarrow> consumer_state \<Rightarrow> consumer_state option" where
  "consume lim ord c = do {
     d \<leftarrow> check lim ord 0;
     if d \<noteq> Accept then Some (c\<lparr>rejected := rejected c + 1\<rparr>)
     else do {
       (filled, fills, b) \<leftarrow> submit (eng c) ord [];
       Some (c\<lparr>eng := b, matched := matched c + of_nat (length fills)\<rparr>)
     }
   }"

fun consume_all :: "RiskLimits \<Rightarrow> Order list \<Rightarrow> consumer_state \<Rightarrow> consumer_state option" where
  "consume_all lim [] c = Some c"
| "consume_all lim (ord # os) c = do { c' \<leftarrow> consume lim ord c; consume_all lim os c' }"

section \<open>Frames are cut independently of the reads\<close>

lemma frames_short: "length buf < kFrameSize \<Longrightarrow> frames buf = ([], buf)"
  by (subst frames.simps) simp

lemma slice_append: "off + n \<le> length xs \<Longrightarrow> slice off n (xs @ ys) = slice off n xs"
  by (simp add: slice_def)

lemma decode_append: "length xs \<ge> kFrameSize \<Longrightarrow> decode (xs @ ys) = decode xs"
  by (simp add: decode_def kFrameSize_def slice_append nth_append)

lemma frames_append:
  "frames (xs @ ys) = (fst (frames xs) @ fst (frames (snd (frames xs) @ ys)), snd (frames (snd (frames xs) @ ys)))"
proof (induction xs rule: frames.induct)
  case (1 xs)
  show ?case
  proof (cases "length xs \<ge> kFrameSize")
    case True
    have l: "frames xs = (decode xs # fst (frames (drop kFrameSize xs)), snd (frames (drop kFrameSize xs)))"
      using True by (subst frames.simps) (simp add: case_prod_beta)
    have "frames (xs @ ys) = (decode xs # fst (frames (drop kFrameSize xs @ ys)), snd (frames (drop kFrameSize xs @ ys)))"
      using True by (subst frames.simps) (simp add: case_prod_beta decode_append)
    with 1 [OF True] l show ?thesis by simp
  next
    case False
    then have "frames xs = ([], xs)" by (intro frames_short) simp
    then show ?thesis by simp
  qed
qed

lemma frames_rest: "length (snd (frames xs)) < kFrameSize"
proof (induction xs rule: frames.induct)
  case (1 xs)
  then show ?case by (subst frames.simps) (auto simp: case_prod_beta)
qed

section \<open>Encoding and decoding of integers\<close>

lemma length_le_bytes [simp]: "length (le_bytes k n) = k"
  by (induction k n rule: le_bytes.induct) simp_all

lemma le_value_le_bytes: "le_value (le_bytes k n) = n mod 256 ^ k"
proof (induction k n rule: le_bytes.induct)
  case (2 k n)
  have "unat (of_nat n :: u8) = n mod 256" by (simp add: unat_of_nat)
  with 2 show ?case by (simp add: le_value_def mod_mult2_eq)
qed (simp add: le_value_def)

lemma le_value_word: "le_value (le_bytes 4 (unat (w :: u32))) = unat w" "le_value (le_bytes 8 (unat (v :: u64))) = unat v"
  using unsigned_less [where 'a = nat, of w] unsigned_less [where 'a = nat, of v]
  by (simp_all add: le_value_le_bytes)

text \<open>The order that a frame carries.\<close>

definition order_of :: "Frame \<Rightarrow> Order" where
  "order_of f = \<lparr>o_id = 0, o_symbol = fr_symbol f, o_side = (if fr_side f = 0 then Buy else Sell),
     o_type = (if fr_type f = 0 then Limit else Market), o_price = sint (fr_price f), o_qty = sint (fr_qty f)\<rparr>"

lemma decode_frame_bytes: "decode (frame_bytes f @ ys) = order_of f"
proof -
  have l: "length (frame_bytes f) = kFrameSize" by (simp add: frame_bytes_def kFrameSize_def)
  have "slice 0 4 (frame_bytes f) = le_bytes 4 (unat (fr_symbol f))"
    "slice 8 8 (frame_bytes f) = le_bytes 8 (unat (fr_price f))"
    "slice 16 8 (frame_bytes f) = le_bytes 8 (unat (fr_qty f))"
    "frame_bytes f ! 4 = fr_side f" "frame_bytes f ! 5 = fr_type f"
    by (simp_all add: frame_bytes_def slice_def nth_append del: le_bytes.simps)
  then show ?thesis using l by (simp add: decode_append) (simp add: decode_def order_of_def le_value_word)
qed

lemma frames_encoded: "frames (concat (map frame_bytes fs) @ ys) = (map order_of fs @ fst (frames ys), snd (frames ys))"
proof (induction fs)
  case (Cons f fs)
  have "length (frame_bytes f) = kFrameSize" by (simp add: frame_bytes_def kFrameSize_def)
  then have "frames (frame_bytes f @ zs) = (order_of f # fst (frames zs), snd (frames zs))" for zs
    by (subst frames.simps) (simp add: case_prod_beta decode_frame_bytes)
  with Cons show ?case by simp
qed simp

section \<open>Connections\<close>

text \<open>
  The bytes of a descriptor: of the connections on it that have ended, and of the current one.
\<close>

fun conn_event :: "nat \<Rightarrow> event \<Rightarrow> u8 list list \<times> u8 list \<Rightarrow> u8 list list \<times> u8 list" where
  "conn_event fd (Accepted f) (past, cur) = (past, cur)"
| "conn_event fd (Bytes f chunk) (past, cur) = (past, if f = fd then cur @ chunk else cur)"
| "conn_event fd (PeerClosed f) (past, cur) = (if f = fd then (past @ [cur], []) else (past, cur))"

definition conn_bytes :: "nat \<Rightarrow> event list \<Rightarrow> u8 list list \<times> u8 list" where
  "conn_bytes fd evs = fold (conn_event fd) evs ([], [])"

definition orders_of :: "nat \<Rightarrow> reader \<Rightarrow> Order list" where
  "orders_of fd r = map snd (filter (\<lambda>p. fst p = fd) (pushed r))"

lemma reader_run_snoc: "reader_run (evs @ [e]) = reader_event e (reader_run evs)"
  by (simp add: reader_run_def)

lemma conn_bytes_snoc: "conn_bytes fd (evs @ [e]) = conn_event fd e (conn_bytes fd evs)"
  by (simp add: conn_bytes_def)

lemma orders_of_bytes:
  "orders_of fd (reader_event (Bytes f chunk) r) =
     orders_of fd r @ (if f = fd then fst (frames (buffer f r @ chunk)) else [])"
  "buffer fd (reader_event (Bytes f chunk) r) = (if f = fd then snd (frames (buffer f r @ chunk)) else buffer fd r)"
  by (simp_all add: orders_of_def buffer_def case_prod_beta Let_def filter_map comp_def)

lemma orders_of_other:
  "orders_of fd (reader_event (Accepted f) r) = orders_of fd r"
  "orders_of fd (reader_event (PeerClosed f) r) = orders_of fd r"
  "buffer fd (reader_event (Accepted f) r) = buffer fd r"
  "buffer fd (reader_event (PeerClosed f) r) = (if f = fd then [] else buffer fd r)"
  by (auto simp: orders_of_def buffer_def split: option.splits)

lemma reader_conn:
  "orders_of fd (reader_run evs) = concat (map (fst \<circ> frames) (fst (conn_bytes fd evs) @ [snd (conn_bytes fd evs)]))
   \<and> buffer fd (reader_run evs) = snd (frames (snd (conn_bytes fd evs)))"
proof (induction evs rule: rev_induct)
  case Nil
  then show ?case
    by (simp add: reader_run_def conn_bytes_def start_reader_def orders_of_def buffer_def frames_short kFrameSize_def)
next
  case (snoc e evs)
  obtain past cur where c: "conn_bytes fd evs = (past, cur)" by (rule prod.exhaust)
  have e0: "frames [] = ([], [])" by (simp add: frames_short kFrameSize_def)
  show ?case
  proof (cases e)
    case (Accepted f)
    then show ?thesis using snoc c by (simp add: reader_run_snoc conn_bytes_snoc orders_of_other del: reader_event.simps)
  next
    case (Bytes f chunk)
    then show ?thesis
      using snoc c frames_append [of cur chunk]
      by (simp add: reader_run_snoc conn_bytes_snoc orders_of_bytes del: reader_event.simps)
  next
    case (PeerClosed f)
    then show ?thesis
      using snoc c e0 by (simp add: reader_run_snoc conn_bytes_snoc orders_of_other del: reader_event.simps)
  qed
qed

text \<open>The drain is more of the same: its effect is that of further events.\<close>

lemma final_drain_events:
  "final_drain backlog reads (reader_run evs) =
     reader_run (evs @ map Accepted backlog @ concat (map (\<lambda>(fd, chunks). map (Bytes fd) chunks) reads))"
proof -
  have "fold (\<lambda>(fd, chunks). fold (\<lambda>chunk. reader_event (Bytes fd chunk)) chunks) reads r =
      fold reader_event (concat (map (\<lambda>(fd, chunks). map (Bytes fd) chunks) reads)) r" for r
    by (induction reads arbitrary: r) (auto simp: fold_map comp_def)
  then show ?thesis by (simp add: final_drain_def reader_run_def fold_map comp_def)
qed

section \<open>The consumer on any input\<close>

definition limits_ok :: "RiskLimits \<Rightarrow> bool" where
  "limits_ok lim \<longleftrightarrow> (0 < price_band lim \<longrightarrow>
     i64_ok (reference_price lim - price_band lim) \<and> i64_ok (reference_price lim + price_band lim))"

definition admissible :: "RiskLimits \<Rightarrow> Order \<Rightarrow> bool" where
  "admissible lim ord \<longleftrightarrow> 0 < o_qty ord \<and> size_ok lim ord \<and> position_ok lim ord 0 \<and> collar_ok lim ord"

lemma check_flat:
  assumes "limits_ok lim" "order_typed ord"
  shows "\<exists>d. check lim ord 0 = Some d \<and> (d = Accept \<longleftrightarrow> admissible lim ord)"
proof (cases "0 < o_qty ord \<and> size_ok lim ord")
  case True
  then have "no_overflow lim ord 0"
    using assms by (auto simp: no_overflow_def limits_ok_def exposure_def order_typed_def i64_ok_def)
  with check_in_range [of ord lim 0] True assms(2) show ?thesis
    by (auto simp: order_typed_def admissible_def)
next
  case False
  then show ?thesis by (auto simp: check_def size_ok_def admissible_def)
qed

text \<open>
  The reference: a queue of resting orders per side and the number of fills, with the matching of
  the specification and no book behind it.
\<close>

type_synonym market = "(Side \<Rightarrow> Order list) \<times> nat"

definition rest_behind :: "Side \<Rightarrow> Order \<Rightarrow> Order list \<Rightarrow> Order list" where
  "rest_behind s t ms = takeWhile (\<lambda>m. at_least_as_good s (o_price m) (o_price t)) ms @
     t # dropWhile (\<lambda>m. at_least_as_good s (o_price m) (o_price t)) ms"

definition market_step :: "RiskLimits \<Rightarrow> Order \<Rightarrow> market \<Rightarrow> market" where
  "market_step lim t mk =
     (if \<not> admissible lim t then mk
      else
        let (q, n) = mk; s = o_side t; (fs, t', ms) = match_queue t (q (opposite s));
            own = (if 0 < o_qty t' \<and> o_type t = Limit then rest_behind s t' (q s) else q s)
        in (q(opposite s := ms, s := own), n + length fs))"

definition market_run :: "RiskLimits \<Rightarrow> Order list \<Rightarrow> market" where
  "market_run lim os = fold (market_step lim) os (\<lambda>s. [], 0)"

definition shows_market :: "consumer_state \<Rightarrow> market \<Rightarrow> bool" where
  "shows_market c mk \<longleftrightarrow> makers (eng c) = fst mk \<and> matched c = of_nat (snd mk)"

lemma makers_insert_behind: "map snd (insert_behind s n ns) = rest_behind s (snd n) (map snd ns)"
  by (simp add: insert_behind_def rest_behind_def takeWhile_map dropWhile_map comp_def)

lemma submit_market:
  assumes live: "live_book (eng c)" and q: "i64_ok (o_qty t)" and adm: "admissible lim t" and sh: "shows_market c mk"
    and s: "submit (eng c) t [] = Some (filled, fills, b)"
  shows "shows_market (c\<lparr>eng := b, matched := matched c + of_nat (length fills)\<rparr>) (market_step lim t mk)"
proof -
  obtain fs t' ms where m: "match_queue t (makers (eng c) (opposite (o_side t))) = (fs, t', ms)" by (rule prod_cases3)
  have b: "fills = fs" "makers b (opposite (o_side t)) = ms"
    "makers b (o_side t) = (if 0 < o_qty t' \<and> o_type t = Limit then rest_behind (o_side t) t' (makers (eng c) (o_side t))
       else makers (eng c) (o_side t))"
    using submit_matches [OF live q m, of "[]"] s by (auto simp: makers_def makers_insert_behind)
  have "makers b r = (fst (market_step lim t mk)) r" for r
    using side_cases2 [of r "o_side t"] b(2,3) adm sh m
    by (auto simp: market_step_def shows_market_def Let_def case_prod_beta)
  moreover have "snd (market_step lim t mk) = snd mk + length fs"
    using adm sh m by (simp add: market_step_def shows_market_def Let_def case_prod_beta)
  ultimately show ?thesis using sh b(1) by (auto simp: shows_market_def)
qed

lemma consume_step:
  assumes "limits_ok lim" "order_typed ord" "live_book (eng c)" "uncrossed (eng c)"
  obtains (reject) "\<not> admissible lim ord" "consume lim ord c = Some (c\<lparr>rejected := rejected c + 1\<rparr>)"
  | (match) filled fills b where "admissible lim ord" "submit (eng c) ord [] = Some (filled, fills, b)"
      "consume lim ord c = Some (c\<lparr>eng := b, matched := matched c + of_nat (length fills)\<rparr>)"
      "live_book b" "uncrossed b"
proof -
  obtain d where d: "check lim ord 0 = Some d" "d = Accept \<longleftrightarrow> admissible lim ord" using check_flat [OF assms(1,2)] by blast
  have q: "i64_ok (o_qty ord)" using assms(2) by (simp add: order_typed_def)
  obtain filled fills b where s: "submit (eng c) ord [] = Some (filled, fills, b)"
    using submit_defined [OF assms(3) q, of "[]"] by (metis prod_cases3)
  note inv = submit_live [OF assms(3) q s] submit_uncrossed [OF assms(3,4) q s]
  show ?thesis
  proof (cases "admissible lim ord")
    case True
    then show ?thesis using match [OF True s _ inv] d s by (simp add: consume_def)
  next
    case False
    then show ?thesis using reject d by (simp add: consume_def)
  qed
qed

lemma consume_all_total:
  assumes "limits_ok lim" "\<forall>ord\<in>set os. order_typed ord" "live_book (eng c)" "uncrossed (eng c)" "shows_market c mk"
  shows "\<exists>c'. consume_all lim os c = Some c' \<and> live_book (eng c') \<and> uncrossed (eng c')
    \<and> rejected c' = rejected c + of_nat (length (filter (\<lambda>ord. \<not> admissible lim ord) os))
    \<and> shows_market c' (fold (market_step lim) os mk)"
  using assms(2-)
proof (induction os arbitrary: c mk)
  case (Cons ord os)
  have ty: "order_typed ord" "\<forall>ord\<in>set os. order_typed ord" using Cons.prems(1) by simp_all
  then have q: "i64_ok (o_qty ord)" by (simp add: order_typed_def)
  from assms(1) ty(1) Cons.prems(2,3) show ?case
  proof (cases rule: consume_step)
    case reject
    then have sh: "shows_market (c\<lparr>rejected := rejected c + 1\<rparr>) (market_step lim ord mk)"
      using Cons.prems(4) by (simp add: shows_market_def market_step_def)
    show ?thesis
      using Cons.IH [OF ty(2) _ _ sh] Cons.prems(2,3) reject by (simp add: add.assoc)
  next
    case (match filled fills b)
    note sh = submit_market [OF Cons.prems(2) q match(1) Cons.prems(4) match(2)]
    show ?thesis using Cons.IH [OF ty(2) _ _ sh] match by simp
  qed
qed simp

lemma start_consumer_ok: "live_book (eng start_consumer)" "uncrossed (eng start_consumer)"
  by (simp_all add: start_consumer_def live_book_new)
     (simp add: uncrossed_def best_price_def best_level_def new_book_def book_def)

lemma start_market: "shows_market start_consumer (\<lambda>s. [], 0)"
  by (simp add: shows_market_def start_consumer_def makers_def priority_def new_book_def book_def fun_eq_iff)

text \<open>Every order that the reader pushes is one of 64-bit integers.\<close>

lemma frames_typed: "ord \<in> set (fst (frames xs)) \<Longrightarrow> order_typed ord"
proof (induction xs rule: frames.induct)
  case (1 xs)
  then show ?case
    by (subst (asm) frames.simps) (auto simp: case_prod_beta order_typed_def decode_def split: if_splits)
qed

lemma pushed_typed: "ord \<in> snd ` set (pushed (reader_run evs)) \<Longrightarrow> order_typed ord"
proof (induction evs rule: rev_induct)
  case (snoc e evs)
  then show ?case
    by (cases e) (auto simp: reader_run_snoc case_prod_beta Let_def dest: frames_typed)
qed (simp add: reader_run_def start_reader_def)

text \<open>The orders of a stream of bytes by position: one for every whole frame in it.\<close>

definition whole_frames :: "u8 list \<Rightarrow> Order list" where
  "whole_frames bs = map (\<lambda>i. decode (slice (i * kFrameSize) kFrameSize bs)) [0..<length bs div kFrameSize]"

lemma frames_blocks: "frames bs = (whole_frames bs, drop (length bs div kFrameSize * kFrameSize) bs)"
proof (induction bs rule: frames.induct)
  case (1 bs)
  show ?case
  proof (cases "length bs \<ge> kFrameSize")
    case False
    then show ?thesis by (simp add: frames_short whole_frames_def)
  next
    case True
    let ?r = "drop kFrameSize bs"
    have n: "length bs div kFrameSize = Suc (length ?r div kFrameSize)"
      using True by (simp add: kFrameSize_def le_div_geq)
    have "decode bs = decode (slice 0 kFrameSize bs)"
      using decode_append [of "take kFrameSize bs" ?r] True by (simp add: slice_def)
    moreover have "slice (Suc i * kFrameSize) kFrameSize bs = slice (i * kFrameSize) kFrameSize ?r" for i
      by (simp add: slice_def add.commute)
    ultimately have "whole_frames bs = decode bs # whole_frames ?r"
      unfolding whole_frames_def n upt_conv_Cons [OF zero_less_Suc] map_Suc_upt [symmetric] by (simp add: comp_def)
    moreover have "drop (length bs div kFrameSize * kFrameSize) bs = drop (length ?r div kFrameSize * kFrameSize) ?r"
      unfolding n by (simp add: add.commute)
    ultimately show ?thesis
      using 1 [OF True] by (subst frames.simps) (simp add: True)
  qed
qed

section \<open>Properties\<close>

text \<open>
  (C39) However the kernel cuts and interleaves the byte streams of the connections, the orders pushed
  for a descriptor are exactly the successive whole frames of the bytes that arrived on it, decoded
  each on its own, connection after connection and in order; the bytes behind the last whole frame
  wait in its buffer, less than one frame, and when a connection ends they are dropped and never
  join the next connection's bytes.  Decoding gives back the order that a client put into a frame.
\<close>

theorem feed_reader_streams:
  "orders_of fd (reader_run evs) = concat (map whole_frames (fst (conn_bytes fd evs) @ [snd (conn_bytes fd evs)]))
   \<and> buffer fd (reader_run evs) = drop (length (snd (conn_bytes fd evs)) div kFrameSize * kFrameSize) (snd (conn_bytes fd evs))
   \<and> length (buffer fd (reader_run evs)) < kFrameSize
   \<and> (\<forall>f. decode (frame_bytes f) = order_of f)"
proof -
  have "length (buffer fd (reader_run evs)) < kFrameSize" using reader_conn [of fd evs] frames_rest by simp
  moreover have "orders_of fd (reader_run evs) = concat (map whole_frames (fst (conn_bytes fd evs) @ [snd (conn_bytes fd evs)]))"
    "buffer fd (reader_run evs) = drop (length (snd (conn_bytes fd evs)) div kFrameSize * kFrameSize) (snd (conn_bytes fd evs))"
    using reader_conn [of fd evs] by (simp_all add: frames_blocks comp_def)
  moreover have "decode (frame_bytes f) = order_of f" for f using decode_frame_bytes [of f "[]"] by simp
  ultimately show ?thesis by blast
qed

theorem feed_reader_streams_witness:
  "orders_of 7 (reader_run [Bytes 7 (take 5 (frame_bytes (make_frame 0))), Bytes 8 [1], Bytes 7 (drop 5 (frame_bytes (make_frame 0)) @ [9])])
     = [\<lparr>o_id = 0, o_symbol = 1, o_side = Sell, o_type = Limit, o_price = 100, o_qty = 1\<rparr>]"
proof -
  let ?f = "frame_bytes (make_frame 0)"
  let ?evs = "[Bytes 7 (take 5 ?f), Bytes 8 [1], Bytes 7 (drop 5 ?f @ [9])]"
  have c: "conn_bytes 7 ?evs = ([], ?f @ [9])" by (simp add: conn_bytes_def)
  have "length ?f = 24" by (simp add: frame_bytes_def)
  then have "whole_frames (?f @ [9]) = [decode ?f]" by (simp add: whole_frames_def slice_def kFrameSize_def)
  with feed_reader_streams [of 7 ?evs] c show ?thesis by (simp add: order_of_def make_frame_def)
qed

text \<open>
  Frames of the client survive the connection: the bytes of any frames, followed by the beginning
  of another, are cut into exactly the orders that the frames describe.
\<close>

theorem feed_frame_roundtrip:
  assumes "length tail_bytes < kFrameSize"
  shows "frames (concat (map frame_bytes fs) @ tail_bytes) = (map order_of fs, tail_bytes)"
  using frames_encoded [of fs tail_bytes] frames_short [OF assms] by simp

theorem feed_frame_roundtrip_witness:
  "frames (frame_bytes (make_frame 5) @ [1, 2, 3]) =
     ([\<lparr>o_id = 0, o_symbol = 1, o_side = Buy, o_type = Limit, o_price = 102, o_qty = 1\<rparr>], [1, 2, 3])"
proof -
  have "length [1, 2, 3 :: u8] < kFrameSize" by (simp add: kFrameSize_def)
  from feed_frame_roundtrip [OF this, of "[make_frame 5]"] show ?thesis
    by (simp add: make_frame_def order_of_def)
qed

text \<open>
  From any bytes on any connections, the consumer runs into no undefined behaviour: with limits
  whose price band is representable, every order is checked and, exactly when it is within every
  limit, submitted; the book is well-formed and never crossed; its queues and the count of fills
  are those of the reference market on the same orders; and the number of rejected orders is the
  number of orders outside the limits.
\<close>

theorem feed_end_to_end:
  assumes "limits_ok lim"
  shows "\<exists>c. consume_all lim (map snd (pushed (reader_run evs))) start_consumer = Some c
    \<and> live_book (eng c) \<and> uncrossed (eng c)
    \<and> shows_market c (market_run lim (map snd (pushed (reader_run evs))))
    \<and> rejected c = of_nat (length (filter (\<lambda>p. \<not> admissible lim (snd p)) (pushed (reader_run evs))))"
proof -
  have "\<forall>ord\<in>set (map snd (pushed (reader_run evs))). order_typed ord" using pushed_typed by auto
  moreover have "rejected start_consumer = 0" by (simp add: start_consumer_def)
  ultimately show ?thesis
    using consume_all_total [OF assms _ start_consumer_ok start_market]
    unfolding market_run_def by (fastforce simp: filter_map comp_def)
qed

theorem feed_end_to_end_witness:
  "\<exists>c. consume_all (feed_limits empty_config)
      (map snd (pushed (reader_run [Accepted 4, Bytes 4 [1, 2], PeerClosed 4]))) start_consumer = Some c
    \<and> rejected c = 0"
proof -
  have "limits_ok (feed_limits empty_config)"
    by (simp add: limits_ok_def feed_limits_def get_int_def empty_config_def)
  moreover have "pushed (reader_run [Accepted 4, Bytes 4 [1, 2], PeerClosed 4]) = []"
    by (simp add: reader_run_def start_reader_def buffer_def frames_short kFrameSize_def)
  ultimately show ?thesis using feed_end_to_end [of "feed_limits empty_config" "[Accepted 4, Bytes 4 [1, 2], PeerClosed 4]"]
    by auto
qed

text \<open>
  Two connections of the benchmark client, four frames each, and one order in which the handler may
  see them.
\<close>

definition bench_limits :: RiskLimits where
  "bench_limits = \<lparr>max_order_qty = 1000, max_position = 100000, reference_price = 115, price_band = 40\<rparr>"

definition bench_events :: "event list" where
  "bench_events = map (\<lambda>(fd, i). Bytes fd (frame_bytes (make_frame i)))
     [(1, 0), (1, 1), (1, 2), (2, 0), (1, 3), (2, 1), (2, 2), (2, 3)]"

lemma frames_one: "frames (frame_bytes f) = ([order_of f], [])"
  using frames_encoded [of "[f]" "[]"] by (simp add: frames_short kFrameSize_def)

lemma reader_whole_frame:
  "buffer fd r = [] \<Longrightarrow> reader_event (Bytes fd (frame_bytes f)) r =
     r\<lparr>partial := (partial r)(fd \<mapsto> []), pushed := pushed r @ [(fd, order_of f)]\<rparr>"
  by (simp add: frames_one)

lemma reader_whole_frames:
  "(\<forall>fd. buffer fd r = []) \<Longrightarrow>
   pushed (fold reader_event (map (\<lambda>(fd, f). Bytes fd (frame_bytes f)) xs) r) = pushed r @ map (\<lambda>(fd, f). (fd, order_of f)) xs"
proof (induction xs arbitrary: r)
  case (Cons x xs)
  obtain fd f where x: "x = (fd, f)" by (rule prod.exhaust)
  have e: "reader_event (Bytes fd (frame_bytes f)) r =
      r\<lparr>partial := (partial r)(fd \<mapsto> []), pushed := pushed r @ [(fd, order_of f)]\<rparr>" (is "_ = ?r")
    using Cons.prems by (intro reader_whole_frame) simp
  have "\<forall>fd. buffer fd ?r = []" using Cons.prems by (simp add: buffer_def)
  from Cons.IH [OF this] show ?case by (simp add: x e del: reader_event.simps)
qed simp

text \<open>
  The number of fills of the load benchmark depends on how the handler's reads of different
  connections interleave, even when no frame is lost: here both connections' four frames arrive
  complete and in order and none is rejected, and the eight orders give three fills, not four.
\<close>

theorem bench_tally_varies:
  "\<exists>c. consume_all bench_limits (map snd (pushed (reader_run bench_events))) start_consumer = Some c
     \<and> matched c = 3 \<and> rejected c = 0
     \<and> orders_of 1 (reader_run bench_events) = map (order_of \<circ> make_frame) [0, 1, 2, 3]
     \<and> orders_of 2 (reader_run bench_events) = map (order_of \<circ> make_frame) [0, 1, 2, 3]"
proof -
  let ?xs = "[(1, 0), (1, 1), (1, 2), (2, 0), (1, 3), (2, 1), (2, 2), (2, 3)] :: (nat \<times> u64) list"
  have "bench_events = map (\<lambda>(fd, f). Bytes fd (frame_bytes f)) (map (\<lambda>(fd, i). (fd, make_frame i)) ?xs)"
    by (simp add: bench_events_def)
  then have p: "pushed (reader_run bench_events) = map (\<lambda>(fd, i). (fd, order_of (make_frame i))) ?xs"
    using reader_whole_frames [of start_reader "map (\<lambda>(fd, i). (fd, make_frame i)) ?xs"]
    by (simp add: reader_run_def buffer_def start_reader_def)
  let ?ord = "\<lambda>s px. \<lparr>o_id = 0, o_symbol = 1, o_side = s, o_type = Limit, o_price = px, o_qty = 1\<rparr>"
  have o: "map snd (pushed (reader_run bench_events)) =
      [?ord Sell 100, ?ord Buy 100, ?ord Sell 101, ?ord Sell 100, ?ord Buy 101, ?ord Buy 100, ?ord Sell 101, ?ord Buy 101]"
    unfolding p by (simp add: order_of_def make_frame_def)
  have adm: "admissible bench_limits (?ord s 100)" "admissible bench_limits (?ord s 101)" for s
    by (simp_all add: admissible_def bench_limits_def size_ok_def position_ok_def collar_ok_def exposure_def)
  have "limits_ok bench_limits" by (simp add: limits_ok_def bench_limits_def i64_ok_def)
  moreover have "\<forall>t\<in>set (map snd (pushed (reader_run bench_events))). order_typed t"
    using pushed_typed by auto
  ultimately obtain c where c: "consume_all bench_limits (map snd (pushed (reader_run bench_events))) start_consumer = Some c"
    "rejected c = 0 + of_nat (length (filter (\<lambda>t. \<not> admissible bench_limits t) (map snd (pushed (reader_run bench_events)))))"
    "shows_market c (market_run bench_limits (map snd (pushed (reader_run bench_events))))"
    using consume_all_total [OF _ _ start_consumer_ok start_market]
    unfolding market_run_def by (metis consumer_state.select_convs(3) start_consumer_def)
  have "snd (market_run bench_limits (map snd (pushed (reader_run bench_events)))) = 3"
    unfolding o market_run_def
    by (simp add: market_step_def adm opposite_def crosses_def rest_behind_def at_least_as_good_def)
  then have "matched c = 3" using c(3) by (simp add: shows_market_def)
  moreover have "rejected c = 0" using c(2) unfolding o by (simp add: adm)
  ultimately show ?thesis using c(1) p by (simp add: orders_of_def)
qed

end
