(* ===== verification/Ring_Buffer.thy ===== *)
theory Ring_Buffer
  imports Prelude
begin

text \<open>
  The lock-free single-producer single-consumer queue of
  \<^verbatim>\<open>include/lloms/spsc_ring_buffer.hpp\<close>: its operations as one thread sees them and
  the FIFO interface they implement.  The two-thread system is in \<open>Ring_Threads\<close>.
\<close>

section \<open>The buffer and its operations\<close>

text \<open>\<^verbatim>\<open>std::size_t\<close> is 64 bits; indices only grow and wrap around at \<open>2\<^sup>6\<^sup>4\<close>.\<close>

record 'a SpscRingBuffer =
  head_ix :: u64
  tail_ix :: u64
  slots :: "'a list"

text \<open>The static assertions on \<^verbatim>\<open>Capacity\<close>, and \<^verbatim>\<open>kMask\<close>.\<close>

definition capacity_ok :: "u64 \<Rightarrow> bool" where
  "capacity_ok cap \<longleftrightarrow> cap \<ge> 2 \<and> cap AND (cap - 1) = 0"

definition kMask :: "u64 \<Rightarrow> u64" where
  "kMask cap = cap - 1"

definition slot_of :: "u64 \<Rightarrow> u64 \<Rightarrow> nat" where
  "slot_of cap i = unat (i AND kMask cap)"

definition new_ring :: "u64 \<Rightarrow> 'a \<Rightarrow> 'a SpscRingBuffer" where
  "new_ring cap dflt = \<lparr>head_ix = 0, tail_ix = 0, slots = replicate (unat cap) dflt\<rparr>"

definition push :: "u64 \<Rightarrow> 'a SpscRingBuffer \<Rightarrow> 'a \<Rightarrow> bool \<times> 'a SpscRingBuffer" where
  "push cap r value =
     (let head = head_ix r; next_ix = head + 1 in
      if next_ix - tail_ix r > cap then (False, r)
      else (True, r\<lparr>slots := (slots r)[slot_of cap head := value], head_ix := next_ix\<rparr>))"

definition pop :: "u64 \<Rightarrow> 'a SpscRingBuffer \<Rightarrow> 'a option \<times> 'a SpscRingBuffer" where
  "pop cap r =
     (let tail = tail_ix r in
      if tail = head_ix r then (None, r)
      else (Some (slots r ! slot_of cap tail), r\<lparr>tail_ix := tail + 1\<rparr>))"

definition empty :: "'a SpscRingBuffer \<Rightarrow> bool" where
  "empty r \<longleftrightarrow> head_ix r = tail_ix r"

definition size_ring :: "'a SpscRingBuffer \<Rightarrow> u64" where
  "size_ring r = head_ix r - tail_ix r"

section \<open>Masking is reduction modulo the capacity\<close>

lemma pow2_of_and_pred: "0 < (n :: nat) \<Longrightarrow> n AND (n - 1) = 0 \<Longrightarrow> \<exists>k. n = 2 ^ k"
proof (induction n rule: less_induct)
  case (less n)
  show ?case
  proof (cases "even n")
    case True
    then obtain m where m: "n = 2 * m" by blast
    with less.prems have pos: "0 < m" by simp
    then have "2 * m - 1 = 2 * (m - 1) + 1" by simp
    with less.prems m have "(2 * m) AND (2 * (m - 1) + 1) = 0" by simp
    then have "m AND (m - 1) = 0" by (subst (asm) and_rec) simp
    then obtain k where "m = 2 ^ k" using less.IH [of m] m pos by auto
    then show ?thesis using m by (intro exI [of _ "Suc k"]) simp
  next
    case False
    then obtain m where m: "n = 2 * m + 1" by (metis oddE)
    with less.prems have "(2 * m + 1) AND (2 * m) = 0" by simp
    then have "m = 0" by (subst (asm) and_rec) simp
    then show ?thesis using m by (intro exI [of _ 0]) simp
  qed
qed

lemma capacity_power:
  assumes "capacity_ok cap"
  obtains k where "0 < k" "k < 64" "unat cap = 2 ^ k"
proof -
  have ge: "2 \<le> unat cap" using assms by (simp add: capacity_ok_def word_le_nat_alt)
  have "unat (cap - 1) = unat cap - 1" using ge by (simp add: unat_sub word_le_nat_alt)
  moreover have "unat (cap AND (cap - 1)) = 0" using assms by (simp add: capacity_ok_def)
  ultimately have "unat cap AND (unat cap - 1) = 0" by (simp add: unsigned_and_eq)
  with pow2_of_and_pred [of "unat cap"] ge obtain k where k: "unat cap = 2 ^ k" by auto
  have "unat cap < 2 ^ LENGTH(64)" by (rule unsigned_less)
  then have "(2 :: nat) ^ k < 2 ^ 64" using k by simp
  then have "k < 64" by (rule power_less_imp_less_exp [rotated]) simp
  moreover have "0 < k" using ge k by (cases k) auto
  ultimately show ?thesis using that k by blast
qed

lemma slot_of_mod:
  assumes "capacity_ok cap"
  shows "slot_of cap i = unat i mod unat cap"
proof -
  obtain k where k: "k < 64" "unat cap = 2 ^ k" using assms by (rule capacity_power)
  have "cap = 2 ^ k"
    using k(2) by (metis of_nat_numeral of_nat_power of_nat_unat ucast_id)
  then have "i AND kMask cap = take_bit k i"
    by (simp add: kMask_def take_bit_eq_mask mask_eq_exp_minus_1)
  then have "slot_of cap i = take_bit k (unat i)"
    by (simp only: slot_of_def unsigned_take_bit_eq)
  then show ?thesis
    by (simp only: take_bit_eq_mod k(2))
qed

lemma slot_of_nat:
  assumes "capacity_ok cap"
  shows "slot_of cap (of_nat n) = n mod unat cap"
proof -
  obtain k where k: "k < 64" "unat cap = 2 ^ k" using assms by (rule capacity_power)
  have "(2 :: nat) ^ k dvd 2 ^ 64" using k(1) by (simp only: le_imp_power_dvd less_imp_le)
  then have "n mod 2 ^ 64 mod 2 ^ k = n mod 2 ^ k" by (rule mod_mod_cancel)
  then show ?thesis by (simp add: slot_of_mod [OF assms] k(2) unat_of_nat)
qed

section \<open>The FIFO contract\<close>

text \<open>
  What a client of a bounded queue relies on: a push succeeds exactly when there is room and
  appends, a pop fails exactly when the queue is empty and takes from the front, and neither runs
  into undefined behaviour (\<open>None\<close>).  \<open>valid\<close> are the values that can be queued at all.
\<close>

locale bounded_fifo =
  fixes enq :: "'q \<Rightarrow> 'a \<Rightarrow> (bool \<times> 'q) option"
    and deq :: "'q \<Rightarrow> ('a option \<times> 'q) option"
    and items :: "'q \<Rightarrow> 'a list"
    and room :: nat
    and inv :: "'q \<Rightarrow> bool"
    and valid :: "'a \<Rightarrow> bool"
  assumes enq_room: "inv q \<Longrightarrow> valid x \<Longrightarrow> length (items q) < room \<Longrightarrow>
      \<exists>q'. enq q x = Some (True, q') \<and> inv q' \<and> items q' = items q @ [x]"
    and enq_full: "inv q \<Longrightarrow> room \<le> length (items q) \<Longrightarrow> enq q x = Some (False, q)"
    and deq_nil: "inv q \<Longrightarrow> items q = [] \<Longrightarrow> deq q = Some (None, q)"
    and deq_cons: "inv q \<Longrightarrow> items q = x # xs \<Longrightarrow>
      \<exists>q'. deq q = Some (Some x, q') \<and> inv q' \<and> items q' = xs"
    and bounded: "inv q \<Longrightarrow> length (items q) \<le> room"

text \<open>
  A run of pushes and pops: the values accepted and the values popped, in order.
\<close>

datatype 'a qop = Enq 'a | Deq

fun run_ops :: "('q \<Rightarrow> 'a \<Rightarrow> (bool \<times> 'q) option) \<Rightarrow> ('q \<Rightarrow> ('a option \<times> 'q) option) \<Rightarrow> 'q \<Rightarrow>
    'a qop list \<Rightarrow> ('a list \<times> 'a list \<times> 'q) option" where
  "run_ops enq deq q [] = Some ([], [], q)"
| "run_ops enq deq q (Enq x # ops) =
     do { (ok, q1) \<leftarrow> enq q x;
          (acc, out, q2) \<leftarrow> run_ops enq deq q1 ops;
          Some ((if ok then x # acc else acc), out, q2) }"
| "run_ops enq deq q (Deq # ops) =
     do { (r, q1) \<leftarrow> deq q;
          (acc, out, q2) \<leftarrow> run_ops enq deq q1 ops;
          Some (acc, (case r of None \<Rightarrow> out | Some x \<Rightarrow> x # out), q2) }"

context bounded_fifo begin

lemma enq_cases:
  assumes "inv q" "valid x"
  obtains q' where "enq q x = Some (True, q')" "inv q'" "items q' = items q @ [x]" "length (items q) < room"
  | "enq q x = Some (False, q)" "length (items q) = room"
  using enq_room [OF assms] enq_full [OF assms(1), of x] bounded [OF assms(1)] by fastforce

text \<open>Nothing is lost, invented or reordered: what comes out, then what is left, is what went in.\<close>

lemma run_ops_fifo:
  "inv q \<Longrightarrow> (\<forall>x. Enq x \<in> set ops \<longrightarrow> valid x) \<Longrightarrow>
   \<exists>acc out q'. run_ops enq deq q ops = Some (acc, out, q') \<and> inv q' \<and> out @ items q' = items q @ acc"
proof (induction ops arbitrary: q)
  case (Cons op ops)
  have rest: "\<forall>x. Enq x \<in> set ops \<longrightarrow> valid x" using Cons.prems by simp
  show ?case
  proof (cases op)
    case (Enq x)
    then have "valid x" using Cons.prems(2) by simp
    with \<open>inv q\<close> show ?thesis
    proof (cases rule: enq_cases [of q x])
      case (1 q1)
      then show ?thesis using Cons.IH [OF 1(2) rest] Enq by auto
    next
      case 2
      then show ?thesis using Cons.IH [OF \<open>inv q\<close> rest] Enq by auto
    qed
  next
    case Deq
    show ?thesis
    proof (cases "items q")
      case Nil
      then show ?thesis
        using Cons.IH [OF \<open>inv q\<close> rest] Deq deq_nil [OF \<open>inv q\<close>] by auto
    next
      case (Cons x xs)
      then obtain q1 where "deq q = Some (Some x, q1)" "inv q1" "items q1 = xs"
        using deq_cons [OF \<open>inv q\<close>] by blast
      then show ?thesis using Cons.IH [of q1] Deq Cons rest by auto
    qed
  qed
qed simp

end

section \<open>The ring implements the contract\<close>

text \<open>The queued values, oldest first.\<close>

definition contents :: "u64 \<Rightarrow> 'a SpscRingBuffer \<Rightarrow> 'a list" where
  "contents cap r =
     map (\<lambda>i. slots r ! ((unat (tail_ix r) + i) mod unat cap)) [0..<unat (head_ix r - tail_ix r)]"

definition ring_inv :: "u64 \<Rightarrow> 'a SpscRingBuffer \<Rightarrow> bool" where
  "ring_inv cap r \<longleftrightarrow> length (slots r) = unat cap \<and> head_ix r - tail_ix r \<le> cap"

lemma length_contents [simp]: "length (contents cap r) = unat (head_ix r - tail_ix r)"
  by (simp add: contents_def)

lemma mod_same_slot:
  assumes "(t + i) mod n = (t + j) mod (n :: nat)" "i < n" "j < n"
  shows "i = j"
proof -
  have "b \<le> a" if eq: "(t + a) mod n = (t + b) mod n" and "b < n" for a b
  proof (rule ccontr)
    assume "\<not> b \<le> a"
    then have "n dvd (t + b) - (t + a)"
      using eq mod_eq_dvd_iff_nat [of "t + a" "t + b" n] by auto
    with \<open>\<not> b \<le> a\<close> \<open>b < n\<close> show False by (simp add: nat_dvd_not_less)
  qed
  from this [of i j] this [of j i] show ?thesis using assms by simp
qed

lemma unat_mod_cap:
  assumes "capacity_ok cap"
  shows "unat (i + of_nat n :: u64) mod unat cap = (unat i + n) mod unat cap"
  using slot_of_mod [OF assms, of "i + of_nat n"] slot_of_nat [OF assms, of "unat i + n"] by simp

locale spsc =
  fixes cap :: u64
  assumes cap: "capacity_ok cap"
begin

lemma cap_pos: "2 \<le> unat cap" "unat cap \<le> 2 ^ 63"
proof -
  obtain k where k: "0 < k" "k < 64" "unat cap = 2 ^ k" using cap by (rule capacity_power)
  show "2 \<le> unat cap" using k by (simp add: self_le_power)
  have "(2 :: nat) ^ k \<le> 2 ^ 63" using k(2) by (intro power_increasing) simp_all
  then show "unat cap \<le> 2 ^ 63" using k(3) by simp
qed

text \<open>The full test of \<^verbatim>\<open>push\<close>, free of wrap-around.\<close>

lemma full_test:
  assumes "h - t \<le> cap"
  shows "h + 1 - t > cap \<longleftrightarrow> unat (h - t) = unat cap"
    and "unat (h - t) < unat cap \<Longrightarrow> unat (h + 1 - t) = Suc (unat (h - t))"
proof -
  have le: "unat (h - t) \<le> unat cap" using assms by (simp add: word_le_nat_alt)
  have eq: "h + 1 - t = (h - t) + 1" by simp
  have "unat (h + 1 - t) = Suc (unat (h - t))"
    unfolding eq using le cap_pos by (subst unat_plus_if') simp
  then show "h + 1 - t > cap \<longleftrightarrow> unat (h - t) = unat cap"
    and "unat (h - t) < unat cap \<Longrightarrow> unat (h + 1 - t) = Suc (unat (h - t))"
    using le by (auto simp: word_less_nat_alt)
qed

lemma push_contents:
  assumes inv: "ring_inv cap r" and room: "length (contents cap r) < unat cap"
  shows "\<exists>r'. push cap r x = (True, r') \<and> ring_inv cap r' \<and> contents cap r' = contents cap r @ [x]"
proof -
  let ?n = "unat (head_ix r - tail_ix r)"
  have le: "head_ix r - tail_ix r \<le> cap" and len: "length (slots r) = unat cap"
    using inv by (simp_all add: ring_inv_def)
  have n: "?n < unat cap" using room by simp
  have n': "unat (head_ix r + 1 - tail_ix r) = Suc ?n" using full_test(2) [OF le n] .
  have "head_ix r = tail_ix r + of_nat ?n" by simp
  then have slot: "slot_of cap (head_ix r) = (unat (tail_ix r) + ?n) mod unat cap"
    using slot_of_mod [OF cap, of "head_ix r"] unat_mod_cap [OF cap, of "tail_ix r" ?n] by metis
  define r' where "r' = r\<lparr>slots := (slots r)[slot_of cap (head_ix r) := x], head_ix := head_ix r + 1\<rparr>"
  have "push cap r x = (True, r')"
    using full_test(1) [OF le] n by (auto simp: push_def Let_def r'_def)
  moreover have "ring_inv cap r'"
    using len n n' by (simp add: ring_inv_def r'_def word_le_nat_alt)
  moreover have "contents cap r' = contents cap r @ [x]"
  proof -
    have "slot_of cap (head_ix r) \<noteq> (unat (tail_ix r) + i) mod unat cap" if "i < ?n" for i
      using mod_same_slot [of "unat (tail_ix r)" i "unat cap" ?n] that n unfolding slot by fastforce
    then have old: "slots r' ! ((unat (tail_ix r) + i) mod unat cap)
        = slots r ! ((unat (tail_ix r) + i) mod unat cap)" if "i < ?n" for i
      using that by (simp add: r'_def)
    have new: "slots r' ! ((unat (tail_ix r) + ?n) mod unat cap) = x"
      unfolding slot [symmetric] using len cap_pos by (simp add: r'_def slot)
    have "contents cap r' = map (\<lambda>i. slots r' ! ((unat (tail_ix r) + i) mod unat cap)) [0..<Suc ?n]"
      using n' by (simp add: contents_def r'_def)
    also have "\<dots> = contents cap r @ [x]"
      using old new by (simp add: contents_def)
    finally show ?thesis .
  qed
  ultimately show ?thesis by blast
qed

lemma push_full: "ring_inv cap r \<Longrightarrow> unat cap \<le> length (contents cap r) \<Longrightarrow> push cap r x = (False, r)"
  using full_test(1) [of "head_ix r" "tail_ix r"]
  by (auto simp: ring_inv_def push_def Let_def word_le_nat_alt)

lemma pop_contents:
  assumes inv: "ring_inv cap r" and c: "contents cap r = x # xs"
  shows "\<exists>r'. pop cap r = (Some x, r') \<and> ring_inv cap r' \<and> contents cap r' = xs"
proof -
  let ?n = "unat (head_ix r - tail_ix r)"
  have n: "0 < ?n" using c by (metis length_contents length_greater_0_conv list.distinct(1))
  have eq: "head_ix r - (tail_ix r + 1) = (head_ix r - tail_ix r) - 1" by simp
  have n': "unat (head_ix r - (tail_ix r + 1)) = ?n - 1"
    unfolding eq using n by (subst unat_minus_one) auto
  define r' where "r' = r\<lparr>tail_ix := tail_ix r + 1\<rparr>"
  have "contents cap r = slots r ! slot_of cap (tail_ix r) #
      map (\<lambda>i. slots r ! ((unat (tail_ix r) + Suc i) mod unat cap)) [0..<?n - 1]"
  proof (rule nth_equalityI)
    fix i assume "i < length (contents cap r)"
    then show "contents cap r ! i = (slots r ! slot_of cap (tail_ix r) #
        map (\<lambda>i. slots r ! ((unat (tail_ix r) + Suc i) mod unat cap)) [0..<?n - 1]) ! i"
      by (cases i) (simp_all add: contents_def slot_of_mod [OF cap] nth_append less_diff_conv)
  qed (use n in simp)
  moreover have "contents cap r' = map (\<lambda>i. slots r ! ((unat (tail_ix r) + Suc i) mod unat cap)) [0..<?n - 1]"
  proof -
    have "(unat (tail_ix r + 1) + i) mod unat cap = (unat (tail_ix r) + Suc i) mod unat cap" for i
      using unat_mod_cap [OF cap, of "tail_ix r + 1" i] unat_mod_cap [OF cap, of "tail_ix r" "Suc i"]
      by (simp add: add.assoc)
    then show ?thesis using n' by (simp add: contents_def r'_def)
  qed
  moreover have "pop cap r = (Some (slots r ! slot_of cap (tail_ix r)), r')"
    using n by (auto simp: pop_def Let_def r'_def)
  moreover have "ring_inv cap r'"
    using inv n' by (auto simp: ring_inv_def r'_def word_le_nat_alt)
  ultimately show ?thesis using c by auto
qed

lemma pop_empty:
  assumes "contents cap r = []"
  shows "pop cap r = (None, r)"
proof -
  have "unat (head_ix r - tail_ix r) = 0" using assms by (metis length_contents list.size(3))
  then have "tail_ix r = head_ix r" by (metis eq_iff_diff_eq_0 unsigned_eq_0_iff)
  then show ?thesis by (simp add: pop_def Let_def)
qed

end

sublocale spsc \<subseteq> fifo: bounded_fifo "\<lambda>r x. Some (push cap r x)" "\<lambda>r. Some (pop cap r)"
    "contents cap" "unat cap" "ring_inv cap" "\<lambda>_. True"
proof (unfold_locales, goal_cases)
  case (1 q x) then show ?case using push_contents [of q x] by simp
next
  case (2 q x) then show ?case using push_full [of q x] by simp
next
  case (3 q) then show ?case using pop_empty [of q] by simp
next
  case (4 q x xs) then show ?case using pop_contents [of q x xs] by simp
next
  case (5 q) then show ?case by (simp add: ring_inv_def word_le_nat_alt)
qed

context spsc begin

lemmas ring_ops_fifo = fifo.run_ops_fifo

end

text \<open>The capacities that the repository instantiates: both feed handlers, and the two benchmarks.\<close>

interpretation feed_ring: spsc "65536"
  by unfold_locales (simp add: capacity_ok_def)

interpretation bench_ring: spsc "4096"
  by unfold_locales (simp add: capacity_ok_def)

interpretation pingpong_ring: spsc "2"
  by unfold_locales (simp add: capacity_ok_def)

section \<open>Property of the sequential ring\<close>

lemma new_ring_inv: "capacity_ok cap \<Longrightarrow> ring_inv cap (new_ring cap dflt)"
  by (simp add: ring_inv_def new_ring_def)

lemma empty_iff: "empty r \<longleftrightarrow> contents cap r = []"
proof -
  have "contents cap r = [] \<longleftrightarrow> unat (head_ix r - tail_ix r) = 0"
    by (metis length_0_conv length_contents)
  then show ?thesis by (simp add: empty_def unsigned_eq_0_iff)
qed

text \<open>
  A ring with a legal capacity is a bounded FIFO queue wherever its two free-running indices
  stand, also across their wrap-around at \<open>2\<^sup>6\<^sup>4\<close>: through any sequence of pushes and pops the
  values that come out, followed by the values still queued, are the values queued before followed
  by the values that were accepted, in order; \<^verbatim>\<open>size\<close> and \<^verbatim>\<open>empty\<close> report the queue that is
  left, which never exceeds the capacity; and the next push is refused exactly when that many
  values are queued, the next pop exactly when none is.
\<close>

theorem ring_is_fifo:
  assumes "capacity_ok cap" "ring_inv cap r"
    and "run_ops (\<lambda>r x. Some (push cap r x)) (\<lambda>r. Some (pop cap r)) r ops = Some (acc, out, r')"
  shows "out @ contents cap r' = contents cap r @ acc
    \<and> unat (size_ring r') = length (contents cap r') \<and> (empty r' \<longleftrightarrow> contents cap r' = [])
    \<and> length (contents cap r') \<le> unat cap
    \<and> (fst (push cap r' x) \<longleftrightarrow> length (contents cap r') \<noteq> unat cap)
    \<and> (fst (pop cap r') = (case contents cap r' of [] \<Rightarrow> None | y # _ \<Rightarrow> Some y))"
proof -
  have l: "spsc cap" by (rule spsc.intro [OF assms(1)])
  from spsc.ring_ops_fifo [OF l assms(2), of ops] assms(3)
  have inv: "ring_inv cap r'" and eq: "out @ contents cap r' = contents cap r @ acc" by auto
  have le: "length (contents cap r') \<le> unat cap" using inv by (simp add: ring_inv_def word_le_nat_alt)
  have "fst (push cap r' x) \<longleftrightarrow> length (contents cap r') \<noteq> unat cap"
  proof (cases "length (contents cap r') < unat cap")
    case True
    then show ?thesis using spsc.push_contents [OF l inv, of x] by auto
  next
    case False
    then show ?thesis using spsc.push_full [OF l inv, of x] le by simp
  qed
  moreover have "fst (pop cap r') = (case contents cap r' of [] \<Rightarrow> None | y # _ \<Rightarrow> Some y)"
    using spsc.pop_empty [OF l, of r'] spsc.pop_contents [OF l inv] by (fastforce split: list.split)
  ultimately show ?thesis using eq le by (simp add: size_ring_def empty_iff)
qed

text \<open>The witness starts two steps before the indices wrap around.\<close>

theorem ring_is_fifo_witness:
  "fst (push 2 \<lparr>head_ix = 1, tail_ix = - 1, slots = [30, 20 :: nat]\<rparr> 40) = (2 \<noteq> (2 :: nat))"
proof -
  let ?r = "\<lparr>head_ix = 0, tail_ix = - 2, slots = [10, 20 :: nat]\<rparr>"
  let ?r' = "\<lparr>head_ix = 1, tail_ix = - 1, slots = [30, 20 :: nat]\<rparr>"
  have c: "capacity_ok 2" "ring_inv 2 ?r" by (simp_all add: capacity_ok_def ring_inv_def)
  have "run_ops (\<lambda>r x. Some (push 2 r x)) (\<lambda>r. Some (pop 2 r)) ?r [Enq 25, Deq, Enq 30]
      = Some ([30], [10], ?r')"
    by (simp add: push_def pop_def slot_of_def kMask_def)
  from ring_is_fifo [OF c this, of 40] show ?thesis by (simp add: contents_def)
qed

end
