(* ===== verification/Ring_Threads.thy ===== *)
theory Ring_Threads
  imports Ring_Buffer "HOL-Library.Sublist"
begin

text \<open>
  The ring of \<^verbatim>\<open>include/lloms/spsc_ring_buffer.hpp\<close> under its two threads.  Every access of
  \<^verbatim>\<open>push\<close> and \<^verbatim>\<open>pop\<close> to shared memory is a step of its own, and the threads interleave
  freely.  An acquire load of the other thread's index may return any value that index has had
  since this thread's previous load of it (per-variable coherence is all that is assumed), so a
  load may be stale.  A thread's relaxed load of the index that it alone stores is exact.
\<close>

section \<open>The threads\<close>

text \<open>
  The program counter of each thread with its locals: the push of \<open>v\<close> has loaded its own index;
  has found room; has assigned the slot and not yet stored the index.  Likewise for pop.
\<close>

datatype 'a producer =
    P_Idle | P_Loaded (pval: 'a) (phead: u64) | P_Room (pval: 'a) (phead: u64) | P_Written (pval: 'a) (phead: u64)

datatype 'a consumer =
    C_Idle | C_Loaded (ctail: u64) | C_Avail (ctail: u64) | C_Read (ctail: u64) (cval: 'a)

text \<open>
  \<open>sent\<close> and \<open>recvd\<close> are the values of the pushes and pops that have returned true;
  \<open>tail_seen\<close> and \<open>head_seen\<close> say how many stores of the other index each thread has seen.
\<close>

record 'a threads =
  ring :: "'a SpscRingBuffer"
  producer :: "'a producer"
  consumer :: "'a consumer"
  tail_seen :: nat
  head_seen :: nat
  sent :: "'a list"
  recvd :: "'a list"

definition start_threads :: "u64 \<Rightarrow> 'a \<Rightarrow> 'a threads" where
  "start_threads cap dflt = \<lparr>ring = new_ring cap dflt, producer = P_Idle, consumer = C_Idle,
     tail_seen = 0, head_seen = 0, sent = [], recvd = []\<rparr>"

inductive push_step :: "u64 \<Rightarrow> 'a threads \<Rightarrow> 'a threads \<Rightarrow> bool" for cap where
  push_load: "producer s = P_Idle \<Longrightarrow>
    push_step cap s (s\<lparr>producer := P_Loaded v (head_ix (ring s))\<rparr>)"
| push_full: "producer s = P_Loaded v head \<Longrightarrow> tail_seen s \<le> t \<Longrightarrow> t \<le> length (recvd s) \<Longrightarrow>
    head + 1 - of_nat t > cap \<Longrightarrow>
    push_step cap s (s\<lparr>producer := P_Idle, tail_seen := t\<rparr>)"
| push_room: "producer s = P_Loaded v head \<Longrightarrow> tail_seen s \<le> t \<Longrightarrow> t \<le> length (recvd s) \<Longrightarrow>
    \<not> head + 1 - of_nat t > cap \<Longrightarrow>
    push_step cap s (s\<lparr>producer := P_Room v head, tail_seen := t\<rparr>)"
| push_write: "producer s = P_Room v head \<Longrightarrow>
    push_step cap s (s\<lparr>producer := P_Written v head,
      ring := (ring s)\<lparr>slots := (slots (ring s))[slot_of cap head := v]\<rparr>\<rparr>)"
| push_store: "producer s = P_Written v head \<Longrightarrow>
    push_step cap s (s\<lparr>producer := P_Idle, ring := (ring s)\<lparr>head_ix := head + 1\<rparr>, sent := sent s @ [v]\<rparr>)"

inductive pop_step :: "u64 \<Rightarrow> 'a threads \<Rightarrow> 'a threads \<Rightarrow> bool" for cap where
  pop_load: "consumer s = C_Idle \<Longrightarrow>
    pop_step cap s (s\<lparr>consumer := C_Loaded (tail_ix (ring s))\<rparr>)"
| pop_empty: "consumer s = C_Loaded tail \<Longrightarrow> head_seen s \<le> h \<Longrightarrow> h \<le> length (sent s) \<Longrightarrow>
    tail = of_nat h \<Longrightarrow>
    pop_step cap s (s\<lparr>consumer := C_Idle, head_seen := h\<rparr>)"
| pop_avail: "consumer s = C_Loaded tail \<Longrightarrow> head_seen s \<le> h \<Longrightarrow> h \<le> length (sent s) \<Longrightarrow>
    tail \<noteq> of_nat h \<Longrightarrow>
    pop_step cap s (s\<lparr>consumer := C_Avail tail, head_seen := h\<rparr>)"
| pop_read: "consumer s = C_Avail tail \<Longrightarrow>
    pop_step cap s (s\<lparr>consumer := C_Read tail (slots (ring s) ! slot_of cap tail)\<rparr>)"
| pop_store: "consumer s = C_Read tail v \<Longrightarrow>
    pop_step cap s (s\<lparr>consumer := C_Idle, ring := (ring s)\<lparr>tail_ix := tail + 1\<rparr>, recvd := recvd s @ [v]\<rparr>)"

definition thread_step :: "u64 \<Rightarrow> 'a threads \<Rightarrow> 'a threads \<Rightarrow> bool" where
  "thread_step cap s s' \<longleftrightarrow> push_step cap s s' \<or> pop_step cap s s'"

section \<open>The invariant of the interleaved system\<close>

definition producer_ok :: "u64 \<Rightarrow> 'a threads \<Rightarrow> bool" where
  "producer_ok cap s =
     (case producer s of
        P_Idle \<Rightarrow> True
      | P_Loaded v h \<Rightarrow> h = of_nat (length (sent s))
      | P_Room v h \<Rightarrow> h = of_nat (length (sent s)) \<and> length (sent s) < tail_seen s + unat cap
      | P_Written v h \<Rightarrow> h = of_nat (length (sent s)) \<and> length (sent s) < tail_seen s + unat cap \<and>
          slots (ring s) ! (length (sent s) mod unat cap) = v)"

definition consumer_ok :: "'a threads \<Rightarrow> bool" where
  "consumer_ok s =
     (case consumer s of
        C_Idle \<Rightarrow> True
      | C_Loaded t \<Rightarrow> t = of_nat (length (recvd s))
      | C_Avail t \<Rightarrow> t = of_nat (length (recvd s)) \<and> length (recvd s) < head_seen s
      | C_Read t v \<Rightarrow> t = of_nat (length (recvd s)) \<and> length (recvd s) < head_seen s \<and>
          v = sent s ! length (recvd s))"

definition counts_ok :: "u64 \<Rightarrow> 'a threads \<Rightarrow> bool" where
  "counts_ok cap s \<longleftrightarrow>
     head_ix (ring s) = of_nat (length (sent s)) \<and> tail_ix (ring s) = of_nat (length (recvd s)) \<and>
     length (slots (ring s)) = unat cap \<and>
     tail_seen s \<le> length (recvd s) \<and> length (recvd s) \<le> head_seen s \<and>
     head_seen s \<le> length (sent s) \<and> length (sent s) \<le> tail_seen s + unat cap"

definition data_ok :: "u64 \<Rightarrow> 'a threads \<Rightarrow> bool" where
  "data_ok cap s \<longleftrightarrow> recvd s = take (length (recvd s)) (sent s) \<and>
     (\<forall>i. length (recvd s) \<le> i \<longrightarrow> i < length (sent s) \<longrightarrow> slots (ring s) ! (i mod unat cap) = sent s ! i)"

definition threads_inv :: "u64 \<Rightarrow> 'a threads \<Rightarrow> bool" where
  "threads_inv cap s \<longleftrightarrow> counts_ok cap s \<and> data_ok cap s \<and> producer_ok cap s \<and> consumer_ok s"

lemmas threads_inv_defs = threads_inv_def counts_ok_def data_ok_def producer_ok_def consumer_ok_def

text \<open>What a step of one side leaves alone, and how it extends its own history.\<close>

lemma push_step_frame:
  assumes "push_step cap t t'"
  shows "recvd t' = recvd t" "consumer t' = consumer t" "head_seen t' = head_seen t"
    "sent t' = sent t \<or> (\<exists>v h. producer t = P_Written v h \<and> sent t' = sent t @ [v] \<and> producer t' = P_Idle)"
    "producer t' \<noteq> P_Idle \<Longrightarrow> producer t \<noteq> P_Idle \<Longrightarrow> pval (producer t') = pval (producer t)"
  using assms by (cases; auto)+

lemma pop_step_frame:
  assumes "pop_step cap t t'"
  shows "sent t' = sent t" "producer t' = producer t"
  using assms by (cases; auto)+

lemma recvd_prefix: "threads_inv cap t \<Longrightarrow> prefix (recvd t) (sent t)"
  by (metis threads_inv_def data_ok_def take_is_prefix)

lemma prefix_same_length: "prefix xs ys \<Longrightarrow> length xs = length ys \<Longrightarrow> xs = ys"
  by (auto simp: prefix_def)

context spsc begin

lemma of_nat_diff_small:
  assumes "t \<le> s" "s \<le> t + unat cap"
  shows "(of_nat s :: u64) - of_nat t \<le> cap" and "unat ((of_nat s :: u64) - of_nat t) = s - t"
proof -
  have "(of_nat s :: u64) - of_nat t = of_nat (s - t)" using assms(1) by simp
  moreover have "s - t < 2 ^ 64" using assms cap_pos by simp
  ultimately show "unat ((of_nat s :: u64) - of_nat t) = s - t" by (simp add: unat_of_nat)
  then show "(of_nat s :: u64) - of_nat t \<le> cap" using assms by (simp add: word_le_nat_alt)
qed

lemma room_test:
  assumes "t \<le> s" "s \<le> t + unat cap" "\<not> (of_nat s :: u64) + 1 - of_nat t > cap"
  shows "s < t + unat cap"
  using full_test(1) [OF of_nat_diff_small(1) [OF assms(1,2)]] of_nat_diff_small(2) [OF assms(1,2)]
    assms by auto

lemma avail_test:
  assumes "t \<le> h" "h \<le> t + unat cap" "(of_nat t :: u64) \<noteq> of_nat h"
  shows "t < h"
  using assms by (metis le_neq_implies_less)

lemma push_step_inv:
  assumes "push_step cap s s'" and inv: "threads_inv cap s"
  shows "threads_inv cap s'"
  using assms(1)
proof cases
  case (push_load v)
  then show ?thesis using inv by (simp add: threads_inv_defs split: consumer.splits)
next
  case (push_full v head t)
  then show ?thesis using inv by (auto simp: threads_inv_defs split: consumer.splits)
next
  case (push_room v head t)
  have "length (sent s) < t + unat cap"
    using inv push_room by (intro room_test) (auto simp: threads_inv_defs)
  then show ?thesis using inv push_room by (auto simp: threads_inv_defs split: consumer.splits)
next
  case (push_write v head)
  let ?n = "length (sent s)"
  have head: "slot_of cap head = ?n mod unat cap" "?n < tail_seen s + unat cap"
    using inv push_write slot_of_nat [OF cap, of ?n] by (auto simp: threads_inv_defs)
  have "?n mod unat cap \<noteq> i mod unat cap" if "length (recvd s) \<le> i" "i < ?n" for i
  proof
    assume "?n mod unat cap = i mod unat cap"
    then have "(i + 0) mod unat cap = (i + (?n - i)) mod unat cap" using that by simp
    moreover have "?n - i < unat cap" using that head inv by (auto simp: threads_inv_defs)
    ultimately have "0 = ?n - i" using cap_pos by (intro mod_same_slot [of i 0 "unat cap"]) simp_all
    then show False using that by simp
  qed
  then show ?thesis
    using inv push_write head(1) cap_pos by (auto simp: threads_inv_defs split: consumer.splits)
next
  case (push_store v head)
  then have "length (sent s) < tail_seen s + unat cap" "head = of_nat (length (sent s))"
    "slots (ring s) ! (length (sent s) mod unat cap) = v"
    using inv by (simp_all add: threads_inv_defs)
  moreover have "length (recvd s) \<le> length (sent s)" using inv by (simp add: threads_inv_defs)
  ultimately show ?thesis
    using inv push_store by (auto simp: threads_inv_defs nth_append less_Suc_eq split: consumer.splits)
qed

lemma pop_step_inv:
  assumes "pop_step cap s s'" and inv: "threads_inv cap s"
  shows "threads_inv cap s'"
  using assms(1)
proof cases
  case pop_load
  then show ?thesis using inv by (simp add: threads_inv_defs split: producer.splits)
next
  case (pop_empty tail h)
  then show ?thesis using inv by (auto simp: threads_inv_defs split: producer.splits)
next
  case (pop_avail tail h)
  have "length (recvd s) < h"
    using inv pop_avail by (intro avail_test) (auto simp: threads_inv_defs)
  then show ?thesis using inv pop_avail by (auto simp: threads_inv_defs split: producer.splits)
next
  case (pop_read tail)
  have "slot_of cap tail = length (recvd s) mod unat cap"
    using inv pop_read slot_of_nat [OF cap, of "length (recvd s)"] by (auto simp: threads_inv_defs)
  then show ?thesis using inv pop_read by (auto simp: threads_inv_defs split: producer.splits)
next
  case (pop_store tail v)
  then have "length (recvd s) < length (sent s)" "tail = of_nat (length (recvd s))"
    "v = sent s ! length (recvd s)"
    using inv by (auto simp: threads_inv_defs)
  then show ?thesis
    using inv pop_store
    by (auto simp: threads_inv_defs take_Suc_conv_app_nth split: producer.splits)
qed

lemma start_threads_inv: "threads_inv cap (start_threads cap dflt)"
  by (simp add: threads_inv_defs start_threads_def new_ring_def)

end

sublocale spsc \<subseteq> run: invariant_system "\<lambda>s. s = start_threads cap dflt" "thread_step cap" "threads_inv cap"
  by unfold_locales (auto simp: thread_step_def start_threads_inv intro: push_step_inv pop_step_inv)

section \<open>Calls that can return\<close>

text \<open>
  The steps of a call that is under way: of the push of \<open>v\<close> before it stores the index, and of a pop
  before it returns.
\<close>

definition pushing :: "u64 \<Rightarrow> 'a \<Rightarrow> 'a threads \<Rightarrow> 'a threads \<Rightarrow> bool" where
  "pushing cap v t t' \<longleftrightarrow> push_step cap t t' \<and> sent t' = sent t \<and> (producer t' = P_Idle \<or> pval (producer t') = v)"

definition popping :: "u64 \<Rightarrow> 'a threads \<Rightarrow> 'a threads \<Rightarrow> bool" where
  "popping cap t t' \<longleftrightarrow> pop_step cap t t' \<and> recvd t' = recvd t \<and> consumer t' \<noteq> C_Idle"

definition can_push :: "u64 \<Rightarrow> 'a \<Rightarrow> 'a threads \<Rightarrow> bool" where
  "can_push cap v t \<longleftrightarrow> (\<exists>t1 t2. (pushing cap v)\<^sup>*\<^sup>* t t1 \<and> push_step cap t1 t2 \<and> sent t2 = sent t @ [v])"

definition can_pop :: "u64 \<Rightarrow> 'a threads \<Rightarrow> bool" where
  "can_pop cap t \<longleftrightarrow> (\<exists>t1 t2 v. (popping cap)\<^sup>*\<^sup>* t t1 \<and> pop_step cap t1 t2 \<and> recvd t2 = recvd t @ [v])"

definition can_give_up :: "u64 \<Rightarrow> 'a threads \<Rightarrow> bool" where
  "can_give_up cap t \<longleftrightarrow>
     (\<exists>t1 t2. (popping cap)\<^sup>*\<^sup>* t t1 \<and> pop_step cap t1 t2 \<and> recvd t2 = recvd t \<and> consumer t2 = C_Idle)"

lemma can_push_step: "pushing cap v t t' \<Longrightarrow> can_push cap v t' \<Longrightarrow> can_push cap v t"
  unfolding can_push_def by (metis converse_rtranclp_into_rtranclp pushing_def)

lemma can_pop_step: "popping cap t t' \<Longrightarrow> can_pop cap t' \<Longrightarrow> can_pop cap t"
  unfolding can_pop_def by (metis converse_rtranclp_into_rtranclp popping_def)

lemma pushing_frame: "(pushing cap v)\<^sup>*\<^sup>* t t' \<Longrightarrow> sent t' = sent t"
  by (induction rule: rtranclp_induct) (simp_all add: pushing_def)

lemma popping_frame: "(popping cap)\<^sup>*\<^sup>* t t' \<Longrightarrow> recvd t' = recvd t"
  by (induction rule: rtranclp_induct) (simp_all add: popping_def)

lemma pushing_recvd: "(pushing cap v)\<^sup>*\<^sup>* t t' \<Longrightarrow> recvd t' = recvd t"
  by (induction rule: rtranclp_induct) (auto simp: pushing_def dest: push_step_frame(1))

lemma popping_sent: "(popping cap)\<^sup>*\<^sup>* t t' \<Longrightarrow> sent t' = sent t"
  by (induction rule: rtranclp_induct) (auto simp: popping_def dest: pop_step_frame(1))

lemma written_returns:
  "producer t = P_Written v h \<Longrightarrow> can_push cap v t"
  unfolding can_push_def by (intro exI conjI, rule rtranclp.rtrancl_refl, erule push_step.push_store) simp

lemma room_returns:
  assumes "producer t = P_Room v h"
  shows "can_push cap v t"
proof -
  note w = push_step.push_write [OF assms, of cap]
  have "pushing cap v t (t\<lparr>producer := P_Written v h, ring := (ring t)\<lparr>slots := (slots (ring t))[slot_of cap h := v]\<rparr>\<rparr>)" (is "pushing _ _ _ ?t")
    unfolding pushing_def using w by simp
  then show ?thesis by (rule can_push_step) (simp add: written_returns)
qed

lemma read_returns:
  "consumer t = C_Read h v \<Longrightarrow> can_pop cap t"
  unfolding can_pop_def by (intro exI conjI, rule rtranclp.rtrancl_refl, erule pop_step.pop_store) simp

lemma avail_returns:
  assumes "consumer t = C_Avail h"
  shows "can_pop cap t"
proof -
  note w = pop_step.pop_read [OF assms, of cap]
  let ?t = "t\<lparr>consumer := C_Read h (slots (ring t) ! slot_of cap h)\<rparr>"
  have "popping cap t ?t" unfolding popping_def using w by simp
  then show ?thesis by (rule can_pop_step) (simp add: read_returns)
qed

context spsc begin

lemma loaded_push_returns:
  assumes inv: "threads_inv cap t" and p: "producer t = P_Loaded v h" and room: "length (sent t) < length (recvd t) + unat cap"
  shows "can_push cap v t"
proof -
  have h: "h = of_nat (length (sent t))" "tail_seen t \<le> length (recvd t)" "length (recvd t) \<le> length (sent t)"
    using inv p by (auto simp: threads_inv_defs)
  have "unat ((of_nat (length (sent t)) :: u64) - of_nat (length (recvd t))) < unat cap"
    using of_nat_diff_small(2) [OF h(3)] room h(3) by simp
  then have "\<not> h + 1 - of_nat (length (recvd t)) > cap"
    using full_test(1) [OF of_nat_diff_small(1) [OF h(3)]] room h(1) by simp
  from push_step.push_room [OF p h(2) order.refl this]
  have "pushing cap v t (t\<lparr>producer := P_Room v h, tail_seen := length (recvd t)\<rparr>)" (is "pushing _ _ _ ?t")
    unfolding pushing_def by simp
  then show ?thesis by (rule can_push_step) (simp add: room_returns)
qed

lemma push_returns:
  assumes inv: "threads_inv cap t" and v: "producer t \<noteq> P_Idle \<longrightarrow> pval (producer t) = v"
    and room: "length (sent t) < length (recvd t) + unat cap"
  shows "can_push cap v t"
proof (cases "producer t")
  case P_Idle
  note l = push_step.push_load [OF P_Idle, of cap v]
  let ?t = "t\<lparr>producer := P_Loaded v (head_ix (ring t))\<rparr>"
  have "pushing cap v t ?t" unfolding pushing_def using l by simp
  moreover have "threads_inv cap ?t" by (rule push_step_inv [OF l inv])
  ultimately show ?thesis using loaded_push_returns [of ?t v] room can_push_step by fastforce
next
  case (P_Loaded w h)
  then show ?thesis using loaded_push_returns [OF inv _ room, of v h] v by simp
next
  case (P_Room w h)
  then show ?thesis using room_returns [of t v h cap] v by simp
next
  case (P_Written w h)
  then show ?thesis using written_returns [of t v h cap] v by simp
qed

lemma loaded_pop_returns:
  assumes inv: "threads_inv cap t" and p: "consumer t = C_Loaded h" and more: "length (recvd t) < length (sent t)"
  shows "can_pop cap t"
proof -
  have h: "h = of_nat (length (recvd t))" "head_seen t \<le> length (sent t)" "length (sent t) \<le> length (recvd t) + unat cap"
    using inv p by (auto simp: threads_inv_defs)
  have "unat ((of_nat (length (sent t)) :: u64) - of_nat (length (recvd t))) = length (sent t) - length (recvd t)"
    using of_nat_diff_small(2) [OF _ h(3)] more by simp
  then have "h \<noteq> of_nat (length (sent t))" using h(1) more by auto
  from pop_step.pop_avail [OF p h(2) order.refl this]
  have "popping cap t (t\<lparr>consumer := C_Avail h, head_seen := length (sent t)\<rparr>)" (is "popping _ _ ?t")
    unfolding popping_def by simp
  then show ?thesis by (rule can_pop_step) (simp add: avail_returns)
qed

lemma pop_returns:
  assumes inv: "threads_inv cap t" and more: "length (recvd t) < length (sent t)"
  shows "can_pop cap t"
proof (cases "consumer t")
  case C_Idle
  note l = pop_step.pop_load [OF C_Idle, of cap]
  let ?t = "t\<lparr>consumer := C_Loaded (tail_ix (ring t))\<rparr>"
  have "popping cap t ?t" unfolding popping_def using l by simp
  moreover have "threads_inv cap ?t" by (rule pop_step_inv [OF l inv])
  ultimately show ?thesis using loaded_pop_returns [of ?t] more can_pop_step by fastforce
next
  case (C_Loaded h)
  then show ?thesis using loaded_pop_returns [OF inv _ more] by simp
next
  case (C_Avail h)
  then show ?thesis by (rule avail_returns)
next
  case (C_Read h v)
  then show ?thesis by (rule read_returns)
qed

text \<open>On an empty ring a pop can give up.\<close>

lemma pop_gives_up:
  assumes inv: "threads_inv cap t" and none: "recvd t = sent t"
  shows "can_give_up cap t"
proof -
  have loaded: "\<exists>t2. pop_step cap t t2 \<and> recvd t2 = recvd t \<and> consumer t2 = C_Idle"
    if "threads_inv cap t" "recvd t = sent t" "consumer t = C_Loaded h" for t h
    using pop_step.pop_empty [OF that(3), of "length (sent t)" cap] that by (force simp: threads_inv_defs)
  show ?thesis
  proof (cases "consumer t")
    case C_Idle
    note l = pop_step.pop_load [OF C_Idle, of cap]
    let ?t = "t\<lparr>consumer := C_Loaded (tail_ix (ring t))\<rparr>"
    have "popping cap t ?t" unfolding popping_def using l by simp
    moreover have "threads_inv cap ?t" by (rule pop_step_inv [OF l inv])
    moreover obtain t2 where "pop_step cap ?t t2" "recvd t2 = recvd t" "consumer t2 = C_Idle"
      using loaded [OF \<open>threads_inv cap ?t\<close>, of "tail_ix (ring t)"] none by auto
    ultimately show ?thesis unfolding can_give_up_def by (intro exI conjI) (rule r_into_rtranclp)
  next
    case (C_Loaded h)
    then show ?thesis using loaded [OF inv none] unfolding can_give_up_def by blast
  qed (use inv none in \<open>auto simp: threads_inv_defs\<close>)
qed

end

section \<open>Properties\<close>

context spsc begin

lemmas reach_threads_inv = run.reach_inv

lemma inv_contents:
  assumes "threads_inv cap s"
  shows "contents cap (ring s) = drop (length (recvd s)) (sent s)"
proof (rule nth_equalityI)
  have le: "length (recvd s) \<le> length (sent s)" "length (sent s) \<le> length (recvd s) + unat cap"
    using assms by (auto simp: threads_inv_defs)
  have n: "unat (head_ix (ring s) - tail_ix (ring s)) = length (sent s) - length (recvd s)"
    using assms of_nat_diff_small(2) [OF le] by (simp add: threads_inv_defs)
  then show "length (contents cap (ring s)) = length (drop (length (recvd s)) (sent s))" by simp
  fix i assume "i < length (contents cap (ring s))"
  then have i: "i < length (sent s) - length (recvd s)" using n by simp
  have "(unat (tail_ix (ring s)) + i) mod unat cap = (length (recvd s) + i) mod unat cap"
    using unat_mod_cap [OF cap, of "tail_ix (ring s)" i]
      slot_of_nat [OF cap, of "length (recvd s) + i"] slot_of_mod [OF cap, of "of_nat (length (recvd s) + i)"]
      assms by (simp add: threads_inv_defs)
  then show "contents cap (ring s) ! i = drop (length (recvd s)) (sent s) ! i"
    using i n assms by (simp add: contents_def threads_inv_defs)
qed

lemma writer_not_reader:
  assumes "threads_inv cap s" "producer s = P_Room v h" "consumer s = C_Avail t"
  shows "slot_of cap h \<noteq> slot_of cap t"
proof
  let ?r = "length (recvd s)" and ?n = "length (sent s)"
  assume "slot_of cap h = slot_of cap t"
  then have "(?r + (?n - ?r)) mod unat cap = (?r + 0) mod unat cap"
    using assms by (simp add: threads_inv_defs slot_of_nat [OF cap])
  moreover have "0 < ?n - ?r" "?n - ?r < unat cap" using assms by (auto simp: threads_inv_defs)
  ultimately show False
    using mod_same_slot [of ?r "?n - ?r" "unat cap" 0] by simp
qed

end

text \<open>
  (C5) Under every interleaving of the two threads, with stale loads of the other thread's index and
  across index wrap-around: the values popped are a prefix of the values pushed, in push order; the
  pushed values not yet popped are at most the capacity many and are exactly the queue that the
  shared indices and slots hold; and each of them is still in its slot, never overwritten.
\<close>

theorem spsc_fifo:
  assumes "capacity_ok cap" "reach (\<lambda>s. s = start_threads cap dflt) (thread_step cap) s"
  shows "prefix (recvd s) (sent s) \<and> length (sent s) \<le> length (recvd s) + unat cap
    \<and> contents cap (ring s) = drop (length (recvd s)) (sent s) \<and> ring_inv cap (ring s)"
proof -
  have l: "spsc cap" by (rule spsc.intro [OF assms(1)])
  have inv: "threads_inv cap s" by (rule spsc.reach_threads_inv [OF l assms(2)])
  have le: "length (recvd s) \<le> length (sent s)" "length (sent s) \<le> length (recvd s) + unat cap"
    using inv by (auto simp: threads_inv_defs)
  have "prefix (recvd s) (sent s)" using inv by (metis threads_inv_def data_ok_def take_is_prefix)
  moreover have "ring_inv cap (ring s)"
    using inv spsc.of_nat_diff_small(1) [OF l le] by (simp add: ring_inv_def threads_inv_defs)
  ultimately show ?thesis using spsc.inv_contents [OF l inv] le by simp
qed

text \<open>
  (C13) The slots are not atomic, and need not be: in no reachable state is the producer about to
  assign the slot that the consumer is about to read, and what the consumer has read is the oldest
  value it has not yet handed out, whatever the producer did since.
\<close>

theorem spsc_race_free:
  assumes "capacity_ok cap" "reach (\<lambda>s. s = start_threads cap dflt) (thread_step cap) s"
  shows "(\<nexists>v h t. producer s = P_Room v h \<and> consumer s = C_Avail t \<and> slot_of cap h = slot_of cap t)
    \<and> (case consumer s of C_Read t v \<Rightarrow> length (recvd s) < length (sent s) \<and> v = sent s ! length (recvd s)
        | _ \<Rightarrow> True)"
proof -
  have l: "spsc cap" by (rule spsc.intro [OF assms(1)])
  have inv: "threads_inv cap s" by (rule spsc.reach_threads_inv [OF l assms(2)])
  have "case consumer s of C_Read t v \<Rightarrow> length (recvd s) < length (sent s) \<and> v = sent s ! length (recvd s)
        | _ \<Rightarrow> True"
    using inv by (auto simp: threads_inv_defs split: consumer.splits)
  then show ?thesis using spsc.writer_not_reader [OF l inv] by blast
qed

text \<open>
  A schedule for the witnesses, with capacity 2: one push completes, the second has found room, and
  the consumer is about to read.
\<close>

definition mid_flight :: "nat threads" where
  "mid_flight = \<lparr>ring = \<lparr>head_ix = 1, tail_ix = 0, slots = [7, 0]\<rparr>, producer = P_Room 8 1,
     consumer = C_Avail 0, tail_seen = 0, head_seen = 1, sent = [7], recvd = []\<rparr>"

definition run2 :: "nat threads \<Rightarrow> bool" where
  "run2 = reach (\<lambda>s. s = start_threads 2 0) (thread_step 2)"

lemma run2_push: "run2 s \<Longrightarrow> push_step 2 s s' \<Longrightarrow> run2 s'"
  unfolding run2_def by (erule reach.more) (simp add: thread_step_def)

lemma run2_pop: "run2 s \<Longrightarrow> pop_step 2 s s' \<Longrightarrow> run2 s'"
  unfolding run2_def by (erule reach.more) (simp add: thread_step_def)

lemma run2_start: "run2 \<lparr>ring = \<lparr>head_ix = 0, tail_ix = 0, slots = [0, 0]\<rparr>, producer = P_Idle, consumer = C_Idle,
     tail_seen = 0, head_seen = 0, sent = [], recvd = []\<rparr>"
proof -
  have "replicate 2 (0 :: nat) = [0, 0]" by (simp add: numeral_2_eq_2)
  then show ?thesis unfolding run2_def by (intro reach.start) (simp add: start_threads_def new_ring_def)
qed

lemma mid_flight_reachable: "run2 mid_flight"
proof -
  note a1 = run2_push [OF run2_start push_step.push_load [where v = 7], simplified]
  note a2 = run2_push [OF a1 push_step.push_room [where t = 0], simplified]
  note a3 = run2_push [OF a2 push_step.push_write, simplified slot_of_def kMask_def, simplified]
  note a4 = run2_push [OF a3 push_step.push_store, simplified]
  note a5 = run2_push [OF a4 push_step.push_load [where v = 8], simplified]
  note a6 = run2_push [OF a5 push_step.push_room [where t = 0], simplified]
  note a7 = run2_pop [OF a6 pop_step.pop_load, simplified]
  note a8 = run2_pop [OF a7 pop_step.pop_avail [where h = 1], simplified]
  from a8 show ?thesis by (simp add: mid_flight_def)
qed

theorem spsc_fifo_witness:
  "capacity_ok 2 \<and> prefix (recvd mid_flight) (sent mid_flight) \<and> contents 2 (ring mid_flight) = [7]"
proof -
  have c: "capacity_ok 2" by (simp add: capacity_ok_def)
  from spsc_fifo [OF c mid_flight_reachable [unfolded run2_def]] c
  show ?thesis by (simp add: mid_flight_def)
qed

theorem spsc_race_free_witness:
  "producer mid_flight = P_Room 8 1 \<and> consumer mid_flight = C_Avail 0 \<and> slot_of 2 1 \<noteq> slot_of 2 0"
proof -
  have c: "capacity_ok 2" by (simp add: capacity_ok_def)
  from spsc_race_free [OF c mid_flight_reachable [unfolded run2_def]]
  show ?thesis by (auto simp: mid_flight_def)
qed

end
