(* ===== verification/Feed_Shutdown.thy ===== *)
theory Feed_Shutdown
  imports Feed_Handler Ring_Threads
begin

text \<open>
  The two threads of \<^verbatim>\<open>apps/feed_handler_linux.cpp\<close> and their shutdown: the reader pushes the orders
  that it has decoded into the ring and finally sets \<^verbatim>\<open>g_reader_done\<close>; the consumer pops until it
  sees that flag and an empty ring.  The ring is the two-thread system of \<open>Ring_Threads\<close>, in which an
  acquire load may return any value the other thread's index has had since the last one.

  The consumer loads the flag with \<^verbatim>\<open>memory_order_relaxed\<close>, which orders nothing.  The parameter
  \<open>acq\<close> says whether reading \<^verbatim>\<open>true\<close> makes the stores before the flag's store visible, as an acquire
  load would (and as hardware that does not reorder loads does); the code as written is \<open>acq = False\<close>.
\<close>

section \<open>The threads\<close>

datatype loop_pc = L_Test | L_Empty | L_Body | L_Exit

text \<open>
  \<open>todo\<close> are the orders the reader has decoded and not yet pushed, \<open>taken\<close> all that it has decoded.
\<close>

record feed =
  thr :: "Order threads"
  todo :: "Order list"
  taken :: "Order list"
  reader_done :: bool
  loop :: loop_pc

definition start_feed :: "u64 \<Rightarrow> Order \<Rightarrow> feed" where
  "start_feed cap dflt = \<lparr>thr = start_threads cap dflt, todo = [], taken = [], reader_done = False, loop = L_Test\<rparr>"

inductive feed_step :: "bool \<Rightarrow> u64 \<Rightarrow> feed \<Rightarrow> feed \<Rightarrow> bool" for acq cap where
  decoded: "todo s = [] \<Longrightarrow> producer (thr s) = P_Idle \<Longrightarrow> \<not> reader_done s \<Longrightarrow>
    feed_step acq cap s (s\<lparr>todo := os, taken := taken s @ os\<rparr>)"
| pushing: "todo s = v # vs \<Longrightarrow> push_step cap (thr s) t \<Longrightarrow> sent t = sent (thr s) \<Longrightarrow>
    producer t = P_Idle \<or> pval (producer t) = v \<Longrightarrow>
    feed_step acq cap s (s\<lparr>thr := t\<rparr>)"
| push_done: "todo s = v # vs \<Longrightarrow> push_step cap (thr s) t \<Longrightarrow> sent t = sent (thr s) @ [v] \<Longrightarrow>
    feed_step acq cap s (s\<lparr>thr := t, todo := vs\<rparr>)"
| set_done: "todo s = [] \<Longrightarrow> producer (thr s) = P_Idle \<Longrightarrow>
    feed_step acq cap s (s\<lparr>reader_done := True\<rparr>)"
| see_running: "loop s = L_Test \<Longrightarrow> feed_step acq cap s (s\<lparr>loop := L_Body\<rparr>)"
| see_done: "loop s = L_Test \<Longrightarrow> reader_done s \<Longrightarrow>
    feed_step acq cap s (s\<lparr>loop := L_Empty,
      thr := if acq then (thr s)\<lparr>head_seen := length (sent (thr s))\<rparr> else thr s\<rparr>)"
| stop: "loop s = L_Empty \<Longrightarrow> head_seen (thr s) \<le> h \<Longrightarrow> h \<le> length (sent (thr s)) \<Longrightarrow>
    of_nat h = tail_ix (ring (thr s)) \<Longrightarrow>
    feed_step acq cap s (s\<lparr>loop := L_Exit, thr := (thr s)\<lparr>head_seen := h\<rparr>\<rparr>)"
| not_empty: "loop s = L_Empty \<Longrightarrow> head_seen (thr s) \<le> h \<Longrightarrow> h \<le> length (sent (thr s)) \<Longrightarrow>
    of_nat h \<noteq> tail_ix (ring (thr s)) \<Longrightarrow>
    feed_step acq cap s (s\<lparr>loop := L_Body, thr := (thr s)\<lparr>head_seen := h\<rparr>\<rparr>)"
| popping: "loop s = L_Body \<Longrightarrow> pop_step cap (thr s) t \<Longrightarrow> consumer t \<noteq> C_Idle \<Longrightarrow>
    feed_step acq cap s (s\<lparr>thr := t\<rparr>)"
| pop_done: "loop s = L_Body \<Longrightarrow> pop_step cap (thr s) t \<Longrightarrow> consumer t = C_Idle \<Longrightarrow>
    feed_step acq cap s (s\<lparr>thr := t, loop := L_Test\<rparr>)"

section \<open>The invariant\<close>

definition reader_inv :: "feed \<Rightarrow> bool" where
  "reader_inv s \<longleftrightarrow> taken s = sent (thr s) @ todo s
     \<and> (producer (thr s) \<noteq> P_Idle \<longrightarrow> todo s \<noteq> [] \<and> pval (producer (thr s)) = hd (todo s))
     \<and> (reader_done s \<longrightarrow> todo s = [])"

definition exit_inv :: "bool \<Rightarrow> feed \<Rightarrow> bool" where
  "exit_inv acq s \<longleftrightarrow> (acq \<longrightarrow>
     (loop s = L_Empty \<longrightarrow> reader_done s \<and> head_seen (thr s) = length (sent (thr s)))
     \<and> (loop s = L_Exit \<longrightarrow> reader_done s \<and> length (recvd (thr s)) = length (sent (thr s))))"

definition feed_inv :: "bool \<Rightarrow> u64 \<Rightarrow> feed \<Rightarrow> bool" where
  "feed_inv acq cap s \<longleftrightarrow> threads_inv cap (thr s) \<and> reader_inv s \<and> exit_inv acq s"

lemma threads_inv_seen:
  assumes "threads_inv cap t" "head_seen t \<le> h" "h \<le> length (sent t)"
  shows "threads_inv cap (t\<lparr>head_seen := h\<rparr>)"
  using assms by (auto simp: threads_inv_defs split: consumer.splits producer.splits)

lemma reader_push:
  assumes inv: "reader_inv s" and t: "todo s = v # vs" and p: "push_step cap (thr s) t"
  shows "sent t = sent (thr s) \<Longrightarrow> producer t = P_Idle \<or> pval (producer t) = v \<Longrightarrow> reader_inv (s\<lparr>thr := t\<rparr>)"
    and "sent t = sent (thr s) @ [v] \<Longrightarrow> reader_inv (s\<lparr>thr := t, todo := vs\<rparr>)"
  using inv t push_step_frame(4) [OF p] by (auto simp: reader_inv_def)

context spsc begin

lemma all_received:
  assumes "threads_inv cap t" "of_nat (length (sent t)) = tail_ix (ring t)"
  shows "length (recvd t) = length (sent t)"
proof -
  have c: "tail_ix (ring t) = of_nat (length (recvd t))" "length (recvd t) \<le> length (sent t)"
    "length (sent t) \<le> length (recvd t) + unat cap"
    using assms(1) by (auto simp: threads_inv_defs)
  from of_nat_diff_small(2) [OF c(2,3)] assms(2) c(1,2) show ?thesis by simp
qed

lemma feed_step_inv:
  assumes inv: "feed_inv acq cap s" and "feed_step acq cap s s'"
  shows "feed_inv acq cap s'"
proof -
  have ti: "threads_inv cap (thr s)" and ri: "reader_inv s" and ei: "exit_inv acq s"
    using inv by (simp_all add: feed_inv_def)
  have seen: "head_seen (thr s) \<le> length (sent (thr s))" using ti by (simp add: threads_inv_defs)
  show ?thesis
    using assms(2)
  proof cases
    case (decoded os)
    then show ?thesis using ti ri ei by (simp add: feed_inv_def reader_inv_def exit_inv_def)
  next
    case (pushing v vs t)
    then have "\<not> reader_done s" using ri by (auto simp: reader_inv_def)
    then show ?thesis
      using pushing push_step_inv [OF pushing(3) ti] reader_push(1) [OF ri pushing(2,3,4,5)] ei
      by (simp add: feed_inv_def exit_inv_def)
  next
    case (push_done v vs t)
    then have "\<not> reader_done s" using ri by (auto simp: reader_inv_def)
    then show ?thesis
      using push_done push_step_inv [OF push_done(3) ti] reader_push(2) [OF ri push_done(2,3,4)] ei
      by (simp add: feed_inv_def exit_inv_def)
  next
    case set_done
    then show ?thesis using ti ri ei by (simp add: feed_inv_def reader_inv_def exit_inv_def)
  next
    case see_running
    then show ?thesis using ti ri by (simp add: feed_inv_def reader_inv_def exit_inv_def)
  next
    case see_done
    then show ?thesis
      using ti ri threads_inv_seen [OF ti seen order.refl] by (auto simp: feed_inv_def reader_inv_def exit_inv_def)
  next
    case (stop h)
    have "length (recvd (thr s)) = length (sent (thr s))" "reader_done s" if acq
      using that stop ei all_received [OF ti] by (auto simp: exit_inv_def)
    then show ?thesis
      using stop ri threads_inv_seen [OF ti stop(3,4)] by (simp add: feed_inv_def reader_inv_def exit_inv_def)
  next
    case (not_empty h)
    then show ?thesis
      using ri threads_inv_seen [OF ti not_empty(3,4)] by (simp add: feed_inv_def reader_inv_def exit_inv_def)
  next
    case (popping t)
    then show ?thesis
      using ri pop_step_inv [OF popping(3) ti] pop_step_frame [OF popping(3)]
      by (simp add: feed_inv_def reader_inv_def exit_inv_def)
  next
    case (pop_done t)
    then show ?thesis
      using ri pop_step_inv [OF pop_done(3) ti] pop_step_frame [OF pop_done(3)]
      by (simp add: feed_inv_def reader_inv_def exit_inv_def)
  qed
qed

lemma start_feed_inv: "feed_inv acq cap (start_feed cap dflt)"
  using start_threads_inv
  by (simp add: feed_inv_def reader_inv_def exit_inv_def start_feed_def) (simp add: start_threads_def)

end

sublocale spsc \<subseteq> feed_sys: invariant_system "\<lambda>s. s = start_feed cap dflt" "feed_step acq cap" "feed_inv acq cap" for acq dflt
proof (unfold_locales, goal_cases)
  case (1 s) then show ?case by (simp add: start_feed_inv)
next
  case (2 s s') then show ?case by (rule feed_step_inv)
qed

context spsc begin

lemmas reach_feed_inv = feed_sys.reach_inv

end

section \<open>Properties\<close>

text \<open>
  In every interleaving the consumer has received a prefix of what the reader decoded, in order; and
  if seeing the flag makes the reader's earlier stores visible, the consumer stops only when it has
  received every order that the reader decoded, those of the final drain included.
\<close>

theorem shutdown_no_loss:
  assumes "capacity_ok cap" "reach (\<lambda>s. s = start_feed cap dflt) (feed_step acq cap) s"
  shows "prefix (recvd (thr s)) (taken s) \<and> (acq \<and> loop s = L_Exit \<longrightarrow> recvd (thr s) = taken s)"
proof -
  have l: "spsc cap" by (rule spsc.intro [OF assms(1)])
  have inv: "feed_inv acq cap s" by (rule spsc.reach_feed_inv [OF l assms(2)])
  then have r: "recvd (thr s) = take (length (recvd (thr s))) (sent (thr s))" "taken s = sent (thr s) @ todo s"
    by (simp_all add: feed_inv_def threads_inv_def data_ok_def reader_inv_def)
  then have "prefix (recvd (thr s)) (taken s)" by (metis append_take_drop_id append.assoc prefixI)
  moreover have "recvd (thr s) = taken s" if "acq" "loop s = L_Exit"
  proof -
    have "todo s = []" "length (recvd (thr s)) = length (sent (thr s))"
      using inv that by (simp_all add: feed_inv_def exit_inv_def reader_inv_def)
    with r show ?thesis by simp
  qed
  ultimately show ?thesis by blast
qed

text \<open>
  Two runs of a ring of two slots with one order: up to the flag both are the same; then the consumer
  either sees the order, or (with the relaxed load) still an empty ring.
\<close>

definition blank :: Order where
  "blank = \<lparr>o_id = 0, o_symbol = 0, o_side = Buy, o_type = Limit, o_price = 0, o_qty = 0\<rparr>"

definition one_lot :: Order where
  "one_lot = blank\<lparr>o_symbol := 1, o_price := 100, o_qty := 1\<rparr>"

definition feed2 :: "bool \<Rightarrow> feed \<Rightarrow> bool" where
  "feed2 acq = reach (\<lambda>s. s = start_feed 2 blank) (feed_step acq 2)"

definition all_sent :: feed where
  "all_sent = \<lparr>thr = \<lparr>ring = \<lparr>head_ix = 1, tail_ix = 0, slots = [one_lot, blank]\<rparr>, producer = P_Idle, consumer = C_Idle,
       tail_seen = 0, head_seen = 0, sent = [one_lot], recvd = []\<rparr>,
     todo = [], taken = [one_lot], reader_done = True, loop = L_Test\<rparr>"

lemma feed2_step: "feed2 acq s \<Longrightarrow> feed_step acq 2 s s' \<Longrightarrow> feed2 acq s'"
  unfolding feed2_def by (rule reach.more)

lemma feed2_start: "feed2 acq \<lparr>thr = \<lparr>ring = \<lparr>head_ix = 0, tail_ix = 0, slots = [blank, blank]\<rparr>, producer = P_Idle,
    consumer = C_Idle, tail_seen = 0, head_seen = 0, sent = [], recvd = []\<rparr>,
    todo = [], taken = [], reader_done = False, loop = L_Test\<rparr>"
proof -
  have "replicate 2 blank = [blank, blank]" by (simp add: numeral_2_eq_2)
  then show ?thesis
    unfolding feed2_def by (intro reach.start) (simp add: start_feed_def start_threads_def new_ring_def)
qed

lemma all_sent_reachable: "feed2 acq all_sent"
proof -
  note a1 = feed2_step [OF feed2_start feed_step.decoded [where os = "[one_lot]"], simplified]
  note a2 = feed2_step [OF a1 feed_step.pushing [where v = one_lot and vs = "[]",
        OF _ push_step.push_load [where v = one_lot]], simplified]
  note a3 = feed2_step [OF a2 feed_step.pushing [where v = one_lot and vs = "[]",
        OF _ push_step.push_room [where t = 0]], simplified]
  note a4 = feed2_step [OF a3 feed_step.pushing [where v = one_lot and vs = "[]",
        OF _ push_step.push_write], simplified slot_of_def kMask_def, simplified]
  note a5 = feed2_step [OF a4 feed_step.push_done [where v = one_lot and vs = "[]",
        OF _ push_step.push_store], simplified]
  note a6 = feed2_step [OF a5 feed_step.set_done, simplified]
  from a6 show ?thesis by (simp add: all_sent_def)
qed

theorem shutdown_no_loss_witness:
  "\<exists>s. feed2 True s \<and> loop s = L_Exit \<and> taken s = [one_lot] \<and> recvd (thr s) = [one_lot]"
proof -
  note b0 = all_sent_reachable [of True, unfolded all_sent_def]
  note b1 = feed2_step [OF b0 feed_step.see_done, simplified]
  note b2 = feed2_step [OF b1 feed_step.not_empty [where h = 1], simplified]
  note b3 = feed2_step [OF b2 feed_step.popping [OF _ pop_step.pop_load], simplified]
  note b4 = feed2_step [OF b3 feed_step.popping [OF _ pop_step.pop_avail [where tail = 0 and h = 1]], simplified]
  note b5 = feed2_step [OF b4 feed_step.popping [OF _ pop_step.pop_read [where tail = 0]], simplified slot_of_def kMask_def, simplified]
  note b6 = feed2_step [OF b5 feed_step.pop_done [OF _ pop_step.pop_store [where tail = 0 and v = one_lot]], simplified]
  note b7 = feed2_step [OF b6 feed_step.see_done, simplified]
  note b8 = feed2_step [OF b7 feed_step.stop [where h = 1], simplified]
  have "capacity_ok 2" by (simp add: capacity_ok_def)
  from shutdown_no_loss [OF this b8 [unfolded feed2_def]] b8 show ?thesis by - (rule exI, rule conjI, assumption, simp)
qed

text \<open>
  (C38) With the relaxed load that the code uses, the C++ memory model allows the consumer to stop early:
  the reader has pushed an order and set the flag, the consumer reads the flag as true and then an
  index that is out of date, finds the ring empty and leaves the order behind.
\<close>

theorem shutdown_relaxed_loses:
  "\<exists>s. reach (\<lambda>s. s = start_feed 2 blank) (feed_step False 2) s
     \<and> loop s = L_Exit \<and> reader_done s \<and> taken s = [one_lot] \<and> sent (thr s) = [one_lot] \<and> recvd (thr s) = []"
proof -
  note b1 = feed2_step [OF all_sent_reachable [of False, unfolded all_sent_def] feed_step.see_done, simplified]
  note b2 = feed2_step [OF b1 feed_step.stop [where h = 0], simplified]
  from b2 [unfolded feed2_def] show ?thesis by - (rule exI, rule conjI, assumption, simp)
qed

end
