(* ===== verification/Feed_System.thy ===== *)
theory Feed_System
  imports Feed_Shutdown
begin

text \<open>
  The feed handlers as a whole: the reader thread that takes what its connections deliver, the ring, and the
  consumer thread with its risk gate and matching engine, interleaved step by step.  The reader is
  that of \<open>Feed_Handler\<close>, the threads and the flag those of \<open>Feed_Shutdown\<close>; an order is checked
  and matched when its pop returns.  Both handlers have this structure (\<^verbatim>\<open>apps/feed_handler_linux.cpp\<close>,
  \<^verbatim>\<open>apps/feed_handler_iouring_linux.cpp\<close>).
\<close>

section \<open>The system\<close>

text \<open>\<open>seen\<close> is what the connections have delivered; \<open>cst\<close> is \<open>None\<close> after undefined behaviour of the consumer.\<close>

record handler =
  flow :: feed
  rd :: reader
  seen :: "event list"
  cst :: "consumer_state option"

definition start_handler :: "u64 \<Rightarrow> Order \<Rightarrow> handler" where
  "start_handler cap dflt = \<lparr>flow = start_feed cap dflt, rd = start_reader, seen = [], cst = Some start_consumer\<rparr>"

text \<open>The orders that an event adds to those handed to the ring.\<close>

definition new_orders :: "event \<Rightarrow> reader \<Rightarrow> Order list" where
  "new_orders e r = map snd (drop (length (pushed r)) (pushed (reader_event e r)))"

inductive handler_step :: "RiskLimits \<Rightarrow> bool \<Rightarrow> u64 \<Rightarrow> handler \<Rightarrow> handler \<Rightarrow> bool" for lim acq cap where
  takes: "todo (flow s) = [] \<Longrightarrow> producer (thr (flow s)) = P_Idle \<Longrightarrow> \<not> reader_done (flow s) \<Longrightarrow> os = new_orders e (rd s) \<Longrightarrow>
    handler_step lim acq cap s
      (s\<lparr>flow := (flow s)\<lparr>todo := os, taken := taken (flow s) @ os\<rparr>, rd := reader_event e (rd s), seen := seen s @ [e]\<rparr>)"
| moves: "feed_step acq cap (flow s) f \<Longrightarrow> taken f = taken (flow s) \<Longrightarrow> recvd (thr f) = recvd (thr (flow s)) \<Longrightarrow>
    handler_step lim acq cap s (s\<lparr>flow := f\<rparr>)"
| processes: "feed_step acq cap (flow s) f \<Longrightarrow> recvd (thr f) = recvd (thr (flow s)) @ [ord] \<Longrightarrow>
    handler_step lim acq cap s (s\<lparr>flow := f, cst := Option.bind (cst s) (consume lim ord)\<rparr>)"

abbreviation handler_reach :: "RiskLimits \<Rightarrow> bool \<Rightarrow> u64 \<Rightarrow> Order \<Rightarrow> handler \<Rightarrow> bool" where
  "handler_reach lim acq cap dflt \<equiv> reach (\<lambda>s. s = start_handler cap dflt) (handler_step lim acq cap)"

section \<open>The invariant\<close>

definition handler_inv :: "RiskLimits \<Rightarrow> bool \<Rightarrow> u64 \<Rightarrow> handler \<Rightarrow> bool" where
  "handler_inv lim acq cap s \<longleftrightarrow> feed_inv acq cap (flow s) \<and> rd s = reader_run (seen s)
     \<and> taken (flow s) = map snd (pushed (rd s)) \<and> cst s = consume_all lim (recvd (thr (flow s))) start_consumer"

lemma pushed_extends: "pushed (reader_event e r) = pushed r @ drop (length (pushed r)) (pushed (reader_event e r))"
  by (cases e) (simp_all add: case_prod_beta Let_def)

lemma taken_extends: "map snd (pushed (reader_event e r)) = map snd (pushed r) @ new_orders e r"
  unfolding new_orders_def by (metis map_append pushed_extends)

lemma consume_all_snoc: "consume_all lim (os @ [ord]) c = Option.bind (consume_all lim os c) (consume lim ord)"
proof (induction os arbitrary: c)
  case Nil
  then show ?case by (cases "consume lim ord c") simp_all
next
  case (Cons a os)
  then show ?case by (cases "consume lim a c") simp_all
qed

text \<open>Only a step of the reader that decodes adds to what it has taken, and only a push to what it has sent.\<close>

lemma feed_step_taken:
  assumes "feed_step acq cap f f'" "recvd (thr f') = recvd (thr f) @ [ord]"
  shows "taken f' = taken f"
  using assms by cases (auto dest: push_step_frame(1))

context spsc begin

lemma handler_step_inv:
  assumes inv: "handler_inv lim acq cap s" and "handler_step lim acq cap s s'"
  shows "handler_inv lim acq cap s'"
  using assms(2)
proof cases
  case (takes os e)
  have f: "feed_inv acq cap (flow s)" using inv by (simp add: handler_inv_def)
  from feed_step_inv [OF f feed_step.decoded [OF takes(2-4), of acq cap os]] show ?thesis
    using inv takes taken_extends [of e "rd s"] by (simp add: handler_inv_def reader_run_snoc del: reader_event.simps)
next
  case (moves f)
  then show ?thesis using inv feed_step_inv by (auto simp: handler_inv_def)
next
  case (processes f ord)
  then show ?thesis using inv feed_step_inv feed_step_taken by (auto simp: handler_inv_def consume_all_snoc)
qed

lemma start_handler_inv: "handler_inv lim acq cap (start_handler cap dflt)"
  using start_feed_inv
  by (simp add: handler_inv_def start_handler_def reader_run_def start_reader_def)
    (simp add: start_feed_def start_threads_def)

end

sublocale spsc \<subseteq> handler_sys: invariant_system "\<lambda>s. s = start_handler cap dflt" "handler_step lim acq cap" "handler_inv lim acq cap"
  for dflt lim acq
  by unfold_locales (auto intro: start_handler_inv handler_step_inv)

section \<open>Shutting down\<close>

text \<open>
  A run that the reader and the consumer can always make: the consumer takes what is in the ring, the
  reader pushes what it still holds and sets the flag, and the consumer sees it and stops.
\<close>

abbreviation feed_steps :: "bool \<Rightarrow> u64 \<Rightarrow> feed \<Rightarrow> feed \<Rightarrow> bool" where
  "feed_steps acq cap \<equiv> (feed_step acq cap)\<^sup>*\<^sup>*"

lemma loop_pops:
  "(popping cap)\<^sup>*\<^sup>* (thr f) t \<Longrightarrow> loop f = L_Body \<Longrightarrow> feed_steps acq cap f (f\<lparr>thr := t\<rparr>)"
proof (induction rule: rtranclp_induct)
  case (step t t')
  have "feed_step acq cap (f\<lparr>thr := t\<rparr>) (f\<lparr>thr := t'\<rparr>)"
    using feed_step.popping [of "f\<lparr>thr := t\<rparr>" cap t' acq] step by (simp add: popping_def)
  with step show ?case by (meson rtranclp.rtrancl_into_rtrancl)
qed simp

lemma reader_pushes:
  "(pushing cap v)\<^sup>*\<^sup>* (thr f) t \<Longrightarrow> todo f = v # vs \<Longrightarrow> feed_steps acq cap f (f\<lparr>thr := t\<rparr>)"
proof (induction rule: rtranclp_induct)
  case (step t t')
  have "feed_step acq cap (f\<lparr>thr := t\<rparr>) (f\<lparr>thr := t'\<rparr>)"
    using feed_step.pushing [of "f\<lparr>thr := t\<rparr>" v vs cap t' acq] step by (simp add: Ring_Threads.pushing_def)
  with step show ?case by (meson rtranclp.rtrancl_into_rtrancl)
qed simp

text \<open>What a step of the consumer leaves of the reader, and of the reader's results.\<close>

definition same_reader_side :: "feed \<Rightarrow> feed \<Rightarrow> bool" where
  "same_reader_side f f' \<longleftrightarrow> todo f' = todo f \<and> taken f' = taken f \<and> reader_done f' = reader_done f
     \<and> sent (thr f') = sent (thr f) \<and> producer (thr f') = producer (thr f)"

lemma popping_producer: "(popping cap)\<^sup>*\<^sup>* t t' \<Longrightarrow> producer t' = producer t"
  by (induction rule: rtranclp_induct) (auto simp: popping_def dest: pop_step_frame(2))

context spsc begin

lemma feed_steps_inv: "feed_steps acq cap f f' \<Longrightarrow> feed_inv acq cap f \<Longrightarrow> feed_inv acq cap f'"
  by (induction rule: rtranclp_induct) (auto intro: feed_step_inv)

lemma enters_body:
  assumes inv: "feed_inv acq cap f" and run: "loop f \<noteq> L_Exit" and more: "length (recvd (thr f)) < length (sent (thr f))"
  shows "\<exists>f'. feed_steps acq cap f f' \<and> loop f' = L_Body \<and> same_reader_side f f' \<and> recvd (thr f') = recvd (thr f)"
proof (cases "loop f")
  case L_Test
  from feed_step.see_running [OF this] show ?thesis by (intro exI [of _ "f\<lparr>loop := L_Body\<rparr>"]) (auto simp: same_reader_side_def)
next
  case L_Empty
  have t: "threads_inv cap (thr f)" using inv by (simp add: feed_inv_def)
  have "of_nat (length (sent (thr f))) \<noteq> tail_ix (ring (thr f))" using all_received [OF t] more by auto
  moreover have "head_seen (thr f) \<le> length (sent (thr f))" using t by (simp add: threads_inv_defs)
  ultimately have "feed_step acq cap f (f\<lparr>loop := L_Body, thr := (thr f)\<lparr>head_seen := length (sent (thr f))\<rparr>\<rparr>)"
    using feed_step.not_empty [OF L_Empty] by simp
  then show ?thesis
    by (intro exI [of _ "f\<lparr>loop := L_Body, thr := (thr f)\<lparr>head_seen := length (sent (thr f))\<rparr>\<rparr>"]) (auto simp: same_reader_side_def)
next
  case L_Body
  then show ?thesis by (intro exI [of _ f]) (simp add: same_reader_side_def)
qed (use run in simp)

lemma consumer_takes:
  assumes inv: "feed_inv acq cap f" and run: "loop f \<noteq> L_Exit" and more: "length (recvd (thr f)) < length (sent (thr f))"
  shows "\<exists>f'. feed_steps acq cap f f' \<and> loop f' = L_Test \<and> same_reader_side f f' \<and> length (recvd (thr f')) = length (recvd (thr f)) + 1"
proof -
  obtain f1 where f1: "feed_steps acq cap f f1" "loop f1 = L_Body" "same_reader_side f f1" "recvd (thr f1) = recvd (thr f)"
    using enters_body [OF assms] by blast
  have "threads_inv cap (thr f1)" using feed_steps_inv [OF f1(1) inv] by (simp add: feed_inv_def)
  moreover have "length (recvd (thr f1)) < length (sent (thr f1))" using f1(3,4) more by (simp add: same_reader_side_def)
  ultimately obtain t1 t2 v where t: "(popping cap)\<^sup>*\<^sup>* (thr f1) t1" "pop_step cap t1 t2" "recvd t2 = recvd (thr f1) @ [v]"
    using pop_returns unfolding can_pop_def by blast
  have "consumer t2 = C_Idle" using t(2,3) popping_frame [OF t(1)] by cases auto
  then have "feed_step acq cap (f1\<lparr>thr := t1\<rparr>) (f1\<lparr>thr := t2, loop := L_Test\<rparr>)"
    using feed_step.pop_done [of "f1\<lparr>thr := t1\<rparr>" cap t2 acq] t(2) f1(2) by simp
  with loop_pops [OF t(1) f1(2), of acq] f1(1) have "feed_steps acq cap f (f1\<lparr>thr := t2, loop := L_Test\<rparr>)"
    by (meson rtranclp.rtrancl_into_rtrancl rtranclp_trans)
  then show ?thesis
    using t(3) f1(3,4) pop_step_frame [OF t(2)] popping_sent [OF t(1)] popping_producer [OF t(1)]
    by (intro exI [of _ "f1\<lparr>thr := t2, loop := L_Test\<rparr>"]) (simp add: same_reader_side_def)
qed

lemma consumer_drains:
  "feed_inv acq cap f \<Longrightarrow> loop f \<noteq> L_Exit \<Longrightarrow>
   \<exists>f'. feed_steps acq cap f f' \<and> loop f' \<noteq> L_Exit \<and> same_reader_side f f' \<and> recvd (thr f') = sent (thr f')"
proof (induction "length (sent (thr f)) - length (recvd (thr f))" arbitrary: f rule: less_induct)
  case less
  have p: "prefix (recvd (thr f)) (sent (thr f))" using less.prems(1) by (auto simp: feed_inv_def intro: recvd_prefix)
  show ?case
  proof (cases "recvd (thr f) = sent (thr f)")
    case True
    then show ?thesis using less.prems(2) by (intro exI [of _ f]) (simp add: same_reader_side_def)
  next
    case False
    then have l: "length (recvd (thr f)) < length (sent (thr f))" using p by (metis prefix_length_less prefix_order.le_neq_trans)
    obtain f1 where f1: "feed_steps acq cap f f1" "loop f1 = L_Test" "same_reader_side f f1" "length (recvd (thr f1)) = length (recvd (thr f)) + 1"
      using consumer_takes [OF less.prems l] by blast
    then have "length (sent (thr f1)) - length (recvd (thr f1)) < length (sent (thr f)) - length (recvd (thr f))"
      using l by (simp add: same_reader_side_def)
    from less.hyps [OF this feed_steps_inv [OF f1(1) less.prems(1)]] f1(2) obtain f2
      where "feed_steps acq cap f1 f2" "loop f2 \<noteq> L_Exit" "same_reader_side f1 f2" "recvd (thr f2) = sent (thr f2)" by auto
    then show ?thesis using f1 by (intro exI [of _ f2]) (auto simp: same_reader_side_def intro: rtranclp_trans)
  qed
qed

lemma reader_delivers:
  assumes inv: "feed_inv acq cap f" and run: "loop f \<noteq> L_Exit" and more: "todo f = v # vs"
  shows "\<exists>f'. feed_steps acq cap f f' \<and> loop f' \<noteq> L_Exit \<and> todo f' = vs \<and> taken f' = taken f \<and> reader_done f' = reader_done f"
proof -
  obtain f1 where f1: "feed_steps acq cap f f1" "loop f1 \<noteq> L_Exit" "same_reader_side f f1" "recvd (thr f1) = sent (thr f1)"
    using consumer_drains [OF inv run] by blast
  have i1: "feed_inv acq cap f1" by (rule feed_steps_inv [OF f1(1) inv])
  have td: "todo f1 = v # vs" "taken f1 = taken f" "reader_done f1 = reader_done f" using f1(3) more by (simp_all add: same_reader_side_def)
  have "producer (thr f1) \<noteq> P_Idle \<longrightarrow> pval (producer (thr f1)) = v" using i1 td by (auto simp: feed_inv_def reader_inv_def)
  moreover have "threads_inv cap (thr f1)" using i1 by (simp add: feed_inv_def)
  ultimately have "can_push cap v (thr f1)" using push_returns [of "thr f1" v] f1(4) cap_pos by simp
  then obtain t1 t2 where t: "(Ring_Threads.pushing cap v)\<^sup>*\<^sup>* (thr f1) t1" "push_step cap t1 t2" "sent t2 = sent (thr f1) @ [v]"
    unfolding can_push_def by blast
  have "feed_step acq cap (f1\<lparr>thr := t1\<rparr>) (f1\<lparr>thr := t2, todo := vs\<rparr>)"
    using feed_step.push_done [of "f1\<lparr>thr := t1\<rparr>" v vs cap t2 acq] t td(1) pushing_frame [OF t(1)] by simp
  with reader_pushes [OF t(1) td(1), of acq] f1(1) have "feed_steps acq cap f (f1\<lparr>thr := t2, todo := vs\<rparr>)"
    by (meson rtranclp.rtrancl_into_rtrancl rtranclp_trans)
  then show ?thesis using f1(2) td(2,3) by (intro exI [of _ "f1\<lparr>thr := t2, todo := vs\<rparr>"]) simp
qed

lemma reader_empties:
  "feed_inv acq cap f \<Longrightarrow> loop f \<noteq> L_Exit \<Longrightarrow>
   \<exists>f'. feed_steps acq cap f f' \<and> loop f' \<noteq> L_Exit \<and> todo f' = [] \<and> taken f' = taken f \<and> reader_done f' = reader_done f"
proof (induction "todo f" arbitrary: f)
  case Nil
  then show ?case by (intro exI [of _ f]) simp
next
  case (Cons v vs)
  obtain f1 where f1: "feed_steps acq cap f f1" "loop f1 \<noteq> L_Exit" "todo f1 = vs" "taken f1 = taken f" "reader_done f1 = reader_done f"
    using reader_delivers [OF Cons.prems Cons.hyps(2) [symmetric]] by blast
  from Cons.hyps(1) [OF f1(3) [symmetric] feed_steps_inv [OF f1(1) Cons.prems(1)] f1(2)] obtain f2
    where "feed_steps acq cap f1 f2" "loop f2 \<noteq> L_Exit" "todo f2 = []" "taken f2 = taken f1" "reader_done f2 = reader_done f1"
    by blast
  with f1 show ?case by (intro exI [of _ f2]) (simp add: rtranclp_trans [OF f1(1)])
qed

lemma stops_empty:
  assumes "loop g = L_Empty" "threads_inv cap (thr g)" "recvd (thr g) = sent (thr g)"
  shows "\<exists>f'. feed_steps acq cap g f' \<and> loop f' = L_Exit \<and> taken f' = taken g"
proof -
  let ?f = "g\<lparr>loop := L_Exit, thr := (thr g)\<lparr>head_seen := length (sent (thr g))\<rparr>\<rparr>"
  have "feed_step acq cap g ?f" using assms by (intro feed_step.stop) (simp_all add: threads_inv_defs)
  then show ?thesis by (intro exI [of _ ?f]) auto
qed

lemma stops_test:
  assumes g: "loop g = L_Test" "reader_done g" "threads_inv cap (thr g)" "recvd (thr g) = sent (thr g)"
  shows "\<exists>f'. feed_steps acq cap g f' \<and> loop f' = L_Exit \<and> taken f' = taken g"
proof -
  let ?t = "if acq then (thr g)\<lparr>head_seen := length (sent (thr g))\<rparr> else thr g"
  let ?g = "g\<lparr>loop := L_Empty, thr := ?t\<rparr>"
  have "head_seen (thr g) \<le> length (sent (thr g))" using g(3) by (simp add: threads_inv_defs)
  then have "threads_inv cap ?t" "recvd ?t = sent ?t" using threads_inv_seen [OF g(3)] g(3,4) by simp_all
  with stops_empty [of ?g acq] obtain f' where "feed_steps acq cap ?g f'" "loop f' = L_Exit" "taken f' = taken ?g"
    by (auto simp del: if_split)
  then show ?thesis
    using feed_step.see_done [OF g(1,2), of acq cap] by (intro exI [of _ f']) (auto intro: converse_rtranclp_into_rtranclp)
qed

lemma stops_body:
  assumes inv: "feed_inv acq cap g" and g: "loop g = L_Body" "reader_done g" "recvd (thr g) = sent (thr g)"
  shows "\<exists>f'. feed_steps acq cap g f' \<and> loop f' = L_Exit \<and> taken f' = taken g"
proof -
  have "threads_inv cap (thr g)" using inv by (simp add: feed_inv_def)
  from pop_gives_up [OF this g(3)] obtain u1 u2 where u: "(popping cap)\<^sup>*\<^sup>* (thr g) u1" "pop_step cap u1 u2"
    "recvd u2 = recvd (thr g)" "consumer u2 = C_Idle" unfolding can_give_up_def by blast
  let ?h = "g\<lparr>thr := u2, loop := L_Test\<rparr>"
  have "feed_step acq cap (g\<lparr>thr := u1\<rparr>) ?h" using feed_step.pop_done [of "g\<lparr>thr := u1\<rparr>" cap u2 acq] u g(1) by simp
  with loop_pops [OF u(1) g(1), of acq] have st: "feed_steps acq cap g ?h" by (meson rtranclp.rtrancl_into_rtrancl)
  have "threads_inv cap u2" using feed_steps_inv [OF st inv] by (simp add: feed_inv_def)
  moreover have "recvd u2 = sent u2" using u(3) g(3) pop_step_frame(1) [OF u(2)] popping_sent [OF u(1)] by simp
  ultimately obtain f' where "feed_steps acq cap ?h f'" "loop f' = L_Exit" "taken f' = taken ?h"
    using stops_test [of ?h acq] g(2) by auto
  then show ?thesis using st by (intro exI [of _ f']) (auto intro: rtranclp_trans)
qed

lemma consumer_stops:
  assumes inv: "feed_inv acq cap f" and run: "loop f \<noteq> L_Exit" and d: "reader_done f"
  shows "\<exists>f'. feed_steps acq cap f f' \<and> loop f' = L_Exit \<and> taken f' = taken f"
proof -
  obtain f1 where f1: "feed_steps acq cap f f1" "loop f1 \<noteq> L_Exit" "same_reader_side f f1" "recvd (thr f1) = sent (thr f1)"
    using consumer_drains [OF inv run] by blast
  have i1: "feed_inv acq cap f1" and t1: "threads_inv cap (thr f1)" using feed_steps_inv [OF f1(1) inv] by (simp_all add: feed_inv_def)
  have d1: "reader_done f1" using f1(3) d by (simp add: same_reader_side_def)
  obtain f' where "feed_steps acq cap f1 f'" "loop f' = L_Exit" "taken f' = taken f1"
    using stops_empty [OF _ t1 f1(4), of acq] stops_test [OF _ d1 t1 f1(4), of acq] stops_body [OF i1 _ d1 f1(4)] f1(2)
    by (cases "loop f1") blast+
  then show ?thesis using f1(1,3) by (auto simp: same_reader_side_def intro: rtranclp_trans)
qed

lemma feed_can_stop:
  assumes inv: "feed_inv acq cap f"
  shows "\<exists>f'. feed_steps acq cap f f' \<and> loop f' = L_Exit \<and> taken f' = taken f"
proof (cases "loop f = L_Exit")
  case False
  obtain f1 where f1: "feed_steps acq cap f f1" "loop f1 \<noteq> L_Exit" "todo f1 = []" "taken f1 = taken f"
    using reader_empties [OF inv False] by blast
  note i1 = feed_steps_inv [OF f1(1) inv]
  have "producer (thr f1) = P_Idle" using i1 f1(3) by (auto simp: feed_inv_def reader_inv_def)
  from feed_step.set_done [OF f1(3) this, of acq cap] f1(1) have st: "feed_steps acq cap f (f1\<lparr>reader_done := True\<rparr>)"
    by (rule rtranclp.rtrancl_into_rtrancl [rotated])
  with consumer_stops [OF feed_steps_inv [OF st inv]] f1(2,4) show ?thesis by (auto intro: rtranclp_trans)
qed blast

end

text \<open>The handler follows every run of its threads in which nothing is decoded.\<close>

lemma feed_step_shape:
  assumes "feed_step acq cap f f'"
  shows "prefix (taken f) (taken f')" "recvd (thr f') = recvd (thr f) \<or> (\<exists>ord. recvd (thr f') = recvd (thr f) @ [ord])"
proof -
  have pop: "recvd t' = recvd t \<or> (\<exists>ord. recvd t' = recvd t @ [ord])" if "pop_step cap t t'" for t t' :: "Order threads"
    using that by cases auto
  show "prefix (taken f) (taken f')" using assms by cases auto
  show "recvd (thr f') = recvd (thr f) \<or> (\<exists>ord. recvd (thr f') = recvd (thr f) @ [ord])"
    using assms by cases (auto dest: push_step_frame(1) pop)
qed

lemma feed_steps_taken: "feed_steps acq cap f f' \<Longrightarrow> prefix (taken f) (taken f')"
  by (induction rule: rtranclp_induct) (auto dest: feed_step_shape(1) intro: prefix_order.trans)

lemma handler_follows:
  "feed_steps acq cap f f' \<Longrightarrow> taken f' = taken f \<Longrightarrow> flow s = f \<Longrightarrow>
   \<exists>s'. (handler_step lim acq cap)\<^sup>*\<^sup>* s s' \<and> flow s' = f' \<and> seen s' = seen s"
proof (induction arbitrary: s rule: converse_rtranclp_induct)
  case base
  then show ?case by blast
next
  case (step f f1)
  have "taken f1 = taken f"
    using feed_step_shape(1) [OF step.hyps(1)] feed_steps_taken [OF step.hyps(2)] step.prems(1) by (simp add: prefix_order.antisym)
  then obtain s1 where s1: "handler_step lim acq cap s s1" "flow s1 = f1" "seen s1 = seen s"
    using feed_step_shape(2) [OF step.hyps(1)] handler_step.moves [of acq cap s f1 lim] handler_step.processes [of acq cap s f1 _ lim]
      step.hyps(1) step.prems(2) by fastforce
  from step.IH [OF _ s1(2)] step.prems(1) \<open>taken f1 = taken f\<close> s1 show ?case
    by (metis converse_rtranclp_into_rtranclp)
qed

context spsc begin

text \<open>While it has not set the flag, the reader can take in whatever the connections deliver.\<close>

lemma handler_takes:
  assumes "handler_inv lim acq cap s" "loop (flow s) \<noteq> L_Exit" "\<not> reader_done (flow s)"
  shows "\<exists>s'. (handler_step lim acq cap)\<^sup>*\<^sup>* s s' \<and> seen s' = seen s @ [e] \<and> loop (flow s') \<noteq> L_Exit \<and> \<not> reader_done (flow s')"
proof -
  have inv: "feed_inv acq cap (flow s)" using assms(1) by (simp add: handler_inv_def)
  obtain f where f: "feed_steps acq cap (flow s) f" "loop f \<noteq> L_Exit" "todo f = []" "taken f = taken (flow s)" "\<not> reader_done f"
    using reader_empties [OF inv assms(2)] assms(3) by blast
  obtain s1 where s1: "(handler_step lim acq cap)\<^sup>*\<^sup>* s s1" "flow s1 = f" "seen s1 = seen s"
    using handler_follows [OF f(1,4) refl, of lim] by blast
  have "producer (thr f) = P_Idle" using feed_steps_inv [OF f(1) inv] f(3) by (auto simp: feed_inv_def reader_inv_def)
  then have "handler_step lim acq cap s1 (s1\<lparr>flow := f\<lparr>todo := new_orders e (rd s1), taken := taken f @ new_orders e (rd s1)\<rparr>,
      rd := reader_event e (rd s1), seen := seen s1 @ [e]\<rparr>)" (is "handler_step _ _ _ _ ?s")
    using handler_step.takes [of s1 "new_orders e (rd s1)" e lim acq cap] f s1(2) by (simp del: reader_event.simps)
  with s1 f(2,5) show ?thesis by (intro exI [of _ ?s]) (auto intro: rtranclp.rtrancl_into_rtrancl)
qed

lemma handler_steps_inv: "(handler_step lim acq cap)\<^sup>*\<^sup>* s s' \<Longrightarrow> handler_inv lim acq cap s \<Longrightarrow> handler_inv lim acq cap s'"
  by (induction rule: rtranclp_induct) (auto intro: handler_step_inv)

lemma handler_takes_all:
  "handler_inv lim acq cap s \<Longrightarrow> loop (flow s) \<noteq> L_Exit \<Longrightarrow> \<not> reader_done (flow s) \<Longrightarrow>
   \<exists>s'. (handler_step lim acq cap)\<^sup>*\<^sup>* s s' \<and> seen s' = seen s @ evs"
proof (induction evs arbitrary: s)
  case Nil
  then show ?case by auto
next
  case (Cons e evs)
  obtain s1 where s1: "(handler_step lim acq cap)\<^sup>*\<^sup>* s s1" "seen s1 = seen s @ [e]" "loop (flow s1) \<noteq> L_Exit" "\<not> reader_done (flow s1)"
    using handler_takes [OF Cons.prems, of e] by blast
  from Cons.IH [OF handler_steps_inv [OF s1(1) Cons.prems(1)] s1(3,4)] s1(1,2) show ?case by (auto intro: rtranclp_trans)
qed

lemma handler_stops:
  assumes "handler_inv lim acq cap s"
  shows "\<exists>s'. (handler_step lim acq cap)\<^sup>*\<^sup>* s s' \<and> loop (flow s') = L_Exit \<and> seen s' = seen s"
proof -
  obtain f where f: "feed_steps acq cap (flow s) f" "loop f = L_Exit" "taken f = taken (flow s)"
    using feed_can_stop [of acq "flow s"] assms by (auto simp: handler_inv_def)
  with handler_follows [OF f(1,3) refl, of lim] show ?thesis by auto
qed

lemma handler_received:
  assumes "handler_inv lim acq cap s"
  shows "prefix (recvd (thr (flow s))) (map snd (pushed (reader_run (seen s))))"
    and "acq \<Longrightarrow> loop (flow s) = L_Exit \<Longrightarrow> recvd (thr (flow s)) = map snd (pushed (reader_run (seen s)))"
proof -
  let ?f = "flow s"
  have f: "threads_inv cap (thr ?f)" "reader_inv ?f" "exit_inv acq ?f" and t: "taken ?f = map snd (pushed (reader_run (seen s)))"
    using assms by (simp_all add: handler_inv_def feed_inv_def)
  have p: "prefix (recvd (thr ?f)) (sent (thr ?f))" by (rule recvd_prefix [OF f(1)])
  with f(2) t show "prefix (recvd (thr ?f)) (map snd (pushed (reader_run (seen s))))"
    by (metis reader_inv_def prefix_order.trans prefixI)
  assume "acq" "loop ?f = L_Exit"
  then have "todo ?f = []" "length (recvd (thr ?f)) = length (sent (thr ?f))" using f(2,3) by (simp_all add: exit_inv_def reader_inv_def)
  with p f(2) t show "recvd (thr ?f) = map snd (pushed (reader_run (seen s)))" by (auto simp: reader_inv_def prefix_def)
qed

lemma handler_market:
  assumes lim: "limits_ok lim" and inv: "handler_inv lim acq cap s"
  shows "\<exists>c. cst s = Some c \<and> live_book (eng c) \<and> uncrossed (eng c) \<and> shows_market c (market_run lim (recvd (thr (flow s))))"
proof -
  have "set (recvd (thr (flow s))) \<subseteq> snd ` set (pushed (reader_run (seen s)))"
    using handler_received(1) [OF inv] by (metis list.set_map set_mono_prefix)
  then have "\<forall>ord\<in>set (recvd (thr (flow s))). order_typed ord" using pushed_typed by blast
  from consume_all_total [OF lim this start_consumer_ok start_market] inv show ?thesis
    by (auto simp: handler_inv_def market_run_def)
qed

lemmas handler_reach_inv = handler_sys.reach_inv

end

text \<open>Every sequence of events has a run in which it is delivered.\<close>

lemma handler_can_take:
  assumes "capacity_ok cap"
  shows "\<exists>s. handler_reach lim acq cap dflt s \<and> seen s = evs"
proof -
  have l: "spsc cap" by (rule spsc.intro [OF assms])
  have st: "handler_reach lim acq cap dflt (start_handler cap dflt)" by (rule reach.start) simp
  have "loop (flow (start_handler cap dflt)) \<noteq> L_Exit" "\<not> reader_done (flow (start_handler cap dflt))" "seen (start_handler cap dflt) = []"
    by (simp_all add: start_handler_def start_feed_def)
  with spsc.handler_takes_all [OF l spsc.handler_reach_inv [OF l st], of evs] show ?thesis
    using reach_steps [OF _ st] by fastforce
qed

lemma handler_can_complete:
  assumes "capacity_ok cap"
  shows "\<exists>s. handler_reach lim acq cap dflt s \<and> seen s = evs \<and> loop (flow s) = L_Exit"
proof -
  have l: "spsc cap" by (rule spsc.intro [OF assms])
  obtain s where s: "handler_reach lim acq cap dflt s" "seen s = evs" using handler_can_take [OF assms] by blast
  from spsc.handler_stops [OF l spsc.handler_reach_inv [OF l s(1)]] s reach_steps show ?thesis by metis
qed

text \<open>Two frames that trade with each other.\<close>

definition two_frames :: "event list" where
  "two_frames = [Bytes 7 (frame_bytes (make_frame 0)), Bytes 7 (frame_bytes (make_frame 1))]"

lemma two_frames_fill: "snd (market_run (feed_limits empty_config) (map snd (pushed (reader_run two_frames)))) = 1"
proof -
  let ?ord = "\<lambda>sd. \<lparr>o_id = 0, o_symbol = 1, o_side = sd, o_type = Limit, o_price = 100, o_qty = 1\<rparr>"
  have "map snd (pushed (reader_run two_frames)) = [?ord Sell, ?ord Buy]"
    by (simp add: two_frames_def reader_run_def start_reader_def buffer_def frames_one order_of_def make_frame_def)
  moreover have "admissible (feed_limits empty_config) (?ord sd)" for sd
    by (simp add: admissible_def feed_limits_def get_int_def empty_config_def size_ok_def position_ok_def collar_ok_def)
  ultimately show ?thesis by (simp add: market_run_def market_step_def crosses_def rest_behind_def)
qed

lemma default_limits_ok: "limits_ok (feed_limits empty_config)"
  by (simp add: limits_ok_def feed_limits_def get_int_def empty_config_def)

lemma feed_capacity_ok: "capacity_ok 65536"
  by (simp add: capacity_ok_def)

section \<open>Properties\<close>

text \<open>
  (C7) The whole handler, with both threads: at every moment of every interleaving the consumer has run
  into no undefined behaviour, its book is well-formed and not crossed, and book and fills are
  those of the reference market on the orders it has received, which are the first of those that
  the delivered bytes describe.  If seeing the flag makes the reader's stores visible, then a
  consumer that has stopped shows the market of all of them.
\<close>

theorem handler_system_correct:
  assumes "capacity_ok cap" "limits_ok lim" "handler_reach lim acq cap dflt s"
  shows "\<exists>c. cst s = Some c \<and> live_book (eng c) \<and> uncrossed (eng c)
    \<and> shows_market c (market_run lim (recvd (thr (flow s))))
    \<and> prefix (recvd (thr (flow s))) (map snd (pushed (reader_run (seen s))))
    \<and> (acq \<and> loop (flow s) = L_Exit \<longrightarrow> shows_market c (market_run lim (map snd (pushed (reader_run (seen s))))))"
proof -
  have l: "spsc cap" by (rule spsc.intro [OF assms(1)])
  have inv: "handler_inv lim acq cap s" by (rule spsc.handler_reach_inv [OF l assms(3)])
  from spsc.handler_market [OF l assms(2) inv] spsc.handler_received [OF l inv] show ?thesis by fastforce
qed

theorem handler_system_correct_witness:
  "\<exists>s c. handler_reach (feed_limits empty_config) True 65536 blank s \<and> seen s = two_frames \<and> loop (flow s) = L_Exit
     \<and> cst s = Some c \<and> matched c = 1"
proof -
  obtain s where s: "handler_reach (feed_limits empty_config) True 65536 blank s" "seen s = two_frames" "loop (flow s) = L_Exit"
    using handler_can_complete [OF feed_capacity_ok] by blast
  with handler_system_correct [OF feed_capacity_ok default_limits_ok s(1)] two_frames_fill show ?thesis
    by (auto simp: shows_market_def)
qed

text \<open>
  (C25) The handler can always shut down: from every state of every interleaving the reader can push
  what it still holds and set the flag, and the consumer can take it and stop, although the ring may be
  full, a push or a pop may be under way and the loads may be stale; nothing more has to arrive for that.
\<close>

theorem handler_can_stop:
  assumes "capacity_ok cap" "handler_reach lim acq cap dflt s"
  shows "\<exists>s'. (handler_step lim acq cap)\<^sup>*\<^sup>* s s' \<and> loop (flow s') = L_Exit \<and> seen s' = seen s"
proof -
  have l: "spsc cap" by (rule spsc.intro [OF assms(1)])
  show ?thesis by (rule spsc.handler_stops [OF l spsc.handler_reach_inv [OF l assms(2)]])
qed

theorem handler_can_stop_witness:
  "\<exists>s s'. handler_reach (feed_limits empty_config) False 65536 blank s \<and> seen s = two_frames
     \<and> (handler_step (feed_limits empty_config) False 65536)\<^sup>*\<^sup>* s s' \<and> loop (flow s') = L_Exit \<and> seen s' = two_frames"
proof -
  obtain s where s: "handler_reach (feed_limits empty_config) False 65536 blank s" "seen s = two_frames"
    using handler_can_take [OF feed_capacity_ok] by blast
  with handler_can_stop [OF feed_capacity_ok s(1)] show ?thesis by auto
qed

end
