(* ===== verification/Uring_Handler.thy ===== *)
theory Uring_Handler
  imports Feed_Handler
begin

text \<open>
  The completion loop of \<^verbatim>\<open>apps/feed_handler_iouring_linux.cpp\<close>: connections on the heap, requests in
  flight that point at them, and what each completion does.  The kernel is the choice of the next
  completion: of a request that was submitted, with a result, and for a receive the bytes in the
  buffer.  A dereference of a freed \<^verbatim>\<open>Conn\<close> and of a null submission entry are the value \<open>None\<close>.
\<close>

section \<open>State and operations\<close>

definition kQueueDepth :: nat where
  "kQueueDepth = 256"

definition EINTR :: int where
  "EINTR = 4"

definition EAGAIN :: int where
  "EAGAIN = 11"

record Conn =
  c_fd :: nat
  c_partial :: "u8 list"

text \<open>The tag of a request; a receive points at its connection by address.\<close>

datatype Op = AcceptOp | RecvOp nat

text \<open>
  \<open>prepared\<close> are the entries of the submission queue that \<^verbatim>\<open>io_uring_submit\<close> has not passed to the
  kernel yet, \<open>submitted\<close> the requests in the kernel.
\<close>

record uring =
  conns :: "nat \<rightharpoonup> nat"
  heap :: "nat \<rightharpoonup> Conn"
  next_addr :: nat
  prepared :: "Op list"
  submitted :: "Op list"
  u_pushed :: "(nat \<times> Order) list"

definition submit_accept :: "uring \<Rightarrow> uring option" where
  "submit_accept u =
     (if length (prepared u) < kQueueDepth then Some (u\<lparr>prepared := prepared u @ [AcceptOp]\<rparr>) else None)"

definition submit_recv :: "nat \<Rightarrow> uring \<Rightarrow> uring option" where
  "submit_recv a u =
     (if length (prepared u) < kQueueDepth \<and> heap u a \<noteq> None then Some (u\<lparr>prepared := prepared u @ [RecvOp a]\<rparr>)
      else None)"

text \<open>
  \<open>k\<close> is how many entries a call passes on, none when it fails; the code does not look at the
  answer, and the entries that are left stay in the queue for the next call.
\<close>

definition io_uring_submit :: "nat \<Rightarrow> uring \<Rightarrow> uring" where
  "io_uring_submit k u = u\<lparr>prepared := drop k (prepared u), submitted := submitted u @ take k (prepared u)\<rparr>"

text \<open>\<^verbatim>\<open>conns.emplace\<close>: the new connection is freed again when the descriptor is already a key.\<close>

definition emplace :: "nat \<Rightarrow> nat \<Rightarrow> uring \<Rightarrow> uring" where
  "emplace fd a u =
     (if conns u fd = None
      then u\<lparr>conns := (conns u)(fd \<mapsto> a), heap := (heap u)(a \<mapsto> \<lparr>c_fd = fd, c_partial = []\<rparr>), next_addr := a + 1\<rparr>
      else u\<lparr>next_addr := a + 1\<rparr>)"

definition erase_conn :: "nat \<Rightarrow> uring \<Rightarrow> uring" where
  "erase_conn fd u =
     (case conns u fd of
        None \<Rightarrow> u
      | Some a \<Rightarrow> u\<lparr>conns := (conns u)(fd := None), heap := (heap u)(a := None)\<rparr>)"

text \<open>The bytes of a receive go through the same frame loop as in the other handler.\<close>

definition take_bytes :: "nat \<Rightarrow> Conn \<Rightarrow> u8 list \<Rightarrow> uring \<Rightarrow> uring" where
  "take_bytes a c chunk u =
     (let (os, rest) = frames (c_partial c @ chunk)
      in u\<lparr>heap := (heap u)(a \<mapsto> c\<lparr>c_partial := rest\<rparr>), u_pushed := u_pushed u @ map (Pair (c_fd c)) os\<rparr>)"

definition on_cqe :: "Op \<Rightarrow> int \<Rightarrow> u8 list \<Rightarrow> uring \<Rightarrow> uring option" where
  "on_cqe op res buf u0 =
     (let u = u0\<lparr>submitted := remove1 op (submitted u0)\<rparr> in
      case op of
        AcceptOp \<Rightarrow>
          if res \<ge> 0 then do {
            let a = next_addr u;
            u1 \<leftarrow> submit_recv a (emplace (nat res) a u);
            submit_accept u1
          }
          else submit_accept u
      | RecvOp a \<Rightarrow>
          (case heap u a of
             None \<Rightarrow> None
           | Some c \<Rightarrow>
               if res > 0 then submit_recv a (take_bytes a c (take (nat res) buf) u)
               else if res = - EAGAIN \<or> res = - EINTR then submit_recv a u
               else Some (erase_conn (c_fd c) u)))"

text \<open>
  The loop that reads a connection synchronously after shutdown: a chunk is what one \<^verbatim>\<open>recv\<close> gave; the
  empty chunk and the end of the list are a \<^verbatim>\<open>recv\<close> that gives nothing.
\<close>

fun late_loop :: "u8 list list \<Rightarrow> u8 list \<Rightarrow> Order list" where
  "late_loop [] late = []"
| "late_loop (chunk # chunks) late =
     (if chunk = [] then [] else let (os, rest) = frames (late @ chunk) in os @ late_loop chunks rest)"

text \<open>
  The drain after shutdown: completions are taken and nothing is submitted again.  A connection
  that is only accepted now is read synchronously; \<open>reads\<close> is what that gives.
\<close>

definition drain_cqe :: "Op \<Rightarrow> int \<Rightarrow> u8 list \<Rightarrow> u8 list list \<Rightarrow> uring \<Rightarrow> uring option" where
  "drain_cqe op res buf reads u0 =
     (let u = u0\<lparr>submitted := remove1 op (submitted u0)\<rparr> in
      case op of
        RecvOp a \<Rightarrow>
          if res > 0 then
            (case heap u a of None \<Rightarrow> None | Some c \<Rightarrow> Some (take_bytes a c (take (nat res) buf) u))
          else Some u
      | AcceptOp \<Rightarrow>
          if res \<ge> 0 then Some (u\<lparr>u_pushed := u_pushed u @ map (Pair (nat res)) (late_loop reads [])\<rparr>) else Some u)"

text \<open>A connection still in the accept backlog, read to its end.\<close>

definition drain_backlog :: "nat \<Rightarrow> u8 list list \<Rightarrow> uring \<Rightarrow> uring" where
  "drain_backlog fd reads u = u\<lparr>u_pushed := u_pushed u @ map (Pair fd) (late_loop reads [])\<rparr>"

text \<open>The accept is prepared before the loop.\<close>

definition start_uring :: uring where
  "start_uring = \<lparr>conns = Map.empty, heap = Map.empty, next_addr = 0, prepared = [AcceptOp], submitted = [], u_pushed = []\<rparr>"

section \<open>Runs\<close>

text \<open>What a completion means for the reader of the other handler.\<close>

definition cqe_event :: "Op \<Rightarrow> int \<Rightarrow> u8 list \<Rightarrow> uring \<Rightarrow> event list" where
  "cqe_event op res buf u =
     (case op of
        AcceptOp \<Rightarrow> if res \<ge> 0 then [Accepted (nat res)] else []
      | RecvOp a \<Rightarrow>
          (case heap u a of
             None \<Rightarrow> []
           | Some c \<Rightarrow> if res > 0 then [Bytes (c_fd c) (take (nat res) buf)]
                      else if res = - EAGAIN \<or> res = - EINTR then []
                      else [PeerClosed (c_fd c)]))"

record uring_run =
  us :: uring
  trace :: "event list"

text \<open>
  The kernel completes only requests that were submitted, and gives a new connection a descriptor
  that is not open.
\<close>

definition kernel_ok :: "Op \<Rightarrow> int \<Rightarrow> uring \<Rightarrow> bool" where
  "kernel_ok op res u \<longleftrightarrow> op \<in> set (submitted u) \<and> (op = AcceptOp \<and> res \<ge> 0 \<longrightarrow> conns u (nat res) = None)"

inductive uring_step :: "uring_run \<Rightarrow> uring_run \<Rightarrow> bool" where
  completed: "kernel_ok op res (us s) \<Longrightarrow> on_cqe op res buf (us s) = Some u \<Longrightarrow>
    uring_step s \<lparr>us = u, trace = trace s @ cqe_event op res buf (us s)\<rparr>"
| submitted: "uring_step s (s\<lparr>us := io_uring_submit k (us s)\<rparr>)"

definition start_run :: uring_run where
  "start_run = \<lparr>us = start_uring, trace = []\<rparr>"

section \<open>The invariant\<close>

definition heap_ok :: "uring \<Rightarrow> bool" where
  "heap_ok u \<longleftrightarrow> (\<forall>fd a. conns u fd = Some a \<longrightarrow> (\<exists>p. heap u a = Some \<lparr>c_fd = fd, c_partial = p\<rparr>))
     \<and> dom (heap u) = ran (conns u) \<and> (\<forall>a\<in>dom (heap u). a < next_addr u) \<and> finite (dom (conns u))"

text \<open>One receive in flight for each connection, one accept, and nothing else.\<close>

definition ops_ok :: "uring \<Rightarrow> bool" where
  "ops_ok u \<longleftrightarrow> distinct (prepared u @ submitted u)
     \<and> set (prepared u @ submitted u) = insert AcceptOp (RecvOp ` ran (conns u))"

definition uring_inv :: "uring \<Rightarrow> bool" where
  "uring_inv u \<longleftrightarrow> heap_ok u \<and> ops_ok u"

text \<open>The connections hold what the other handler's reader would hold.\<close>

definition same_reader :: "uring_run \<Rightarrow> bool" where
  "same_reader s \<longleftrightarrow> u_pushed (us s) = pushed (reader_run (trace s))
     \<and> (\<forall>fd. buffer fd (reader_run (trace s)) =
          (case conns (us s) fd of None \<Rightarrow> [] | Some a \<Rightarrow> c_partial (the (heap (us s) a))))"

lemma submit_recv_Some: "submit_recv a u = Some v \<longleftrightarrow>
    length (prepared u) < kQueueDepth \<and> heap u a \<noteq> None \<and> v = u\<lparr>prepared := prepared u @ [RecvOp a]\<rparr>"
  by (auto simp: submit_recv_def)

lemma submit_accept_Some: "submit_accept u = Some v \<longleftrightarrow>
    length (prepared u) < kQueueDepth \<and> v = u\<lparr>prepared := prepared u @ [AcceptOp]\<rparr>"
  by (auto simp: submit_accept_def)

lemma conns_inj: "heap_ok u \<Longrightarrow> conns u fd = Some a \<Longrightarrow> conns u gd = Some a \<Longrightarrow> fd = gd"
  unfolding heap_ok_def by (metis Conn.select_convs(1) option.inject)

lemma heap_ok_data:
  assumes h: "heap_ok u" and fd: "conns u fd = Some a"
    and v: "conns v = conns u" "heap v = (heap u)(a \<mapsto> \<lparr>c_fd = fd, c_partial = p\<rparr>)" "next_addr v = next_addr u"
  shows "heap_ok v"
proof -
  have a: "a \<in> dom (heap u)" using h fd by (auto simp: heap_ok_def ran_def)
  have "\<exists>q. heap v b = Some \<lparr>c_fd = gd, c_partial = q\<rparr>" if "conns v gd = Some b" for gd b
    using h that v(1,2) conns_inj [OF h fd, of gd] by (cases "b = a") (auto simp: heap_ok_def)
  then show ?thesis using h v a by (auto simp: heap_ok_def insert_absorb)
qed

lemma ran_delete:
  assumes "heap_ok u" "conns u fd = Some a"
  shows "ran ((conns u)(fd := None)) = ran (conns u) - {a}"
proof (rule set_eqI)
  fix x
  have "x \<noteq> a" if "conns u gd = Some x" "gd \<noteq> fd" for gd using that conns_inj [OF assms] by blast
  then show "x \<in> ran ((conns u)(fd := None)) \<longleftrightarrow> x \<in> ran (conns u) - {a}"
    using assms(2) by (auto simp: ran_def) (metis option.inject)
qed

lemma conn_of_op:
  assumes "uring_inv u" "RecvOp a \<in> set (submitted u)"
  obtains fd p where "conns u fd = Some a" "heap u a = Some \<lparr>c_fd = fd, c_partial = p\<rparr>"
proof -
  have "RecvOp a \<in> insert AcceptOp (RecvOp ` ran (conns u))"
    using assms by (auto simp: uring_inv_def ops_ok_def)
  then have "a \<in> ran (conns u)" by auto
  then obtain fd where "conns u fd = Some a" by (auto simp: ran_def)
  with assms(1) that show ?thesis unfolding uring_inv_def heap_ok_def by blast
qed

text \<open>What a completion does, case by case.\<close>

lemma on_cqe_cases:
  assumes inv: "uring_inv u" and k: "kernel_ok op res u" and c: "on_cqe op res buf u = Some u'"
  obtains (accepted) "op = AcceptOp" "res \<ge> 0" "conns u (nat res) = None"
      "u' = u\<lparr>conns := (conns u)(nat res \<mapsto> next_addr u),
        heap := (heap u)(next_addr u \<mapsto> \<lparr>c_fd = nat res, c_partial = []\<rparr>), next_addr := next_addr u + 1,
        prepared := prepared u @ [RecvOp (next_addr u), AcceptOp], submitted := remove1 AcceptOp (submitted u)\<rparr>"
  | (rearmed) "cqe_event op res buf u = []"
      "u' = u\<lparr>prepared := prepared u @ [op], submitted := remove1 op (submitted u)\<rparr>"
  | (data) a fd p where "op = RecvOp a" "res > 0" "conns u fd = Some a" "heap u a = Some \<lparr>c_fd = fd, c_partial = p\<rparr>"
      "u' = u\<lparr>heap := (heap u)(a \<mapsto> \<lparr>c_fd = fd, c_partial = snd (frames (p @ take (nat res) buf))\<rparr>),
        u_pushed := u_pushed u @ map (Pair fd) (fst (frames (p @ take (nat res) buf))),
        prepared := prepared u @ [op], submitted := remove1 op (submitted u)\<rparr>"
  | (closed) a fd p where "op = RecvOp a" "conns u fd = Some a" "heap u a = Some \<lparr>c_fd = fd, c_partial = p\<rparr>"
      "cqe_event op res buf u = [PeerClosed fd]"
      "u' = u\<lparr>conns := (conns u)(fd := None), heap := (heap u)(a := None), submitted := remove1 op (submitted u)\<rparr>"
proof (cases op)
  case AcceptOp
  show ?thesis
  proof (cases "res \<ge> 0")
    case True
    then show ?thesis
      using k c AcceptOp accepted
      by (auto simp: on_cqe_def Let_def submit_recv_Some submit_accept_Some emplace_def kernel_ok_def
          split: bind_splits)
  next
    case False
    then show ?thesis
      using c AcceptOp rearmed by (auto simp: on_cqe_def Let_def submit_accept_Some cqe_event_def)
  qed
next
  case (RecvOp a)
  then have "RecvOp a \<in> set (submitted u)" using k by (simp add: kernel_ok_def)
  with inv obtain fd p where h: "conns u fd = Some a" "heap u a = Some \<lparr>c_fd = fd, c_partial = p\<rparr>" by (rule conn_of_op)
  consider "res > 0" | "\<not> res > 0" "res = - EAGAIN \<or> res = - EINTR" | "\<not> res > 0" "\<not> (res = - EAGAIN \<or> res = - EINTR)" by blast
  then show ?thesis
  proof cases
    case 1
    then show ?thesis
      using c RecvOp h by (intro data [OF RecvOp 1 h])
        (auto simp: on_cqe_def Let_def take_bytes_def case_prod_beta submit_recv_Some)
  next
    case 2
    then show ?thesis
      using c RecvOp h by (intro rearmed) (auto simp: on_cqe_def Let_def submit_recv_Some cqe_event_def)
  next
    case 3
    then show ?thesis
      using c RecvOp h by (intro closed [OF RecvOp h]) (auto simp: on_cqe_def Let_def erase_conn_def cqe_event_def)
  qed
qed

lemma set_remove1_distinct:
  "distinct (ps @ os) \<Longrightarrow> x \<in> set os \<Longrightarrow> set (ps @ remove1 x os) = set (ps @ os) - {x} \<and> distinct (ps @ remove1 x os)"
  by auto

lemma on_cqe_inv:
  assumes inv: "uring_inv u" and k: "kernel_ok op res u" and c: "on_cqe op res buf u = Some u'"
  shows "uring_inv u'"
proof -
  have h: "heap_ok u" and o: "ops_ok u" using inv by (simp_all add: uring_inv_def)
  have "op \<in> set (submitted u)" using k by (simp add: kernel_ok_def)
  with o have op: "distinct (prepared u @ remove1 op (submitted u))"
    "set (prepared u @ remove1 op (submitted u)) = insert AcceptOp (RecvOp ` ran (conns u)) - {op}"
    "op \<in> insert AcceptOp (RecvOp ` ran (conns u))"
    using set_remove1_distinct [of "prepared u" "submitted u" op] by (auto simp: ops_ok_def)
  from inv k c show ?thesis
  proof (cases rule: on_cqe_cases)
    case accepted
    have fresh: "next_addr u \<notin> ran (conns u)" using h by (auto simp: heap_ok_def)
    have "heap_ok u'"
      using h accepted fresh by (auto simp: heap_ok_def ran_map_upd less_Suc_eq)
    moreover have "ops_ok u'"
      using op fresh accepted by (auto simp: ops_ok_def ran_map_upd)
    ultimately show ?thesis by (simp add: uring_inv_def)
  next
    case rearmed
    then show ?thesis using h op by (auto simp: uring_inv_def heap_ok_def ops_ok_def)
  next
    case (data a fd p)
    have "heap_ok u'" using data(5) by (intro heap_ok_data [OF h data(3)]) simp_all
    moreover have "ops_ok u'" using op data(5) by (auto simp: ops_ok_def)
    ultimately show ?thesis by (simp add: uring_inv_def)
  next
    case (closed a fd p)
    note r = ran_delete [OF h closed(2)]
    have "heap_ok u'" using h closed(5) r conns_inj [OF h closed(2)] by (auto simp: heap_ok_def)
    moreover have "ops_ok u'" using op closed(1,5) r by (auto simp: ops_ok_def)
    ultimately show ?thesis by (simp add: uring_inv_def)
  qed
qed

lemma pushed_other:
  "pushed (reader_event (Accepted f) r) = pushed r" "pushed (reader_event (PeerClosed f) r) = pushed r"
  "pushed (reader_event (Bytes f chunk) r) = pushed r @ map (Pair f) (fst (frames (buffer f r @ chunk)))"
  by (simp_all add: case_prod_beta Let_def)

text \<open>The buffers after the bytes of one connection.\<close>

lemma same_reader_data:
  assumes h: "heap_ok (us s)" and same: "same_reader s" and fd: "conns (us s) fd = Some a" "heap (us s) a = Some \<lparr>c_fd = fd, c_partial = p\<rparr>"
    and u: "conns u = conns (us s)" "heap u = (heap (us s))(a \<mapsto> \<lparr>c_fd = fd, c_partial = snd (frames (p @ chunk))\<rparr>)"
      "u_pushed u = u_pushed (us s) @ map (Pair fd) (fst (frames (p @ chunk)))"
  shows "same_reader \<lparr>us = u, trace = trace s @ [Bytes fd chunk]\<rparr>"
proof -
  have "buffer fd (reader_run (trace s)) = p" using same fd by (simp add: same_reader_def)
  moreover have "b \<noteq> a" if "conns (us s) gd = Some b" "gd \<noteq> fd" for gd b using that conns_inj [OF h fd(1)] by blast
  ultimately show ?thesis
    using same fd u
    by (auto simp: same_reader_def reader_run_snoc pushed_other orders_of_bytes simp del: reader_event.simps
        split: option.splits)
qed

lemma on_cqe_same:
  assumes inv: "uring_inv (us s)" and k: "kernel_ok op res (us s)" and c: "on_cqe op res buf (us s) = Some u"
    and same: "same_reader s"
  shows "same_reader \<lparr>us = u, trace = trace s @ cqe_event op res buf (us s)\<rparr>"
proof -
  have h: "heap_ok (us s)" using inv by (simp add: uring_inv_def)
  have none: "heap (us s) (next_addr (us s)) = None" using h by (auto simp: heap_ok_def)
  have live: "a \<noteq> next_addr (us s)" if "conns (us s) fd = Some a" for fd a
    using h that none by (auto simp: heap_ok_def)
  from inv k c show ?thesis
  proof (cases rule: on_cqe_cases)
    case accepted
    then show ?thesis
      using same live
      by (auto simp: same_reader_def cqe_event_def reader_run_snoc pushed_other orders_of_other
          simp del: reader_event.simps split: option.splits)
  next
    case rearmed
    then show ?thesis using same by (simp add: same_reader_def cong: option.case_cong)
  next
    case (data a fd p)
    then have "cqe_event op res buf (us s) = [Bytes fd (take (nat res) buf)]" by (simp add: cqe_event_def)
    then show ?thesis using same_reader_data [OF h same data(3,4), of u "take (nat res) buf"] data(5) by simp
  next
    case (closed a fd p)
    moreover have "b \<noteq> a" if "conns (us s) gd = Some b" "gd \<noteq> fd" for gd b
      using that conns_inj [OF h closed(2)] by blast
    ultimately show ?thesis
      using same
      by (auto simp: same_reader_def reader_run_snoc pushed_other orders_of_other simp del: reader_event.simps
          split: option.splits)
  qed
qed

lemma io_uring_submit_inv:
  assumes "uring_inv u"
  shows "uring_inv (io_uring_submit k u)"
proof -
  have p: "set (take k (prepared u)) \<union> set (drop k (prepared u)) = set (prepared u)"
    by (metis append_take_drop_id set_append)
  moreover have "set (take k (prepared u)) \<inter> set (drop k (prepared u)) = {}"
    using assms set_take_disj_set_drop_if_distinct [of "prepared u" k k] by (simp add: uring_inv_def ops_ok_def)
  ultimately show ?thesis
    using assms by (auto simp: uring_inv_def heap_ok_def ops_ok_def io_uring_submit_def simp flip: p)
qed

interpretation uring_sys: invariant_system "\<lambda>s. s = start_run" uring_step "\<lambda>s. uring_inv (us s) \<and> same_reader s"
proof (unfold_locales, goal_cases)
  case (1 s)
  then show ?case
    by (simp add: start_run_def start_uring_def uring_inv_def heap_ok_def ops_ok_def same_reader_def
        reader_run_def start_reader_def buffer_def)
next
  case (2 s s')
  from 2(2) show ?case
  proof cases
    case (completed op res buf u)
    then show ?thesis using 2(1) on_cqe_inv on_cqe_same by auto
  next
    case (submitted k)
    then show ?thesis using 2(1) io_uring_submit_inv by (simp add: same_reader_def io_uring_submit_def cong: option.case_cong)
  qed
qed

section \<open>Room in the submission queue\<close>

lemma prepared_bound:
  assumes "uring_inv u" "op \<in> set (submitted u)"
  shows "length (prepared u) \<le> card (dom (conns u))"
proof -
  have "finite (dom (conns u))" using assms(1) by (simp add: uring_inv_def heap_ok_def)
  moreover have "ran (conns u) = (the \<circ> conns u) ` dom (conns u)" by (force simp: ran_def)
  ultimately have "card (ran (conns u)) \<le> card (dom (conns u))" "finite (ran (conns u))"
    by (simp_all add: card_image_le)
  moreover have "length (prepared u @ submitted u) = card (insert AcceptOp (RecvOp ` ran (conns u)))"
    using assms(1) by (metis distinct_card ops_ok_def uring_inv_def)
  moreover have "card (insert AcceptOp (RecvOp ` ran (conns u))) \<le> Suc (card (ran (conns u)))"
    using calculation(2) card_image_le [of "ran (conns u)" RecvOp] by (simp add: card_insert_if)
  moreover have "0 < length (submitted u)" using assms(2) by (cases "submitted u") auto
  ultimately show ?thesis unfolding length_append by linarith
qed

lemma on_cqe_defined:
  assumes inv: "uring_inv u" and k: "kernel_ok op res u" and room: "card (dom (conns u)) < 255"
  shows "\<exists>u'. on_cqe op res buf u = Some u'"
proof -
  have op: "op \<in> set (submitted u)" using k by (simp add: kernel_ok_def)
  have l: "length (prepared u) < 255" using prepared_bound [OF inv op] room by simp
  show ?thesis
  proof (cases op)
    case AcceptOp
    then show ?thesis
      using k l by (auto simp: on_cqe_def Let_def submit_recv_def submit_accept_def emplace_def kernel_ok_def kQueueDepth_def)
  next
    case (RecvOp a)
    with inv op obtain fd p where "heap u a = Some \<lparr>c_fd = fd, c_partial = p\<rparr>" by (auto elim: conn_of_op)
    then show ?thesis
      using RecvOp l
      by (auto simp: on_cqe_def Let_def submit_recv_def take_bytes_def case_prod_beta kQueueDepth_def)
  qed
qed

section \<open>The drain\<close>

text \<open>
  Completions taken in the drain find their connection, and none is armed again: a connection gets
  one receive of at most one buffer, whatever else it has already sent.
\<close>

lemma drain_takes_once:
  assumes "uring_inv u" "op \<in> set (submitted u)"
  shows "\<exists>u'. drain_cqe op res buf reads u = Some u' \<and> op \<notin> set (prepared u' @ submitted u')
    \<and> set (prepared u' @ submitted u') \<subseteq> set (prepared u @ submitted u)"
proof -
  have "distinct (prepared u @ submitted u)" using assms(1) by (simp only: uring_inv_def ops_ok_def)
  from set_remove1_distinct [OF this assms(2)]
  have base: "op \<notin> set (prepared u)" "op \<notin> set (remove1 op (submitted u))"
    "set (prepared u) \<subseteq> set (prepared u @ submitted u)"
    "set (remove1 op (submitted u)) \<subseteq> set (prepared u @ submitted u)" by auto
  show ?thesis
  proof (cases op)
    case AcceptOp
    then show ?thesis using base by (simp add: drain_cqe_def Let_def)
  next
    case (RecvOp a)
    with assms obtain fd p where "heap u a = Some \<lparr>c_fd = fd, c_partial = p\<rparr>" by (auto elim: conn_of_op)
    then show ?thesis using RecvOp base by (simp add: drain_cqe_def take_bytes_def case_prod_beta Let_def)
  qed
qed

section \<open>A run for the examples\<close>

definition demo_uring :: uring_run where
  "demo_uring = \<lparr>us = \<lparr>conns = [7 \<mapsto> 0], heap = [0 \<mapsto> \<lparr>c_fd = 7, c_partial = []\<rparr>], next_addr = 1,
       prepared = [RecvOp 0], submitted = [AcceptOp], u_pushed = [(7, order_of (make_frame 0))]\<rparr>,
     trace = [Accepted 7, Bytes 7 (frame_bytes (make_frame 0))]\<rparr>"

lemma demo_uring_reachable: "reach (\<lambda>s. s = start_run) uring_step demo_uring"
proof -
  define u1 :: uring where "u1 = \<lparr>conns = [7 \<mapsto> 0], heap = [0 \<mapsto> \<lparr>c_fd = 7, c_partial = []\<rparr>], next_addr = 1,
       prepared = [RecvOp 0, AcceptOp], submitted = [], u_pushed = []\<rparr>"
  define bs where "bs = frame_bytes (make_frame 0)"
  have len: "take 24 bs = bs" by (simp add: bs_def frame_bytes_def)
  have one: "frames bs = ([order_of (make_frame 0)], [])" unfolding bs_def by (rule frames_one)
  have r0: "reach (\<lambda>s. s = start_run) uring_step start_run" by (rule reach.start) simp
  let ?s0 = "\<lparr>us = io_uring_submit 1 start_uring, trace = []\<rparr>" and ?s2 = "\<lparr>us = io_uring_submit 2 u1, trace = [Accepted 7]\<rparr>"
  have s0: "uring_step start_run ?s0" using uring_step.submitted [of start_run 1] by (simp add: start_run_def)
  have "on_cqe AcceptOp 7 [] (us ?s0) = Some u1"
    by (simp add: u1_def on_cqe_def start_uring_def submit_recv_def submit_accept_def emplace_def kQueueDepth_def io_uring_submit_def)
  moreover have "kernel_ok AcceptOp 7 (us ?s0)" "cqe_event AcceptOp 7 [] (us ?s0) = [Accepted 7]"
    by (simp_all add: kernel_ok_def start_uring_def cqe_event_def io_uring_submit_def)
  ultimately have s1: "uring_step ?s0 \<lparr>us = u1, trace = [Accepted 7]\<rparr>"
    using uring_step.completed [of AcceptOp 7 ?s0 "[]" u1] by simp
  have s2: "uring_step \<lparr>us = u1, trace = [Accepted 7]\<rparr> ?s2"
    using uring_step.submitted [of "\<lparr>us = u1, trace = [Accepted 7]\<rparr>" 2] by simp
  have "on_cqe (RecvOp 0) 24 bs (us ?s2) = Some (us demo_uring)"
    using len one by (simp add: u1_def on_cqe_def demo_uring_def io_uring_submit_def take_bytes_def submit_recv_def kQueueDepth_def)
  moreover have "kernel_ok (RecvOp 0) 24 (us ?s2)" "cqe_event (RecvOp 0) 24 bs (us ?s2) = [Bytes 7 bs]"
    using len by (simp_all add: u1_def kernel_ok_def cqe_event_def io_uring_submit_def)
  ultimately have s3: "uring_step ?s2 demo_uring"
    using uring_step.completed [of "RecvOp 0" 24 ?s2 bs "us demo_uring"] by (simp add: demo_uring_def flip: bs_def)
  show ?thesis by (rule reach.more [OF reach.more [OF reach.more [OF reach.more [OF r0 s0] s1] s2] s3])
qed

section \<open>Properties\<close>

text \<open>
  The two feed handlers do the same: on the accepted connections, received bytes and closed
  connections that its completions stand for, the reader of the other handler pushes the same
  orders in the same sequence, transient receive errors or not.
\<close>

theorem uring_same_orders:
  assumes "reach (\<lambda>s. s = start_run) uring_step s"
  shows "u_pushed (us s) = pushed (reader_run (trace s))"
  using uring_sys.reach_inv [OF assms] by (simp add: same_reader_def)

theorem uring_same_orders_witness:
  "pushed (reader_run (trace demo_uring)) = [(7, order_of (make_frame 0))]"
  using uring_same_orders [OF demo_uring_reachable] by (simp add: demo_uring_def)

text \<open>
  (C22) No completion touches freed memory: in every reachable state exactly one receive is in flight for
  each open connection and exactly one accept, every receive in flight points at a live
  connection, and as long as fewer than 255 connections are open, handling any completion the
  kernel can deliver finds its connection and room for every request it submits.
\<close>

theorem uring_safe:
  assumes "reach (\<lambda>s. s = start_run) uring_step s" "kernel_ok op res (us s)" "card (dom (conns (us s))) < 255"
  shows "(\<exists>u. on_cqe op res buf (us s) = Some u)
    \<and> distinct (prepared (us s) @ submitted (us s))
    \<and> set (prepared (us s) @ submitted (us s)) = insert AcceptOp (RecvOp ` ran (conns (us s)))
    \<and> dom (heap (us s)) = ran (conns (us s))"
proof -
  have "uring_inv (us s)" using uring_sys.reach_inv [OF assms(1)] by simp
  with on_cqe_defined [OF this assms(2,3)] show ?thesis by (simp add: uring_inv_def ops_ok_def heap_ok_def)
qed

theorem uring_safe_witness:
  "(\<exists>u. on_cqe AcceptOp 8 [] (us demo_uring) = Some u) \<and> dom (heap (us demo_uring)) = {0}"
proof -
  have "kernel_ok AcceptOp 8 (us demo_uring)" "card (dom (conns (us demo_uring))) < 255"
    by (simp_all add: kernel_ok_def demo_uring_def)
  from uring_safe [OF demo_uring_reachable this, of "[]"] show ?thesis by (simp add: demo_uring_def)
qed

end
