(* ===== verification/Feed_Sockets.thy ===== *)
theory Feed_Sockets
  imports Feed_Handler
begin

text \<open>
  The main thread of \<^verbatim>\<open>apps/feed_handler_linux.cpp\<close> with its system calls: the listening socket, the
  epoll loop, the accept backlog, the final drain and the closing.  The operating system is the set
  of open descriptors and the interest list of the epoll instance; what a call answers is an
  argument.  Closing a descriptor that is not open is the value \<open>None\<close>.  The orders that this thread pushes
  are collected in a list; the ring and the consumer thread are in \<open>Feed_System\<close>.
\<close>

section \<open>Descriptors\<close>

text \<open>A call that gives a descriptor, or a negative number.\<close>

definition got_fd :: "int \<Rightarrow> int set \<Rightarrow> int set" where
  "got_fd res fs = (if res < 0 then fs else insert res fs)"

definition close_fd :: "int \<Rightarrow> int set \<Rightarrow> int set option" where
  "close_fd fd fs = (if fd \<in> fs then Some (fs - {fd}) else None)"

definition set_nonblocking :: "int \<Rightarrow> int \<Rightarrow> bool" where
  "set_nonblocking getfl setfl \<longleftrightarrow> getfl \<noteq> - 1 \<and> setfl \<noteq> - 1"

text \<open>The answers of the calls in \<^verbatim>\<open>make_listen_socket\<close>, in their order.\<close>

record listen_answers =
  a_socket :: int
  a_bind :: int
  a_listen :: int
  a_getfl :: int
  a_setfl :: int

definition make_listen_socket :: "'a listen_answers_scheme \<Rightarrow> int set \<Rightarrow> (int \<times> int set) option" where
  "make_listen_socket q fs =
     (if a_socket q < 0 then Some (- 1, fs)
      else
        let fs1 = got_fd (a_socket q) fs in
        if a_bind q < 0 then do { fs2 \<leftarrow> close_fd (a_socket q) fs1; Some (- 1, fs2) }
        else if a_listen q < 0 \<or> \<not> set_nonblocking (a_getfl q) (a_setfl q) then do {
          fs2 \<leftarrow> close_fd (a_socket q) fs1;
          Some (- 1, fs2) }
        else Some (a_socket q, fs1))"

section \<open>The loop\<close>

text \<open>\<open>watched\<close> is the interest list of the epoll instance \<open>ep\<close>; with \<open>ep < 0\<close> every \<^verbatim>\<open>epoll_ctl\<close> fails.\<close>

record server =
  rdr :: reader
  fds :: "int set"
  watched :: "int set"

definition epoll_add :: "int \<Rightarrow> int \<Rightarrow> server \<Rightarrow> server" where
  "epoll_add ep fd s = (if ep < 0 then s else s\<lparr>watched := insert fd (watched s)\<rparr>)"

definition epoll_del :: "int \<Rightarrow> int \<Rightarrow> server \<Rightarrow> server" where
  "epoll_del ep fd s = (if ep < 0 then s else s\<lparr>watched := watched s - {fd}\<rparr>)"

text \<open>
  One \<^verbatim>\<open>read\<close> after the other: a chunk is what a read gave, the empty chunk is the end of the
  connection, and after the last chunk of the list \<^verbatim>\<open>read\<close> answers a negative number.  The second
  component says whether the last answer was zero.
\<close>

fun read_loop :: "nat \<Rightarrow> u8 list list \<Rightarrow> reader \<Rightarrow> reader \<times> bool" where
  "read_loop fd [] r = (r, False)"
| "read_loop fd (chunk # chunks) r =
     (if chunk = [] then (r, True) else read_loop fd chunks (reader_event (Bytes fd chunk) r))"

definition accept_conn :: "int \<Rightarrow> nat \<Rightarrow> server \<Rightarrow> server" where
  "accept_conn ep conn s =
     (epoll_add ep (int conn) (s\<lparr>fds := got_fd (int conn) (fds s)\<rparr>))
       \<lparr>rdr := reader_event (Accepted conn) (rdr s)\<rparr>"

text \<open>
  An event of \<^verbatim>\<open>epoll_wait\<close>: its descriptor, the descriptors that \<^verbatim>\<open>accept\<close> gives until it fails, and
  the reads.
\<close>

record ready =
  r_fd :: nat
  r_accepts :: "nat list"
  r_reads :: "u8 list list"

definition handle_ready :: "int \<Rightarrow> int \<Rightarrow> ready \<Rightarrow> server \<Rightarrow> server option" where
  "handle_ready lfd ep ev s =
     (if int (r_fd ev) = lfd then Some (fold (accept_conn ep) (r_accepts ev) s)
      else
        let (r, closed) = read_loop (r_fd ev) (r_reads ev) (reader_event (Accepted (r_fd ev)) (rdr s)) in
        if closed then
          let s1 = epoll_del ep (int (r_fd ev)) (s\<lparr>rdr := r\<rparr>) in do {
            fs \<leftarrow> close_fd (int (r_fd ev)) (fds s1);
            Some (s1\<lparr>fds := fs, rdr := reader_event (PeerClosed (r_fd ev)) (rdr s1)\<rparr>) }
        else Some (s\<lparr>rdr := r\<rparr>))"

text \<open>The events of all rounds of the loop, one after the other.\<close>

fun epoll_loop :: "int \<Rightarrow> int \<Rightarrow> ready list \<Rightarrow> server \<Rightarrow> server option" where
  "epoll_loop lfd ep [] s = Some s"
| "epoll_loop lfd ep (ev # evs) s = do { s' \<leftarrow> handle_ready lfd ep ev s; epoll_loop lfd ep evs s' }"

text \<open>After the loop: the backlog, and a last pass over the connections.\<close>

definition accept_backlog :: "nat \<Rightarrow> server \<Rightarrow> server" where
  "accept_backlog conn s = s\<lparr>fds := got_fd (int conn) (fds s), rdr := reader_event (Accepted conn) (rdr s)\<rparr>"

definition last_pass :: "(nat \<times> u8 list list) list \<Rightarrow> server \<Rightarrow> server" where
  "last_pass reads s = s\<lparr>rdr := fold (\<lambda>(fd, chunks) r. fst (read_loop fd chunks r)) reads (rdr s)\<rparr>"

text \<open>
  \<^verbatim>\<open>main\<close>: its result and what it leaves behind.  \<^verbatim>\<open>close\<close> of a negative number changes nothing.
\<close>

record run_answers = listen_answers +
  a_epoll :: int
  a_events :: "ready list"
  a_backlog :: "nat list"
  a_last :: "(nat \<times> u8 list list) list"

definition epoll_main :: "run_answers \<Rightarrow> (int \<times> server) option" where
  "epoll_main q = do {
     (lfd, fs) \<leftarrow> make_listen_socket q {};
     let s0 = \<lparr>rdr = start_reader, fds = fs, watched = {}\<rparr>;
     if lfd < 0 then Some (1, s0)
     else do {
       let ep = a_epoll q;
       let s1 = epoll_add ep lfd (s0\<lparr>fds := got_fd ep fs\<rparr>);
       s2 \<leftarrow> epoll_loop lfd ep (a_events q) s1;
       let s3 = last_pass (a_last q) (fold accept_backlog (a_backlog q) s2);
       fs4 \<leftarrow> close_fd lfd (fds s3);
       fs5 \<leftarrow> (if ep < 0 then Some fs4 else close_fd ep fs4);
       Some (0, s3\<lparr>fds := fs5\<rparr>)
     }
   }"

section \<open>What the kernel answers\<close>

text \<open>
  An event is of a descriptor on the interest list, and \<^verbatim>\<open>accept\<close> gives descriptors that are not open.
\<close>

definition fresh_fds :: "nat list \<Rightarrow> server \<Rightarrow> bool" where
  "fresh_fds conns s \<longleftrightarrow> distinct conns \<and> (\<forall>c\<in>set conns. int c \<notin> fds s)"

definition ready_ok :: "int \<Rightarrow> ready \<Rightarrow> server \<Rightarrow> bool" where
  "ready_ok lfd ev s \<longleftrightarrow> int (r_fd ev) \<in> watched s \<and> (int (r_fd ev) = lfd \<longrightarrow> fresh_fds (r_accepts ev) s)"

fun events_ok :: "int \<Rightarrow> int \<Rightarrow> ready list \<Rightarrow> server \<Rightarrow> bool" where
  "events_ok lfd ep [] s \<longleftrightarrow> True"
| "events_ok lfd ep (ev # evs) s \<longleftrightarrow>
     ready_ok lfd ev s \<and> (case handle_ready lfd ep ev s of None \<Rightarrow> True | Some s' \<Rightarrow> events_ok lfd ep evs s')"

definition listens :: "'a listen_answers_scheme \<Rightarrow> bool" where
  "listens q \<longleftrightarrow> 0 \<le> a_socket q \<and> 0 \<le> a_bind q \<and> 0 \<le> a_listen q \<and> a_getfl q \<noteq> - 1 \<and> a_setfl q \<noteq> - 1"

text \<open>The state in which the loop starts, and the state it leads to.\<close>

definition main_start :: "run_answers \<Rightarrow> server" where
  "main_start q = epoll_add (a_epoll q) (a_socket q)
     \<lparr>rdr = start_reader, fds = got_fd (a_epoll q) {a_socket q}, watched = {}\<rparr>"

definition answers_ok :: "run_answers \<Rightarrow> bool" where
  "answers_ok q \<longleftrightarrow> a_epoll q \<noteq> a_socket q \<and> events_ok (a_socket q) (a_epoll q) (a_events q) (main_start q)
     \<and> (case epoll_loop (a_socket q) (a_epoll q) (a_events q) (main_start q) of
          None \<Rightarrow> True
        | Some s \<Rightarrow> fresh_fds (a_backlog q) s \<and> fst ` set (a_last q) \<subseteq> dom (partial (rdr s)) \<union> set (a_backlog q))"

text \<open>What the calls mean for the reader.\<close>

definition reads_trace :: "nat \<Rightarrow> u8 list list \<Rightarrow> event list" where
  "reads_trace fd chunks = map (Bytes fd) (takeWhile (\<lambda>c. c \<noteq> []) chunks)"

definition ready_trace :: "int \<Rightarrow> ready \<Rightarrow> event list" where
  "ready_trace lfd ev =
     (if int (r_fd ev) = lfd then map Accepted (r_accepts ev)
      else Accepted (r_fd ev) # reads_trace (r_fd ev) (r_reads ev)
        @ (if [] \<in> set (r_reads ev) then [PeerClosed (r_fd ev)] else []))"

definition main_trace :: "run_answers \<Rightarrow> event list" where
  "main_trace q = concat (map (ready_trace (a_socket q)) (a_events q)) @ map Accepted (a_backlog q)
     @ concat (map (\<lambda>(fd, chunks). reads_trace fd chunks) (a_last q))"

section \<open>The loop keeps its descriptors\<close>

definition server_inv :: "int \<Rightarrow> int \<Rightarrow> server \<Rightarrow> bool" where
  "server_inv lfd ep s \<longleftrightarrow> fds s = got_fd ep (insert lfd (int ` dom (partial (rdr s))))
     \<and> watched s = (if ep < 0 then {} else insert lfd (int ` dom (partial (rdr s))))
     \<and> lfd \<notin> int ` dom (partial (rdr s)) \<and> ep \<notin> int ` dom (partial (rdr s))"

lemma read_loop_trace:
  "read_loop fd chunks r = (fold reader_event (reads_trace fd chunks) r, [] \<in> set chunks)"
  by (induction fd chunks r rule: read_loop.induct) (simp_all add: reads_trace_def)

lemma dom_reader_event:
  "dom (partial (reader_event (Accepted fd) r)) = insert fd (dom (partial r))"
  "dom (partial (reader_event (Bytes fd chunk) r)) = insert fd (dom (partial r))"
  "dom (partial (reader_event (PeerClosed fd) r)) = dom (partial r) - {fd}"
  by (simp_all add: case_prod_beta Let_def)

lemma dom_reads_trace:
  "fd \<in> dom (partial r) \<Longrightarrow> dom (partial (fold reader_event (reads_trace fd chunks) r)) = dom (partial r)"
proof (induction chunks arbitrary: r)
  case (Cons c cs)
  then show ?case by (auto simp: reads_trace_def dom_reader_event insert_absorb simp del: reader_event.simps)
qed (simp add: reads_trace_def)

lemma accept_conn_inv:
  assumes "server_inv lfd ep s" "int conn \<notin> fds s"
  shows "server_inv lfd ep (accept_conn ep conn s)" "fds (accept_conn ep conn s) = insert (int conn) (fds s)"
    "rdr (accept_conn ep conn s) = reader_event (Accepted conn) (rdr s)"
  using assms
  by (auto simp: server_inv_def accept_conn_def epoll_add_def got_fd_def dom_reader_event simp del: reader_event.simps)

lemma accept_conns_inv:
  assumes "server_inv lfd ep s" "fresh_fds conns s"
  shows "server_inv lfd ep (fold (accept_conn ep) conns s)"
    "rdr (fold (accept_conn ep) conns s) = fold reader_event (map Accepted conns) (rdr s)"
proof -
  have "server_inv lfd ep (fold (accept_conn ep) conns s)
      \<and> rdr (fold (accept_conn ep) conns s) = fold reader_event (map Accepted conns) (rdr s)"
    using assms
  proof (induction conns arbitrary: s)
    case (Cons c cs)
    have "int c \<notin> fds s" using Cons.prems(2) by (simp add: fresh_fds_def)
    note a = accept_conn_inv [OF Cons.prems(1) this]
    have "fresh_fds cs (accept_conn ep c s)" using Cons.prems(2) a(2) by (auto simp: fresh_fds_def)
    from Cons.IH [OF a(1) this] a(3) show ?case by (simp del: reader_event.simps)
  qed simp
  then show "server_inv lfd ep (fold (accept_conn ep) conns s)"
    "rdr (fold (accept_conn ep) conns s) = fold reader_event (map Accepted conns) (rdr s)" by simp_all
qed

lemma handle_ready_inv:
  assumes inv: "server_inv lfd ep s" and ok: "ready_ok lfd ev s"
  obtains s' where "handle_ready lfd ep ev s = Some s'" "server_inv lfd ep s'"
    "rdr s' = fold reader_event (ready_trace lfd ev) (rdr s)"
proof (cases "int (r_fd ev) = lfd")
  case True
  then show ?thesis
    using that accept_conns_inv [OF inv, of "r_accepts ev"] ok by (simp add: handle_ready_def ready_trace_def ready_ok_def)
next
  case False
  let ?fd = "r_fd ev" and ?r = "fold reader_event (reads_trace (r_fd ev) (r_reads ev)) (reader_event (Accepted (r_fd ev)) (rdr s))"
  have fd: "?fd \<in> dom (partial (rdr s))" "0 \<le> ep"
    using ok inv False by (auto simp: ready_ok_def server_inv_def split: if_splits)
  then have d: "dom (partial ?r) = dom (partial (rdr s))"
    by (subst dom_reads_trace) (auto simp: dom_reader_event simp del: reader_event.simps)
  have rl: "read_loop ?fd (r_reads ev) (reader_event (Accepted ?fd) (rdr s)) = (?r, [] \<in> set (r_reads ev))"
    by (rule read_loop_trace)
  show ?thesis
  proof (cases "[] \<in> set (r_reads ev)")
    case True
    have "int ?fd \<in> fds s" "int ?fd \<noteq> ep" using fd inv by (auto simp: server_inv_def got_fd_def)
    moreover have "int ` (dom (partial (rdr s)) - {?fd}) = int ` dom (partial (rdr s)) - {int ?fd}" by auto
    ultimately show ?thesis
      using that True False fd(2) d inv rl
      by (simp add: handle_ready_def ready_trace_def server_inv_def epoll_del_def close_fd_def dom_reader_event got_fd_def
          insert_Diff_if del: reader_event.simps)
  next
    case no: False
    then show ?thesis
      using that False d inv rl
      by (auto simp: handle_ready_def ready_trace_def server_inv_def simp del: reader_event.simps)
  qed
qed

lemma epoll_loop_inv:
  assumes "server_inv lfd ep s" "events_ok lfd ep evs s"
  shows "\<exists>s'. epoll_loop lfd ep evs s = Some s' \<and> server_inv lfd ep s'
    \<and> rdr s' = fold reader_event (concat (map (ready_trace lfd) evs)) (rdr s)"
  using assms
proof (induction evs arbitrary: s)
  case (Cons ev evs)
  have "ready_ok lfd ev s" using Cons.prems(2) by simp
  with Cons.prems(1) obtain s1 where s1: "handle_ready lfd ep ev s = Some s1" "server_inv lfd ep s1"
    "rdr s1 = fold reader_event (ready_trace lfd ev) (rdr s)" by (rule handle_ready_inv)
  with Cons.IH [OF s1(2)] Cons.prems(2) show ?case by simp
qed simp

section \<open>The whole program\<close>

lemma make_listen_socket_spec:
  assumes "a_socket q \<notin> fs"
  shows "make_listen_socket q fs =
    Some (if listens q then (a_socket q, insert (a_socket q) fs) else (- 1, fs))"
  using assms
  by (auto simp: make_listen_socket_def Let_def listens_def set_nonblocking_def got_fd_def close_fd_def)

lemma main_start_inv:
  assumes "a_epoll q \<noteq> a_socket q"
  shows "server_inv (a_socket q) (a_epoll q) (main_start q)" "rdr (main_start q) = start_reader"
  using assms by (auto simp: server_inv_def main_start_def epoll_add_def got_fd_def start_reader_def)

lemma backlog_spec:
  assumes "fds s = A \<union> int ` dom (partial (rdr s))"
  shows "fds (fold accept_backlog cs s) = A \<union> int ` dom (partial (rdr (fold accept_backlog cs s)))"
    "rdr (fold accept_backlog cs s) = fold reader_event (map Accepted cs) (rdr s)"
    "dom (partial (rdr (fold accept_backlog cs s))) = dom (partial (rdr s)) \<union> set cs"
proof -
  let ?P = "\<lambda>s s'. fds s' = A \<union> int ` dom (partial (rdr s')) \<and> rdr s' = fold reader_event (map Accepted cs) (rdr s)
    \<and> dom (partial (rdr s')) = dom (partial (rdr s)) \<union> set cs"
  have "?P s (fold accept_backlog cs s)"
    using assms
  proof (induction cs arbitrary: s)
    case (Cons c cs)
    have r: "rdr (accept_backlog c s) = reader_event (Accepted c) (rdr s)" by (simp add: accept_backlog_def)
    have "fds (accept_backlog c s) = A \<union> int ` dom (partial (rdr (accept_backlog c s)))"
      using Cons.prems by (simp add: accept_backlog_def got_fd_def dom_reader_event del: reader_event.simps)
    note ih = Cons.IH [OF this, THEN conjunct1] Cons.IH [OF this, THEN conjunct2, THEN conjunct1]
      Cons.IH [OF this, THEN conjunct2, THEN conjunct2]
    from ih show ?case by (simp add: r dom_reader_event del: reader_event.simps)
  qed simp
  then show "fds (fold accept_backlog cs s) = A \<union> int ` dom (partial (rdr (fold accept_backlog cs s)))"
    "rdr (fold accept_backlog cs s) = fold reader_event (map Accepted cs) (rdr s)"
    "dom (partial (rdr (fold accept_backlog cs s))) = dom (partial (rdr s)) \<union> set cs" by blast+
qed

lemma last_pass_spec:
  assumes "fst ` set reads \<subseteq> dom (partial (rdr s))"
  shows "rdr (last_pass reads s) = fold reader_event (concat (map (\<lambda>(fd, chunks). reads_trace fd chunks) reads)) (rdr s)"
    "dom (partial (rdr (last_pass reads s))) = dom (partial (rdr s))"
proof -
  have "fold (\<lambda>(fd, chunks) r. fst (read_loop fd chunks r)) reads r
      = fold reader_event (concat (map (\<lambda>(fd, chunks). reads_trace fd chunks) reads)) r
    \<and> dom (partial (fold (\<lambda>(fd, chunks) r. fst (read_loop fd chunks r)) reads r)) = dom (partial r)"
    if "fst ` set reads \<subseteq> dom (partial r)" for r
    using that
  proof (induction reads arbitrary: r)
    case (Cons x reads)
    have d: "dom (partial (fold reader_event (reads_trace (fst x) (snd x)) r)) = dom (partial r)"
      using Cons.prems by (intro dom_reads_trace) auto
    then have "fst ` set reads \<subseteq> dom (partial (fold reader_event (reads_trace (fst x) (snd x)) r))" using Cons.prems by simp
    from Cons.IH [OF this, THEN conjunct1] Cons.IH [OF this, THEN conjunct2] d
    show ?case by (simp add: read_loop_trace case_prod_beta)
  qed simp
  from this [OF assms, THEN conjunct1] this [OF assms, THEN conjunct2] show
    "rdr (last_pass reads s) = fold reader_event (concat (map (\<lambda>(fd, chunks). reads_trace fd chunks) reads)) (rdr s)"
    "dom (partial (rdr (last_pass reads s))) = dom (partial (rdr s))" by (simp_all add: last_pass_def)
qed

text \<open>
  On every answer of the system: either the handler cannot listen, and then it leaves no descriptor
  open and has read nothing; or it returns 0, what its reader did is what the sequence of its
  calls says, and the only descriptors open are those of the connections it still has.
\<close>

lemma epoll_main_spec:
  assumes "answers_ok q"
  shows "\<exists>s. epoll_main q = Some (if listens q then 0 else 1, s)
    \<and> (if listens q then rdr s = reader_run (main_trace q) \<and> fds s = int ` dom (partial (rdr s))
       else fds s = {} \<and> rdr s = start_reader)"
proof (cases "listens q")
  case False
  then show ?thesis by (simp add: epoll_main_def make_listen_socket_spec)
next
  case True
  let ?lfd = "a_socket q" and ?ep = "a_epoll q"
  have ne: "?ep \<noteq> ?lfd" and lfd: "0 \<le> ?lfd" using assms True by (simp_all add: answers_ok_def listens_def)
  have "events_ok ?lfd ?ep (a_events q) (main_start q)" using assms by (simp add: answers_ok_def)
  with epoll_loop_inv [OF main_start_inv(1) [OF ne]]
  obtain s2 where s2: "epoll_loop ?lfd ?ep (a_events q) (main_start q) = Some s2" "server_inv ?lfd ?ep s2"
    "rdr s2 = fold reader_event (concat (map (ready_trace ?lfd) (a_events q))) start_reader"
    by (metis main_start_inv(2) [OF ne])
  let ?A = "got_fd ?ep {?lfd}" and ?s3 = "fold accept_backlog (a_backlog q) s2"
  have "fds s2 = ?A \<union> int ` dom (partial (rdr s2))" using s2(2) by (auto simp: server_inv_def got_fd_def)
  note b = backlog_spec [OF this, of "a_backlog q"]
  have fresh: "fresh_fds (a_backlog q) s2" and last: "fst ` set (a_last q) \<subseteq> dom (partial (rdr ?s3))"
    using assms s2(1) b(3) by (simp_all add: answers_ok_def)
  note l = last_pass_spec [OF last]
  let ?s4 = "last_pass (a_last q) ?s3"
  have D: "?lfd \<notin> int ` dom (partial (rdr ?s4))" "?ep \<notin> int ` dom (partial (rdr ?s4))"
    using s2(2) fresh lfd unfolding l(2) b(3) by (auto simp: server_inv_def fresh_fds_def got_fd_def split: if_splits)
  have f: "fds ?s4 = ?A \<union> int ` dom (partial (rdr ?s4))" using b(1) l(2) by (simp add: last_pass_def)
  have r: "rdr ?s4 = reader_run (main_trace q)"
    unfolding l(1) b(2) s2(3) by (simp add: reader_run_def main_trace_def)
  have st: "epoll_add ?ep ?lfd \<lparr>rdr = start_reader, fds = got_fd ?ep {?lfd}, watched = {}\<rparr> = main_start q"
    by (simp add: main_start_def)
  show ?thesis
  proof (cases "?ep < 0")
    case neg: True
    then have "close_fd ?lfd (fds ?s4) = Some (int ` dom (partial (rdr ?s4)))"
      using f D by (simp add: close_fd_def got_fd_def)
    then show ?thesis
      using True lfd neg s2(1) r by (simp add: epoll_main_def make_listen_socket_spec st)
  next
    case False
    then have "close_fd ?lfd (fds ?s4) = Some (insert ?ep (int ` dom (partial (rdr ?s4))))"
      "close_fd ?ep (insert ?ep (int ` dom (partial (rdr ?s4)))) = Some (int ` dom (partial (rdr ?s4)))"
      using f D ne by (simp_all add: close_fd_def got_fd_def insert_Diff_if)
    then show ?thesis
      using True lfd False s2(1) r by (simp add: epoll_main_def make_listen_socket_spec st)
  qed
qed

section \<open>An example\<close>

text \<open>
  A run: one connection is accepted and sends a frame, another waits in the backlog and is read in
  the last pass.
\<close>

definition demo_answers :: run_answers where
  "demo_answers = \<lparr>a_socket = 3, a_bind = 0, a_listen = 0, a_getfl = 2, a_setfl = 0, a_epoll = 4,
     a_events = [\<lparr>r_fd = 3, r_accepts = [5], r_reads = []\<rparr>,
       \<lparr>r_fd = 5, r_accepts = [], r_reads = [frame_bytes (make_frame 0), []]\<rparr>],
     a_backlog = [5], a_last = [(5, [frame_bytes (make_frame 1)])]\<rparr>"

lemma frame_bytes_nonempty [simp]: "frame_bytes f \<noteq> []"
  by (simp add: frame_bytes_def)

lemma demo_answers_ok: "answers_ok demo_answers"
  by (simp add: answers_ok_def demo_answers_def main_start_def epoll_add_def got_fd_def ready_ok_def fresh_fds_def
      handle_ready_def accept_conn_def start_reader_def buffer_def frames_one epoll_del_def close_fd_def)

lemma demo_listens: "listens demo_answers"
  by (simp add: listens_def demo_answers_def)

lemma demo_main_trace: "main_trace demo_answers = [Accepted 5, Accepted 5, Bytes 5 (frame_bytes (make_frame 0)), PeerClosed 5,
    Accepted 5, Bytes 5 (frame_bytes (make_frame 1))]"
  by (simp add: main_trace_def demo_answers_def ready_trace_def reads_trace_def)

lemma demo_reader: "reader_run (main_trace demo_answers) = \<lparr>partial = [5 \<mapsto> []], pushed = [(5, order_of (make_frame 0)), (5, order_of (make_frame 1))]\<rparr>"
  by (simp add: demo_main_trace reader_run_def start_reader_def buffer_def frames_one)

end
