(* ===== verification/Uring_Main.thy ===== *)
theory Uring_Main
  imports Uring_Handler Feed_Sockets
begin

text \<open>
  The main thread of \<^verbatim>\<open>apps/feed_handler_iouring_linux.cpp\<close> around its completions: the listening socket,
  the wait for completions and the batches, the drain with its count of misses, the accept backlog
  and the closing.  The answers of the system are arguments; closing a descriptor that is not open,
  a null submission entry and a freed connection are the value \<open>None\<close>.  The orders that this thread pushes
  are collected in a list; the ring and the consumer thread are in \<open>Feed_System\<close>.
\<close>

section \<open>The copies of the other handler's code\<close>

text \<open>The file has its own copies of these functions.\<close>

definition set_nonblocking_u :: "int \<Rightarrow> int \<Rightarrow> bool" where
  "set_nonblocking_u getfl setfl \<longleftrightarrow> getfl \<noteq> - 1 \<and> setfl \<noteq> - 1"

definition make_listen_socket_u :: "'a listen_answers_scheme \<Rightarrow> int set \<Rightarrow> (int \<times> int set) option" where
  "make_listen_socket_u q fs =
     (let fd = a_socket q in
      if fd < 0 then Some (- 1, fs)
      else if a_bind q < 0 \<or> a_listen q < 0 \<or> \<not> set_nonblocking_u (a_getfl q) (a_setfl q)
      then do { fs' \<leftarrow> close_fd fd (got_fd fd fs); Some (- 1, fs') }
      else Some (fd, got_fd fd fs))"

definition decode_u :: "u8 list \<Rightarrow> Order" where
  "decode_u buf =
     (let symbol = of_nat (le_value (slice 0 4 buf));
          side = buf ! 4;
          type = buf ! 5;
          price = sint (of_nat (le_value (slice 8 8 buf)) :: u64);
          qty = sint (of_nat (le_value (slice 16 8 buf)) :: u64)
      in \<lparr>o_id = 0, o_symbol = symbol, o_side = (if side = 0 then Buy else Sell),
          o_type = (if type = 0 then Limit else Market), o_price = price, o_qty = qty\<rparr>)"

definition feed_limits_u :: "Config \<Rightarrow> RiskLimits" where
  "feed_limits_u cfg =
     (let q = get_int cfg ''max_order_qty'' 1000; p = get_int cfg ''max_position'' 0;
          r = get_int cfg ''reference_price'' 0; b = get_int cfg ''price_band'' 0
      in \<lparr>max_order_qty = q, max_position = p, reference_price = r, price_band = b\<rparr>)"

definition consume_u :: "RiskLimits \<Rightarrow> Order \<Rightarrow> consumer_state \<Rightarrow> consumer_state option" where
  "consume_u lim ord c = do {
     d \<leftarrow> check lim ord 0;
     if d \<noteq> Accept then Some (c\<lparr>rejected := rejected c + 1\<rparr>)
     else do { (filled, fills, b) \<leftarrow> submit (eng c) ord []; Some (c\<lparr>eng := b, matched := matched c + of_nat (length fills)\<rparr>) }
   }"

lemma listen_copy: "make_listen_socket_u q fs = make_listen_socket q fs"
  by (auto simp: make_listen_socket_u_def make_listen_socket_def set_nonblocking_u_def set_nonblocking_def Let_def)

lemma decode_copy: "decode_u = decode"
  by (simp add: fun_eq_iff decode_u_def decode_def Let_def)

lemma limits_copy: "feed_limits_u = feed_limits"
  by (simp add: fun_eq_iff feed_limits_u_def feed_limits_def Let_def)

lemma consume_copy: "consume_u = consume"
  by (simp add: fun_eq_iff consume_u_def consume_def)

section \<open>Completions\<close>

definition ETIME :: int where
  "ETIME = 62"

text \<open>
  A completion with the bytes of its buffer; \<open>q_reads\<close> is what the reads of a connection give that is
  accepted only in the drain.
\<close>

record completion =
  q_op :: Op
  q_res :: int
  q_buf :: "u8 list"
  q_reads :: "u8 list list"

text \<open>\<open>ufds\<close> are the open descriptors of sockets; \<open>run\<close> holds the connections with what they have received.\<close>

record userver =
  run :: uring_run
  ufds :: "int set"

definition cqe_fds :: "Op \<Rightarrow> int \<Rightarrow> uring \<Rightarrow> int set \<Rightarrow> int set option" where
  "cqe_fds op res u fs =
     (case op of
        AcceptOp \<Rightarrow> Some (got_fd res fs)
      | RecvOp a \<Rightarrow>
          (case heap u a of
             None \<Rightarrow> None
           | Some c \<Rightarrow> if res > 0 \<or> res = - EAGAIN \<or> res = - EINTR then Some fs else close_fd (int (c_fd c)) fs))"

definition handle_cqe :: "completion \<Rightarrow> userver \<Rightarrow> userver option" where
  "handle_cqe q s = do {
     fs \<leftarrow> cqe_fds (q_op q) (q_res q) (us (run s)) (ufds s);
     u \<leftarrow> on_cqe (q_op q) (q_res q) (q_buf q) (us (run s));
     Some \<lparr>run = \<lparr>us = u, trace = trace (run s) @ cqe_event (q_op q) (q_res q) (q_buf q) (us (run s))\<rparr>, ufds = fs\<rparr>
   }"

text \<open>One after the other: the completions of a batch, the connections of the backlog.\<close>

fun run_list :: "('q \<Rightarrow> 's \<Rightarrow> 's option) \<Rightarrow> 'q list \<Rightarrow> 's \<Rightarrow> 's option" where
  "run_list f [] s = Some s"
| "run_list f (q # qs) s = do { s' \<leftarrow> f q s; run_list f qs s' }"

text \<open>
  The answer of \<^verbatim>\<open>io_uring_wait_cqe_timeout\<close>, the completion that woke the thread with those that
  \<^verbatim>\<open>io_uring_peek_cqe\<close> finds after it, and how many entries the \<^verbatim>\<open>io_uring_submit\<close> after the batch passes on.
\<close>

record wait =
  w_rc :: int
  w_cqes :: "completion list"
  w_submit :: nat

definition submit_batch :: "nat \<Rightarrow> userver \<Rightarrow> userver" where
  "submit_batch k s = s\<lparr>run := (run s)\<lparr>us := io_uring_submit k (us (run s))\<rparr>\<rparr>"

text \<open>The loop until \<^verbatim>\<open>g_running\<close> is false, after the last wait of the list.\<close>

fun uring_loop :: "wait list \<Rightarrow> userver \<Rightarrow> userver option" where
  "uring_loop [] s = Some s"
| "uring_loop (w # ws) s =
     (if w_rc w = - ETIME \<or> w_rc w = - EINTR then uring_loop ws s
      else if w_rc w < 0 then Some s
      else do { s' \<leftarrow> run_list handle_cqe (w_cqes w) s; uring_loop ws (submit_batch (w_submit w) s') })"

section \<open>The drain\<close>

text \<open>What a connection accepted after shutdown means for the reader.\<close>

definition late_trace :: "nat \<Rightarrow> u8 list list \<Rightarrow> event list" where
  "late_trace fd reads = Accepted fd # reads_trace fd reads @ [PeerClosed fd]"

definition drain_event :: "completion \<Rightarrow> uring \<Rightarrow> event list" where
  "drain_event q u =
     (case q_op q of
        AcceptOp \<Rightarrow> if q_res q \<ge> 0 then late_trace (nat (q_res q)) (q_reads q) else []
      | RecvOp a \<Rightarrow>
          if q_res q > 0 then
            (case heap u a of None \<Rightarrow> [] | Some c \<Rightarrow> [Bytes (c_fd c) (take (nat (q_res q)) (q_buf q))])
          else [])"

definition drain_one :: "completion \<Rightarrow> userver \<Rightarrow> userver option" where
  "drain_one q s = do {
     u \<leftarrow> drain_cqe (q_op q) (q_res q) (q_buf q) (q_reads q) (us (run s));
     fs \<leftarrow> (if q_op q = AcceptOp \<and> q_res q \<ge> 0 then close_fd (q_res q) (got_fd (q_res q) (ufds s)) else Some (ufds s));
     Some \<lparr>run = \<lparr>us = u, trace = trace (run s) @ drain_event q (us (run s))\<rparr>, ufds = fs\<rparr>
   }"

text \<open>The timed waits until two in a row give nothing; after the last wait of the list none gives anything.\<close>

fun drain_loop :: "nat \<Rightarrow> wait list \<Rightarrow> userver \<Rightarrow> userver option" where
  "drain_loop misses [] s = Some s"
| "drain_loop misses (w # ws) s =
     (if misses < 2 then
        if w_rc w = - ETIME then drain_loop (misses + 1) ws s
        else if w_rc w < 0 then Some s
        else do { s' \<leftarrow> run_list drain_one (w_cqes w) s; drain_loop 0 ws s' }
      else Some s)"

definition late_conn :: "nat \<times> u8 list list \<Rightarrow> userver \<Rightarrow> userver option" where
  "late_conn = (\<lambda>(fd, reads) s. do {
     fs \<leftarrow> close_fd (int fd) (got_fd (int fd) (ufds s));
     Some \<lparr>run = \<lparr>us = drain_backlog fd reads (us (run s)), trace = trace (run s) @ late_trace fd reads\<rparr>, ufds = fs\<rparr>
   })"

section \<open>The whole program\<close>

text \<open>\<open>a_order\<close> is the order in which the map of connections is traversed at the end.\<close>

record uring_answers = listen_answers +
  a_init :: int
  a_first :: nat
  a_waits :: "wait list"
  a_drain :: "wait list"
  a_late :: "(nat \<times> u8 list list) list"
  a_order :: "nat list"

definition idle_uring :: uring where
  "idle_uring = \<lparr>conns = Map.empty, heap = Map.empty, next_addr = 0, prepared = [], submitted = [], u_pushed = []\<rparr>"

text \<open>The end: every connection that is left, then the listening socket.\<close>

definition close_down :: "int \<Rightarrow> nat list \<Rightarrow> userver \<Rightarrow> userver option" where
  "close_down lfd order s = do {
     fs \<leftarrow> run_list (\<lambda>fd. close_fd (int fd)) order (ufds s);
     fs' \<leftarrow> close_fd lfd fs;
     Some (s\<lparr>ufds := fs'\<rparr>)
   }"

definition uring_main :: "uring_answers \<Rightarrow> (int \<times> userver) option" where
  "uring_main q = do {
     (lfd, fs) \<leftarrow> make_listen_socket_u q {};
     let s0 = \<lparr>run = \<lparr>us = idle_uring, trace = []\<rparr>, ufds = fs\<rparr>;
     (if lfd < 0 then Some (1, s0)
      else if a_init q < 0 then do { fs' \<leftarrow> close_fd lfd fs; Some (1, s0\<lparr>ufds := fs'\<rparr>) }
      else do {
        u \<leftarrow> submit_accept idle_uring;
        s1 \<leftarrow> uring_loop (a_waits q) (s0\<lparr>run := \<lparr>us = io_uring_submit (a_first q) u, trace = []\<rparr>\<rparr>);
        s2 \<leftarrow> drain_loop 0 (a_drain q) s1;
        s3 \<leftarrow> run_list late_conn (a_late q) s2;
        s4 \<leftarrow> close_down lfd (a_order q) s3;
        Some (0, s4)
      })
   }"

section \<open>What the kernel answers\<close>

text \<open>
  Only requests that were submitted complete, \<^verbatim>\<open>accept\<close> gives descriptors that are not open, and fewer
  than 255 connections are open at a time in the loop.
\<close>

definition cqe_ok :: "completion \<Rightarrow> userver \<Rightarrow> bool" where
  "cqe_ok q s \<longleftrightarrow> q_op q \<in> set (submitted (us (run s))) \<and> (q_op q = AcceptOp \<longrightarrow> q_res q \<notin> ufds s)"

definition loop_cqe_ok :: "completion \<Rightarrow> userver \<Rightarrow> bool" where
  "loop_cqe_ok q s \<longleftrightarrow> cqe_ok q s \<and> card (dom (conns (us (run s)))) < 255"

definition late_ok :: "nat \<times> u8 list list \<Rightarrow> userver \<Rightarrow> bool" where
  "late_ok x s \<longleftrightarrow> int (fst x) \<notin> ufds s"

fun list_ok :: "('q \<Rightarrow> 's \<Rightarrow> bool) \<Rightarrow> ('q \<Rightarrow> 's \<Rightarrow> 's option) \<Rightarrow> 'q list \<Rightarrow> 's \<Rightarrow> bool" where
  "list_ok ok f [] s \<longleftrightarrow> True"
| "list_ok ok f (q # qs) s \<longleftrightarrow> ok q s \<and> (case f q s of None \<Rightarrow> True | Some s' \<Rightarrow> list_ok ok f qs s')"

fun waits_ok :: "wait list \<Rightarrow> userver \<Rightarrow> bool" where
  "waits_ok [] s \<longleftrightarrow> True"
| "waits_ok (w # ws) s \<longleftrightarrow>
     (if w_rc w = - ETIME \<or> w_rc w = - EINTR then waits_ok ws s
      else w_rc w < 0 \<or> list_ok loop_cqe_ok handle_cqe (w_cqes w) s \<and>
        (case run_list handle_cqe (w_cqes w) s of None \<Rightarrow> True | Some s' \<Rightarrow> waits_ok ws (submit_batch (w_submit w) s')))"

fun drain_waits_ok :: "nat \<Rightarrow> wait list \<Rightarrow> userver \<Rightarrow> bool" where
  "drain_waits_ok misses [] s \<longleftrightarrow> True"
| "drain_waits_ok misses (w # ws) s \<longleftrightarrow>
     (if misses < 2 then
        if w_rc w = - ETIME then drain_waits_ok (misses + 1) ws s
        else w_rc w < 0 \<or> list_ok cqe_ok drain_one (w_cqes w) s \<and>
          (case run_list drain_one (w_cqes w) s of None \<Rightarrow> True | Some s' \<Rightarrow> drain_waits_ok 0 ws s')
      else True)"

lemma run_list_inv:
  assumes step: "\<And>q s. ok q s \<Longrightarrow> I s \<Longrightarrow> \<exists>s'. f q s = Some s' \<and> I s'"
  shows "list_ok ok f qs s \<Longrightarrow> I s \<Longrightarrow> \<exists>s'. run_list f qs s = Some s' \<and> I s'"
proof (induction qs arbitrary: s)
  case (Cons q qs)
  then obtain s' where "f q s = Some s'" "I s'" using step [of q s] by auto
  with Cons show ?case by auto
qed simp

section \<open>Invariants\<close>

definition fds_ok :: "int \<Rightarrow> userver \<Rightarrow> bool" where
  "fds_ok lfd s \<longleftrightarrow> ufds s = insert lfd (int ` dom (conns (us (run s)))) \<and> lfd \<notin> int ` dom (conns (us (run s)))"

definition loop_inv :: "int \<Rightarrow> userver \<Rightarrow> bool" where
  "loop_inv lfd s \<longleftrightarrow> uring_inv (us (run s)) \<and> same_reader (run s) \<and> fds_ok lfd s"

text \<open>In the drain, requests are no longer armed again.\<close>

definition live_ops :: "uring \<Rightarrow> bool" where
  "live_ops u \<longleftrightarrow> (\<forall>a. RecvOp a \<in> set (submitted u) \<longrightarrow> a \<in> ran (conns u))"

definition drain_inv :: "int \<Rightarrow> userver \<Rightarrow> bool" where
  "drain_inv lfd s \<longleftrightarrow> heap_ok (us (run s)) \<and> live_ops (us (run s)) \<and> same_reader (run s) \<and> fds_ok lfd s"

lemma loop_drain_inv: "loop_inv lfd s \<Longrightarrow> drain_inv lfd s"
  unfolding loop_inv_def drain_inv_def uring_inv_def ops_ok_def live_ops_def by auto

lemma handle_cqe_inv:
  assumes ok: "loop_cqe_ok q s" and inv: "loop_inv lfd s"
  shows "\<exists>s'. handle_cqe q s = Some s' \<and> loop_inv lfd s'"
proof -
  let ?u = "us (run s)"
  have u: "uring_inv ?u" and same: "same_reader (run s)" and fds: "fds_ok lfd s" using inv by (simp_all add: loop_inv_def)
  have k: "kernel_ok (q_op q) (q_res q) ?u"
    using ok fds by (force simp: loop_cqe_ok_def cqe_ok_def kernel_ok_def fds_ok_def dom_def)
  obtain u' where u': "on_cqe (q_op q) (q_res q) (q_buf q) ?u = Some u'"
    using on_cqe_defined [OF u k] ok by (auto simp: loop_cqe_ok_def)
  have "\<exists>fs. cqe_fds (q_op q) (q_res q) ?u (ufds s) = Some fs \<and> fds_ok lfd \<lparr>run = \<lparr>us = u', trace = t\<rparr>, ufds = fs\<rparr>" for t
    using u k u'
  proof (cases rule: on_cqe_cases)
    case accepted
    have "q_res q \<notin> ufds s" using ok accepted(1) by (simp add: loop_cqe_ok_def cqe_ok_def)
    then show ?thesis using accepted fds by (auto simp: cqe_fds_def fds_ok_def got_fd_def)
  next
    case rearmed
    then show ?thesis using fds k u
      by (cases "q_op q") (auto simp: cqe_fds_def fds_ok_def got_fd_def cqe_event_def kernel_ok_def elim!: conn_of_op split: if_splits)
  next
    case (data a fd p)
    then show ?thesis using fds by (auto simp: cqe_fds_def fds_ok_def)
  next
    case (closed a fd p)
    have "int fd \<in> ufds s" "int fd \<noteq> lfd" using fds closed(2) by (auto simp: fds_ok_def)
    moreover have "int ` (dom (conns ?u) - {fd}) = int ` dom (conns ?u) - {int fd}" by auto
    ultimately show ?thesis using closed fds by (auto simp: cqe_fds_def fds_ok_def close_fd_def cqe_event_def split: if_splits)
  qed
  then obtain fs where "cqe_fds (q_op q) (q_res q) ?u (ufds s) = Some fs"
    "fds_ok lfd \<lparr>run = \<lparr>us = u', trace = trace (run s) @ cqe_event (q_op q) (q_res q) (q_buf q) ?u\<rparr>, ufds = fs\<rparr>" by blast
  then show ?thesis
    using u' on_cqe_inv [OF u k u'] on_cqe_same [OF u k u' same] by (simp add: handle_cqe_def loop_inv_def)
qed

lemma uring_loop_inv:
  "waits_ok ws s \<Longrightarrow> loop_inv lfd s \<Longrightarrow> \<exists>s'. uring_loop ws s = Some s' \<and> loop_inv lfd s'"
proof (induction ws arbitrary: s)
  case (Cons w ws)
  show ?case
  proof (cases "w_rc w < 0")
    case False
    then have "w_rc w \<noteq> - ETIME" "w_rc w \<noteq> - EINTR" by (auto simp: ETIME_def EINTR_def)
    moreover from this have "list_ok loop_cqe_ok handle_cqe (w_cqes w) s" using Cons.prems(1) False by simp
    from run_list_inv [of loop_cqe_ok "loop_inv lfd", OF handle_cqe_inv this Cons.prems(2)]
    obtain s' where s': "run_list handle_cqe (w_cqes w) s = Some s'" "loop_inv lfd s'" by blast
    moreover have "loop_inv lfd (submit_batch (w_submit w) s')"
      using s'(2) io_uring_submit_inv [of "us (run s')" "w_submit w"]
      by (simp add: loop_inv_def submit_batch_def fds_ok_def same_reader_def io_uring_submit_def cong: option.case_cong)
    ultimately show ?thesis using Cons False by simp
  qed (use Cons in auto)
qed simp

text \<open>The synchronous reads of a late connection are reads of the other handler.\<close>

lemma late_reads:
  "pushed (fold reader_event (reads_trace fd reads) r) = pushed r @ map (Pair fd) (late_loop reads (buffer fd r))"
  "gd \<noteq> fd \<Longrightarrow> buffer gd (fold reader_event (reads_trace fd reads) r) = buffer gd r"
proof (induction reads arbitrary: r)
  case (Cons c cs)
  { case 1 show ?case using Cons.IH(1) [of "reader_event (Bytes fd c) r"]
      by (auto simp: reads_trace_def orders_of_bytes case_prod_beta Let_def pushed_other simp del: reader_event.simps) }
  { case 2 then show ?case using Cons.IH(2) [of "reader_event (Bytes fd c) r"]
      by (auto simp: reads_trace_def orders_of_bytes simp del: reader_event.simps) }
qed (simp_all add: reads_trace_def)

lemma same_reader_late:
  assumes same: "same_reader s" and fd: "conns (us s) fd = None"
    and u: "conns u = conns (us s)" "heap u = heap (us s)" "u_pushed u = u_pushed (us s) @ map (Pair fd) (late_loop reads [])"
  shows "same_reader \<lparr>us = u, trace = trace s @ late_trace fd reads\<rparr>"
proof -
  let ?r = "reader_event (Accepted fd) (reader_run (trace s))" and ?t = "late_trace fd reads"
  have run: "reader_run (trace s @ ?t) = reader_event (PeerClosed fd) (fold reader_event (reads_trace fd reads) ?r)"
    by (simp add: reader_run_def late_trace_def)
  have "buffer fd ?r = []" using same fd by (simp add: same_reader_def buffer_def)
  then have "pushed (reader_run (trace s @ ?t)) = u_pushed u"
    using same u(3) late_reads(1) [of fd reads ?r] unfolding run by (simp add: same_reader_def pushed_other del: reader_event.simps)
  moreover have "buffer gd (reader_run (trace s @ ?t)) = (if gd = fd then [] else buffer gd (reader_run (trace s)))" for gd
    using late_reads(2) [of gd fd reads ?r] unfolding run by (auto simp: orders_of_other simp del: reader_event.simps)
  ultimately show ?thesis using same fd u by (auto simp: same_reader_def split: option.splits)
qed

lemma open_close: "fd \<notin> fs \<Longrightarrow> 0 \<le> fd \<Longrightarrow> close_fd fd (got_fd fd fs) = Some fs"
  by (simp add: close_fd_def got_fd_def)

lemma late_conn_inv:
  assumes ok: "late_ok x s" and inv: "drain_inv lfd s"
  shows "\<exists>s'. late_conn x s = Some s' \<and> drain_inv lfd s'"
proof -
  obtain fd reads where x: "x = (fd, reads)" by (cases x)
  have c: "conns (us (run s)) fd = None" "int fd \<notin> ufds s" using ok inv by (auto simp: x late_ok_def drain_inv_def fds_ok_def)
  have "same_reader \<lparr>us = drain_backlog fd reads (us (run s)), trace = trace (run s) @ late_trace fd reads\<rparr>"
    using inv c(1) by (intro same_reader_late) (simp_all add: drain_inv_def drain_backlog_def)
  then show ?thesis
    using inv c open_close [of "int fd" "ufds s"]
    by (simp add: x late_conn_def drain_inv_def fds_ok_def heap_ok_def live_ops_def drain_backlog_def)
qed

lemma drain_one_inv:
  assumes ok: "cqe_ok q s" and inv: "drain_inv lfd s"
  shows "\<exists>s'. drain_one q s = Some s' \<and> drain_inv lfd s'"
proof -
  let ?u = "us (run s)" and ?res = "q_res q"
  have h: "heap_ok ?u" and live: "live_ops ?u" and same: "same_reader (run s)" and fds: "fds_ok lfd s"
    using inv by (simp_all add: drain_inv_def)
  have sub: "set (remove1 op (submitted ?u)) \<subseteq> set (submitted ?u)" for op by (rule set_remove1_subset)
  consider (late) "q_op q = AcceptOp" "?res \<ge> 0" | (data) a where "q_op q = RecvOp a" "?res > 0"
    | (none) "drain_event q ?u = []" "drain_cqe (q_op q) ?res (q_buf q) (q_reads q) ?u = Some (?u\<lparr>submitted := remove1 (q_op q) (submitted ?u)\<rparr>)"
      "\<not> (q_op q = AcceptOp \<and> ?res \<ge> 0)"
    by (cases "q_op q"; cases "?res > 0"; cases "?res \<ge> 0") (auto simp: drain_event_def drain_cqe_def Let_def)
  then show ?thesis
  proof cases
    case late
    have c: "conns ?u (nat ?res) = None" "?res \<notin> ufds s" using ok fds late by (force simp: cqe_ok_def fds_ok_def dom_def)+
    let ?v = "?u\<lparr>submitted := remove1 AcceptOp (submitted ?u), u_pushed := u_pushed ?u @ map (Pair (nat ?res)) (late_loop (q_reads q) [])\<rparr>"
    have "same_reader \<lparr>us = ?v, trace = trace (run s) @ late_trace (nat ?res) (q_reads q)\<rparr>"
      by (intro same_reader_late [OF same c(1)]) simp_all
    moreover have "live_ops ?v" using live sub by (auto simp: live_ops_def dest: notin_set_remove1)
    ultimately show ?thesis
      using late h fds open_close [OF c(2)]
      by (simp add: drain_one_def drain_cqe_def drain_event_def drain_inv_def heap_ok_def fds_ok_def)
  next
    case (data a)
    have "a \<in> ran (conns ?u)" using ok live data by (simp add: cqe_ok_def live_ops_def)
    then obtain fd p where fd: "conns ?u fd = Some a" "heap ?u a = Some \<lparr>c_fd = fd, c_partial = p\<rparr>"
      using h unfolding heap_ok_def ran_def by blast
    let ?c = "take (nat ?res) (q_buf q)"
    let ?v = "?u\<lparr>submitted := remove1 (RecvOp a) (submitted ?u), heap := (heap ?u)(a \<mapsto> \<lparr>c_fd = fd, c_partial = snd (frames (p @ ?c))\<rparr>),
      u_pushed := u_pushed ?u @ map (Pair fd) (fst (frames (p @ ?c)))\<rparr>"
    have "same_reader \<lparr>us = ?v, trace = trace (run s) @ [Bytes fd ?c]\<rparr>"
      by (rule same_reader_data [OF h same fd]) simp_all
    moreover have "heap_ok ?v" by (rule heap_ok_data [OF h fd(1)]) simp_all
    moreover have "live_ops ?v" using live sub by (auto simp: live_ops_def dest: notin_set_remove1)
    ultimately show ?thesis
      using data fd fds by (simp add: drain_one_def drain_cqe_def drain_event_def drain_inv_def take_bytes_def case_prod_beta fds_ok_def Let_def)
  next
    case none
    let ?v = "?u\<lparr>submitted := remove1 (q_op q) (submitted ?u)\<rparr>"
    have "live_ops ?v" using live sub by (auto simp: live_ops_def dest: notin_set_remove1)
    moreover have "heap_ok ?v" using h by (simp add: heap_ok_def)
    moreover have "same_reader \<lparr>us = ?v, trace = trace (run s)\<rparr>" using same by (simp add: same_reader_def cong: option.case_cong)
    moreover have "fds_ok lfd \<lparr>run = \<lparr>us = ?v, trace = trace (run s)\<rparr>, ufds = ufds s\<rparr>" using fds by (simp add: fds_ok_def)
    moreover have "drain_one q s = Some \<lparr>run = \<lparr>us = ?v, trace = trace (run s)\<rparr>, ufds = ufds s\<rparr>"
      using none(3) by (auto simp: drain_one_def none(1,2))
    ultimately show ?thesis by (simp add: drain_inv_def)
  qed
qed

lemma drain_loop_inv:
  "drain_waits_ok misses ws s \<Longrightarrow> drain_inv lfd s \<Longrightarrow> \<exists>s'. drain_loop misses ws s = Some s' \<and> drain_inv lfd s'"
proof (induction ws arbitrary: misses s)
  case (Cons w ws)
  show ?case
  proof (cases "misses < 2 \<and> \<not> w_rc w < 0")
    case True
    then have e: "w_rc w \<noteq> - ETIME" by (auto simp: ETIME_def)
    then have "list_ok cqe_ok drain_one (w_cqes w) s" using Cons.prems(1) True by simp
    from run_list_inv [of cqe_ok "drain_inv lfd", OF drain_one_inv this Cons.prems(2)]
    obtain s' where "run_list drain_one (w_cqes w) s = Some s'" "drain_inv lfd s'" by blast
    then show ?thesis using Cons e True by simp
  qed (use Cons in auto)
qed simp

text \<open>At the end every connection is closed once.\<close>

lemma close_all_conns:
  "distinct fs \<Longrightarrow> int ` set fs \<subseteq> A \<Longrightarrow> run_list (\<lambda>fd. close_fd (int fd)) fs A = Some (A - int ` set fs)"
proof (induction fs arbitrary: A)
  case (Cons f fs)
  have "int ` set fs \<subseteq> A - {int f}" using Cons.prems by auto
  from Cons.IH [OF _ this] Cons.prems show ?case by (auto simp: close_fd_def)
qed simp

definition main_begin :: "uring_answers \<Rightarrow> userver" where
  "main_begin q = submit_batch (a_first q) \<lparr>run = start_run, ufds = {a_socket q}\<rparr>"

definition uring_answers_ok :: "uring_answers \<Rightarrow> bool" where
  "uring_answers_ok q \<longleftrightarrow> waits_ok (a_waits q) (main_begin q) \<and>
     (case uring_loop (a_waits q) (main_begin q) of None \<Rightarrow> True | Some s1 \<Rightarrow>
        drain_waits_ok 0 (a_drain q) s1 \<and>
        (case drain_loop 0 (a_drain q) s1 of None \<Rightarrow> True | Some s2 \<Rightarrow>
           list_ok late_ok late_conn (a_late q) s2 \<and>
           distinct (a_order q) \<and> set (a_order q) = dom (conns (us (run s2)))))"

lemma late_conns_same: "run_list late_conn xs s = Some s' \<Longrightarrow> conns (us (run s')) = conns (us (run s))"
proof (induction xs arbitrary: s)
  case (Cons x xs)
  then obtain s1 where "late_conn x s = Some s1" "run_list late_conn xs s1 = Some s'" by (auto split: bind_splits)
  with Cons.IH [of s1] show ?case by (auto simp: late_conn_def drain_backlog_def split: prod.splits bind_splits)
qed simp

lemma main_begin_inv: "loop_inv (a_socket q) (main_begin q)"
  using uring_sys.init_inv [of start_run] io_uring_submit_inv [of start_uring "a_first q"]
  by (auto simp: loop_inv_def main_begin_def submit_batch_def io_uring_submit_def fds_ok_def start_run_def start_uring_def same_reader_def)

lemma first_accept: "submit_accept idle_uring = Some start_uring"
  by (simp add: submit_accept_def idle_uring_def start_uring_def kQueueDepth_def)

lemma uring_main_spec:
  assumes ok: "uring_answers_ok q"
  shows "\<exists>s. uring_main q = Some (if listens q \<and> 0 \<le> a_init q then 0 else 1, s) \<and> ufds s = {} \<and> same_reader (run s)"
proof (cases "listens q \<and> 0 \<le> a_init q")
  case False
  have same: "same_reader \<lparr>us = idle_uring, trace = []\<rparr>"
    by (simp add: same_reader_def idle_uring_def reader_run_def start_reader_def buffer_def)
  show ?thesis
  proof (cases "listens q")
    case True
    then have "0 \<le> a_socket q" by (simp add: listens_def)
    then show ?thesis using False True same by (simp add: uring_main_def listen_copy make_listen_socket_spec close_fd_def)
  qed (use same in \<open>simp add: uring_main_def listen_copy make_listen_socket_spec\<close>)
next
  case True
  let ?lfd = "a_socket q"
  have lfd: "0 \<le> ?lfd" using True by (simp add: listens_def)
  obtain s1 where s1: "uring_loop (a_waits q) (main_begin q) = Some s1" "loop_inv ?lfd s1"
    using uring_loop_inv [OF _ main_begin_inv] ok by (auto simp: uring_answers_ok_def)
  obtain s2 where s2: "drain_loop 0 (a_drain q) s1 = Some s2" "drain_inv ?lfd s2"
    using drain_loop_inv [OF _ loop_drain_inv [OF s1(2)]] ok s1(1) by (auto simp: uring_answers_ok_def)
  have l: "list_ok late_ok late_conn (a_late q) s2" and o: "distinct (a_order q)" "set (a_order q) = dom (conns (us (run s2)))"
    using ok s1(1) s2(1) by (simp_all add: uring_answers_ok_def)
  from run_list_inv [of late_ok "drain_inv ?lfd", OF late_conn_inv l s2(2)]
  obtain s3 where s3: "run_list late_conn (a_late q) s2 = Some s3" "drain_inv ?lfd s3" by blast
  have f: "ufds s3 = insert ?lfd (int ` set (a_order q))" "?lfd \<notin> int ` set (a_order q)" and same: "same_reader (run s3)"
    using s3(2) late_conns_same [OF s3(1)] o(2) by (simp_all add: drain_inv_def fds_ok_def)
  have "run_list (\<lambda>fd. close_fd (int fd)) (a_order q) (ufds s3) = Some {?lfd}"
    using close_all_conns [OF o(1), of "ufds s3"] f by (auto simp: insert_Diff_if)
  then have "close_down ?lfd (a_order q) s3 = Some (s3\<lparr>ufds := {}\<rparr>)" by (simp add: close_down_def close_fd_def)
  moreover have "\<lparr>run = \<lparr>us = io_uring_submit (a_first q) start_uring, trace = []\<rparr>, ufds = {?lfd}\<rparr> = main_begin q"
    by (simp add: main_begin_def submit_batch_def start_run_def)
  ultimately have "uring_main q = Some (0, s3\<lparr>ufds := {}\<rparr>)"
    using True lfd s1(1) s2(1) s3(1) by (simp add: uring_main_def listen_copy make_listen_socket_spec close_fd_def first_accept)
  then show ?thesis using True same by simp
qed

section \<open>An example\<close>

text \<open>A signal during the drain ends it: what has completed and was not taken yet is left there.\<close>

lemma drain_interrupted: "w_rc w = - EINTR \<Longrightarrow> drain_loop 0 (w # ws) s = Some s"
  by (simp add: EINTR_def ETIME_def)

text \<open>
  A run: a connection is accepted and sends a frame in the loop and another in the drain, after a
  wait that timed out; a second connection is found in the backlog.
\<close>

definition demo_uring_answers :: uring_answers where
  "demo_uring_answers = \<lparr>a_socket = 3, a_bind = 0, a_listen = 0, a_getfl = 2, a_setfl = 0, a_init = 0, a_first = 1,
     a_waits = [\<lparr>w_rc = 0, w_cqes = [\<lparr>q_op = AcceptOp, q_res = 5, q_buf = [], q_reads = []\<rparr>], w_submit = 2\<rparr>,
       \<lparr>w_rc = 0, w_cqes = [\<lparr>q_op = RecvOp 0, q_res = 24, q_buf = frame_bytes (make_frame 0), q_reads = []\<rparr>], w_submit = 1\<rparr>],
     a_drain = [\<lparr>w_rc = - ETIME, w_cqes = [], w_submit = 0\<rparr>,
       \<lparr>w_rc = 0, w_cqes = [\<lparr>q_op = RecvOp 0, q_res = 24, q_buf = frame_bytes (make_frame 1), q_reads = []\<rparr>], w_submit = 0\<rparr>],
     a_late = [(6, [frame_bytes (make_frame 2)])], a_order = [5]\<rparr>"

lemma take_frame [simp]: "take 24 (frame_bytes f) = frame_bytes f"
  by (simp add: frame_bytes_def)

lemmas demo_run_defs = demo_uring_answers_def main_begin_def start_run_def start_uring_def handle_cqe_def cqe_fds_def on_cqe_def
  submit_recv_def submit_accept_def emplace_def take_bytes_def frames_one cqe_event_def got_fd_def kQueueDepth_def
  submit_batch_def io_uring_submit_def drain_one_def drain_cqe_def drain_event_def ETIME_def EINTR_def

lemma demo_uring_answers_ok: "uring_answers_ok demo_uring_answers"
  by (simp add: uring_answers_ok_def loop_cqe_ok_def cqe_ok_def late_ok_def demo_run_defs split: option.split)

lemma demo_uring_pushed:
  "\<exists>s. uring_main demo_uring_answers = Some (0, s)
     \<and> u_pushed (us (run s)) = [(5, order_of (make_frame 0)), (5, order_of (make_frame 1)), (6, order_of (make_frame 2))]"
  by (simp add: uring_main_def listen_copy make_listen_socket_def set_nonblocking_def close_fd_def idle_uring_def late_conn_def
      close_down_def drain_backlog_def demo_run_defs)

end
