(* ===== verification/Feed_Client.thy ===== *)
theory Feed_Client
  imports Feed_Sockets "HOL-Library.Sublist"
begin

text \<open>
  The load client \<^verbatim>\<open>bench/bench_feed_client.cpp\<close>: connecting, the send loop, the workers and the
  exit status.  The answers of the system calls are arguments; what \<^verbatim>\<open>send\<close> accepted of each
  connection is its \<open>wire\<close>.  The workers share nothing but the counter of failures, so they are run
  one after the other.  Times and printing are left out.
\<close>

section \<open>Connecting and sending\<close>

record connect_answers =
  c_socket :: int
  c_pton :: int
  c_connect :: int

definition connect_to :: "connect_answers \<Rightarrow> int set \<Rightarrow> (int \<times> int set) option" where
  "connect_to q fs =
     (if c_socket q < 0 then Some (- 1, fs)
      else
        let fs1 = got_fd (c_socket q) fs in
        if c_pton q \<noteq> 1 then do { fs2 \<leftarrow> close_fd (c_socket q) fs1; Some (- 1, fs2) }
        else if c_connect q < 0 then do { fs2 \<leftarrow> close_fd (c_socket q) fs1; Some (- 1, fs2) }
        else Some (c_socket q, fs1))"

text \<open>\<^verbatim>\<open>send\<close> of \<open>len\<close> bytes accepts at most as many: \<open>offer\<close> is what the kernel would take, or an error.\<close>

definition os_send :: "int \<Rightarrow> nat \<Rightarrow> int" where
  "os_send offer len = min offer (int len)"

text \<open>
  The loop of \<^verbatim>\<open>send_all\<close> with its answers; \<open>None\<close> is a \<^verbatim>\<open>send\<close> that has not returned.  The result is
  the return value, the wire, and the answers not used.
\<close>

fun send_loop :: "u8 list \<Rightarrow> nat \<Rightarrow> int list \<Rightarrow> u8 list \<Rightarrow> (bool \<times> u8 list \<times> int list) option" where
  "send_loop buf sent [] wire = (if sent < length buf then None else Some (True, wire, []))"
| "send_loop buf sent (k # ks) wire =
     (if sent < length buf then
        let n = os_send k (length buf - sent) in
        if n \<le> 0 then Some (False, wire, ks)
        else send_loop buf (sent + nat n) ks (wire @ slice sent (nat n) buf)
      else Some (True, wire, k # ks))"

definition send_all :: "u8 list \<Rightarrow> int list \<Rightarrow> u8 list \<Rightarrow> (bool \<times> u8 list \<times> int list) option" where
  "send_all buf ks wire = send_loop buf 0 ks wire"

text \<open>A worker: the frames \<open>js\<close> on one connection, until a send fails.\<close>

fun worker :: "u64 list \<Rightarrow> int list \<Rightarrow> u8 list \<Rightarrow> (bool \<times> u8 list) option" where
  "worker [] ks wire = Some (True, wire)"
| "worker (j # js) ks wire = do {
     (ok, w, ks') \<leftarrow> send_all (frame_bytes (make_frame j)) ks wire;
     if \<not> ok then Some (False, w) else worker js ks' w
   }"

section \<open>The program\<close>

text \<open>The connections in their order; the first that fails ends the program.\<close>

fun connect_all :: "connect_answers list \<Rightarrow> int list \<Rightarrow> int set \<Rightarrow> (int list option \<times> int set) option" where
  "connect_all [] socks fs = Some (Some socks, fs)"
| "connect_all (q # qs) socks fs = do {
     (fd, fs1) \<leftarrow> connect_to q fs;
     if fd < 0 then Some (None, fs1) else connect_all qs (socks @ [fd]) fs1
   }"

fun run_workers :: "u64 list \<Rightarrow> int list list \<Rightarrow> (bool \<times> u8 list) list option" where
  "run_workers js [] = Some []"
| "run_workers js (ks # kss) = do { r \<leftarrow> worker js ks []; rs \<leftarrow> run_workers js kss; Some (r # rs) }"

fun close_all :: "int list \<Rightarrow> int set \<Rightarrow> int set option" where
  "close_all [] fs = Some fs"
| "close_all (fd # socks) fs = do { fs' \<leftarrow> close_fd fd fs; close_all socks fs' }"

definition frame_numbers :: "u64 \<Rightarrow> u64 list" where
  "frame_numbers n = map of_nat [0..<unat n]"

text \<open>
  The answers \<open>qs\<close> and \<open>kss\<close> are one element per connection.  The result is the exit status, the
  wires and the descriptors that are still open.
\<close>

definition client_main :: "int \<Rightarrow> u64 \<Rightarrow> connect_answers list \<Rightarrow> int list list \<Rightarrow> (int \<times> u8 list list \<times> int set) option" where
  "client_main connections frames_per_conn qs kss =
     (if connections \<le> 0 \<or> frames_per_conn = 0 then Some (1, [], {})
      else do {
        (res, fs) \<leftarrow> connect_all (take (nat connections) qs) [] {};
        (case res of
           None \<Rightarrow> Some (1, [], fs)
         | Some socks \<Rightarrow> do {
             rs \<leftarrow> run_workers (frame_numbers frames_per_conn) (take (nat connections) kss);
             let failures = (of_nat (length (filter (\<lambda>r. \<not> fst r) rs)) :: u64);
             fs' \<leftarrow> close_all socks fs;
             Some (if failures > 0 then 1 else 0, map snd rs, fs')
           })
      })"

section \<open>Sending\<close>

lemma send_loop_spec:
  assumes "length buf - sent \<le> length ks" "sent \<le> length buf"
  shows "\<exists>ok m rest. send_loop buf sent ks wire = Some (ok, wire @ slice sent m buf, rest) \<and> sent + m \<le> length buf
    \<and> (ok \<longleftrightarrow> sent + m = length buf) \<and> (\<exists>used. ks = used @ rest \<and> length used \<le> length buf - sent
    \<and> (ok \<longleftrightarrow> (\<forall>k\<in>set used. 0 < k)))"
  using assms
proof (induction ks arbitrary: sent wire)
  case Nil
  then show ?case by (intro exI [of _ True] exI [of _ 0] exI [of _ "[]"]) (simp add: slice_def)
next
  case (Cons k ks)
  let ?n = "os_send k (length buf - sent)"
  consider "sent = length buf" | "sent < length buf" "?n \<le> 0" | "sent < length buf" "0 < ?n"
    using Cons.prems(2) by linarith
  then show ?case
  proof cases
    case 1
    then show ?thesis by (intro exI [of _ True] exI [of _ 0] exI [of _ "k # ks"]) (simp add: slice_def)
  next
    case 2
    then have "k \<le> 0" by (simp add: os_send_def min_def split: if_splits)
    with 2 show ?thesis
      by (intro exI [of _ False] exI [of _ 0] exI [of _ ks]) (auto simp: slice_def intro!: exI [of _ "[k]"])
  next
    case 3
    then have n: "0 < nat ?n" "sent + nat ?n \<le> length buf" "0 < k" by (simp_all add: os_send_def)
    then have "length buf - (sent + nat ?n) \<le> length ks" using Cons.prems by simp
    from Cons.IH [OF this n(2), of "wire @ slice sent (nat ?n) buf"] obtain ok m rest used where ih:
      "send_loop buf (sent + nat ?n) ks (wire @ slice sent (nat ?n) buf) =
         Some (ok, (wire @ slice sent (nat ?n) buf) @ slice (sent + nat ?n) m buf, rest)"
      "sent + nat ?n + m \<le> length buf" "ok \<longleftrightarrow> sent + nat ?n + m = length buf" "ks = used @ rest"
      "length used \<le> length buf - (sent + nat ?n)" "ok \<longleftrightarrow> (\<forall>k\<in>set used. 0 < k)" by blast
    with 3 n ih slice_add [of sent "nat ?n" buf m] show ?thesis
      by (intro exI [of _ ok] exI [of _ "nat ?n + m"] exI [of _ rest]) (auto intro!: exI [of _ "k # used"])
  qed
qed

text \<open>With an answer for every byte at the most, the loop of a frame ends; it succeeds when all are sent.\<close>

lemma send_all_spec:
  assumes "length buf \<le> length ks"
  obtains ok m used rest where "send_all buf ks wire = Some (ok, wire @ take m buf, rest)" "m \<le> length buf"
    "ok \<longleftrightarrow> m = length buf" "ks = used @ rest" "length used \<le> length buf" "ok \<longleftrightarrow> (\<forall>k\<in>set used. 0 < k)"
proof -
  have "length buf - 0 \<le> length ks" "0 \<le> length buf" using assms by simp_all
  from send_loop_spec [OF this, of wire] obtain ok m rest used where "send_loop buf 0 ks wire = Some (ok, wire @ slice 0 m buf, rest)" "0 + m \<le> length buf"
    "ok \<longleftrightarrow> 0 + m = length buf" "ks = used @ rest" "length used \<le> length buf - 0" "ok \<longleftrightarrow> (\<forall>k\<in>set used. 0 < k)"
    by blast
  with that show ?thesis by (simp add: send_all_def slice_def)
qed

definition stream_bytes :: "u64 list \<Rightarrow> u8 list" where
  "stream_bytes js = concat (map (\<lambda>j. frame_bytes (make_frame j)) js)"

definition stream_orders :: "u64 list \<Rightarrow> Order list" where
  "stream_orders js = map (\<lambda>j. order_of (make_frame j)) js"

lemma length_frame_bytes [simp]: "length (frame_bytes f) = 24"
  by (simp add: frame_bytes_def)

lemma worker_spec:
  assumes "24 * length js \<le> length ks"
  shows "\<exists>ok w. worker js ks wire = Some (ok, wire @ w) \<and> prefix w (stream_bytes js) \<and> (ok \<longleftrightarrow> w = stream_bytes js)"
  using assms
proof (induction js arbitrary: ks wire)
  case Nil
  show ?case by (rule exI [of _ True], rule exI [of _ "[]"]) (simp add: stream_bytes_def)
next
  case (Cons j js)
  let ?b = "frame_bytes (make_frame j)"
  have "length ?b \<le> length ks" using Cons.prems by simp
  then obtain ok m used rest where s: "send_all ?b ks wire = Some (ok, wire @ take m ?b, rest)" "m \<le> length ?b"
    "ok \<longleftrightarrow> m = length ?b" "ks = used @ rest" "length used \<le> length ?b" by (rule send_all_spec)
  show ?case
  proof (cases ok)
    case True
    have "24 * length js \<le> length rest" using Cons.prems s(4,5) by simp
    from Cons.IH [OF this, of "wire @ ?b"] True s(1,3) show ?thesis by (auto simp: stream_bytes_def)
  next
    case False
    then have m: "m < 24" using s(2,3) by simp
    have "prefix (take m ?b) (stream_bytes (j # js))" by (simp add: stream_bytes_def take_is_prefix)
    moreover have "length (take m ?b) < length (stream_bytes (j # js))" using m by (simp add: stream_bytes_def)
    then have "take m ?b \<noteq> stream_bytes (j # js)" by (metis less_irrefl)
    ultimately show ?thesis using False s(1) by auto
  qed
qed

lemma run_workers_spec:
  assumes "\<forall>ks\<in>set kss. 24 * length js \<le> length ks"
  shows "\<exists>rs. run_workers js kss = Some rs \<and> length rs = length kss
    \<and> (\<forall>(ok, w)\<in>set rs. prefix w (stream_bytes js) \<and> (ok \<longleftrightarrow> w = stream_bytes js))"
  using assms
proof (induction kss)
  case (Cons ks kss)
  then obtain rs where rs: "run_workers js kss = Some rs" "length rs = length kss"
    "\<forall>(ok, w)\<in>set rs. prefix w (stream_bytes js) \<and> (ok \<longleftrightarrow> w = stream_bytes js)" by auto
  obtain ok w where "worker js ks [] = Some (ok, w)" "prefix w (stream_bytes js)" "ok \<longleftrightarrow> w = stream_bytes js"
    using worker_spec [of js ks "[]"] Cons.prems by auto
  with rs show ?case by simp
qed simp

section \<open>The connections\<close>

definition connected :: "connect_answers \<Rightarrow> bool" where
  "connected q \<longleftrightarrow> 0 \<le> c_socket q \<and> c_pton q = 1 \<and> 0 \<le> c_connect q"

lemma connect_to_spec:
  "c_socket q \<notin> fs \<Longrightarrow>
   connect_to q fs = Some (if connected q then (c_socket q, insert (c_socket q) fs) else (- 1, fs))"
  by (auto simp: connect_to_def Let_def connected_def got_fd_def close_fd_def)

lemma connect_all_spec:
  assumes "distinct (map c_socket qs)" "c_socket ` set qs \<inter> fs = {}"
  shows "\<exists>fs'. connect_all qs socks fs =
    Some (if \<forall>q\<in>set qs. connected q then (Some (socks @ map c_socket qs), fs \<union> c_socket ` set qs) else (None, fs'))"
  using assms
proof (induction qs arbitrary: socks fs)
  case (Cons q qs)
  have c: "connect_to q fs = Some (if connected q then (c_socket q, insert (c_socket q) fs) else (- 1, fs))"
    using Cons.prems by (intro connect_to_spec) simp
  show ?case
  proof (cases "connected q")
    case True
    then have "0 \<le> c_socket q" by (simp add: connected_def)
    moreover have "c_socket ` set qs \<inter> insert (c_socket q) fs = {}" using Cons.prems by auto
    ultimately obtain fs' where "connect_all qs (socks @ [c_socket q]) (insert (c_socket q) fs) =
        Some (if \<forall>q\<in>set qs. connected q then (Some ((socks @ [c_socket q]) @ map c_socket qs), insert (c_socket q) fs \<union> c_socket ` set qs)
          else (None, fs'))"
      using Cons.IH [of "insert (c_socket q) fs" "socks @ [c_socket q]"] Cons.prems by auto
    then show ?thesis using True \<open>0 \<le> c_socket q\<close> c by auto
  next
    case False
    then show ?thesis using c by simp
  qed
qed simp

lemma close_all_spec: "distinct socks \<Longrightarrow> set socks \<subseteq> fs \<Longrightarrow> close_all socks fs = Some (fs - set socks)"
proof (induction socks arbitrary: fs)
  case (Cons fd socks)
  then have "set socks \<subseteq> fs - {fd}" by auto
  with Cons show ?case by (simp add: close_fd_def Diff_insert [symmetric] Diff_insert2 [symmetric])
qed simp

section \<open>Properties\<close>

text \<open>
  (C29) The send loop ends: it calls \<^verbatim>\<open>send\<close> at most once for each byte.  Whatever the kernel accepts of
  each call, what reaches the wire is a beginning of the buffer, in order and without repetition;
  the loop reports success exactly when the whole buffer is on the wire, which is exactly when no
  call failed.
\<close>

theorem send_all_terminates:
  assumes "length buf \<le> length ks"
  shows "\<exists>ok m used rest. send_all buf ks wire = Some (ok, wire @ take m buf, rest) \<and> m \<le> length buf
    \<and> ks = used @ rest \<and> length used \<le> length buf \<and> (ok \<longleftrightarrow> m = length buf) \<and> (ok \<longleftrightarrow> (\<forall>k\<in>set used. 0 < k))"
  using assms by (rule send_all_spec) blast

theorem send_all_terminates_witness:
  "\<exists>ok m rest. send_all [7, 8, 9] [2, 5, 1] [] = Some (ok, take m [7, 8, 9], rest) \<and> ok \<and> rest = [1]"
proof -
  have "length [7, 8, 9 :: u8] \<le> length [2, 5, 1 :: int]" by simp
  from send_all_terminates [OF this, of "[]"] show ?thesis
    by (auto simp: send_all_def os_send_def slice_def)
qed

lemma orders_of_stream: "frames (stream_bytes js @ bs) = (stream_orders js @ fst (frames bs), snd (frames bs))"
  using frames_encoded [of "map make_frame js" bs] by (simp add: stream_bytes_def stream_orders_def comp_def)

lemma orders_of_prefix:
  assumes "prefix w (stream_bytes js)"
  shows "prefix (fst (frames w)) (stream_orders js)"
proof -
  obtain bs where "stream_bytes js = w @ bs" using assms by (auto simp: prefix_def)
  moreover have "fst (frames (stream_bytes js)) = stream_orders js"
    using orders_of_stream [of js "[]"] by (simp add: frames_short kFrameSize_def)
  ultimately show ?thesis by (metis frames_append fst_conv prefixI)
qed

text \<open>
  (C26) The load client ends for every answer of the system, and its exit status tells the truth: it is
  0 exactly when every connection was made and every frame of every connection is on the wire; then
  all its descriptors are closed, and a feed handler that receives such a wire, in any cut and
  among any other connections, pushes exactly the orders of the frames and holds no bytes back.
  Also when a connection fails, the orders of its wire are a beginning of that sequence.
\<close>

theorem client_feeds_handler:
  assumes "0 < c" "c < 2 ^ 31" "n \<noteq> 0" "length qs = nat c" "length kss = nat c" "distinct (map c_socket qs)"
    and "\<forall>ks\<in>set kss. 24 * unat n \<le> length ks"
  shows "\<exists>st wires fs. client_main c n qs kss = Some (st, wires, fs)
    \<and> (st = 0 \<longleftrightarrow> (\<forall>q\<in>set qs. connected q) \<and> wires = replicate (nat c) (stream_bytes (frame_numbers n)))
    \<and> (\<forall>w\<in>set wires. prefix (fst (frames w)) (stream_orders (frame_numbers n)))
    \<and> (st = 0 \<longrightarrow> fs = {} \<and> (\<forall>w\<in>set wires. \<forall>fd evs. conn_bytes fd evs = ([], w) \<longrightarrow>
        orders_of fd (reader_run evs) = stream_orders (frame_numbers n) \<and> buffer fd (reader_run evs) = []))"
proof (cases "\<forall>q\<in>set qs. connected q")
  case False
  then obtain fs where "connect_all qs [] {} = Some (None, fs)"
    using connect_all_spec [OF assms(6), of "{}" "[]", unfolded if_not_P [OF False]] by auto
  then show ?thesis using False assms(1,3,4) by (simp add: client_main_def)
next
  case True
  let ?js = "frame_numbers n"
  have ca: "connect_all qs [] {} = Some (Some (map c_socket qs), c_socket ` set qs)"
    using connect_all_spec [OF assms(6), of "{}" "[]"] True by auto
  obtain rs where rs: "run_workers ?js kss = Some rs" "length rs = nat c"
    "\<forall>(ok, w)\<in>set rs. prefix w (stream_bytes ?js) \<and> (ok \<longleftrightarrow> w = stream_bytes ?js)"
    using run_workers_spec [of kss ?js] assms(5,7) by (auto simp: frame_numbers_def)
  let ?bad = "length (filter (\<lambda>r. \<not> fst r) rs)"
  have "?bad \<le> nat c" using rs(2) by (metis length_filter_le)
  moreover have "nat c < 2 ^ 64" using assms(1,2) by (simp add: nat_less_iff)
  ultimately have "(of_nat ?bad :: u64) = 0 \<longleftrightarrow> ?bad = 0"
    by (subst unat_0_iff [symmetric]) (simp add: unat_of_nat)
  also have "\<dots> \<longleftrightarrow> (\<forall>r\<in>set rs. snd r = stream_bytes ?js)"
    using rs(3) by (auto simp: filter_empty_conv case_prod_beta)
  also have "\<dots> \<longleftrightarrow> map snd rs = replicate (nat c) (stream_bytes ?js)"
    using rs(2) by (auto simp: map_replicate_const [symmetric] list_eq_iff_nth_eq all_set_conv_all_nth)
  finally have bad: "(of_nat ?bad :: u64) = 0 \<longleftrightarrow> map snd rs = replicate (nat c) (stream_bytes ?js)" .
  have cl: "close_all (map c_socket qs) (c_socket ` set qs) = Some {}"
    using close_all_spec [OF assms(6), of "c_socket ` set qs"] by simp
  have m: "client_main c n qs kss = Some (if (of_nat ?bad :: u64) = 0 then 0 else 1, map snd rs, {})"
    using assms(1,3,4,5) ca rs(1) cl by (simp add: client_main_def Let_def word_gt_0)
  have "prefix (fst (frames w)) (stream_orders ?js)" if "w \<in> set (map snd rs)" for w
    using that rs(3) orders_of_prefix by fastforce
  moreover have "orders_of fd (reader_run evs) = stream_orders ?js \<and> buffer fd (reader_run evs) = []"
    if "conn_bytes fd evs = ([], stream_bytes ?js)" for fd evs
    using reader_conn [of fd evs] that orders_of_stream [of ?js "[]"] by (simp add: frames_short kFrameSize_def)
  moreover have "w = stream_bytes ?js" if "w \<in> set (map snd rs)" "(of_nat ?bad :: u64) = 0" for w
    using that bad by (metis in_set_replicate)
  ultimately show ?thesis using m bad True
    by (intro exI [of _ "if (of_nat ?bad :: u64) = 0 then 0 else 1"] exI [of _ "map snd rs"] exI [of _ "{}"]) simp
qed

theorem client_feeds_handler_witness:
  "\<exists>st wires fs. client_main 1 1 [\<lparr>c_socket = 3, c_pton = 1, c_connect = 0\<rparr>] [replicate 24 1] = Some (st, wires, fs)
     \<and> (\<forall>w\<in>set wires. prefix (fst (frames w)) (stream_orders [0]))"
proof -
  have "frame_numbers 1 = [0]" by (simp add: frame_numbers_def)
  with client_feeds_handler [of 1 1 "[\<lparr>c_socket = 3, c_pton = 1, c_connect = 0\<rparr>]" "[replicate 24 1]"]
  show ?thesis by (simp add: connected_def) blast
qed

end
