(* ===== verification/Shm_Ring.thy ===== *)
theory Shm_Ring
  imports Ring_Buffer
begin

text \<open>
  The ring in memory shared by two processes, \<^verbatim>\<open>include/lloms/shm_ring.hpp\<close>: creating and
  attaching to a segment, push and pop on its bytes, the memory safety of both whatever the other
  process writes into the segment, and the refinement of the in-process ring.

  A segment is its header and the bytes behind it.  A message is the list of the \<open>esz\<close> bytes of
  an object of the template argument (\<open>esz\<close> is \<^verbatim>\<open>sizeof(T)\<close>).  An access outside the mapping,
  or through a handle that was never bound, gives \<open>None\<close>.
\<close>

section \<open>Segments and handles\<close>

datatype ShmAttachStatus = Ok | TooSmall | Misaligned | BadMagic | BadVersion | BadCapacity | BadElemSize

record ShmRingHeader =
  magic :: u32
  version :: u32
  capacity :: u32
  elem_size :: u32
  reserved :: "u64 list"
  sh_head :: u64
  sh_tail :: u64

record segment =
  hdr :: ShmRingHeader
  payload :: "u8 list"

record ShmSpscRing =
  bound :: bool
  mask_ix :: u64
  corruption :: u64

definition kHeaderSize :: u64 where "kHeaderSize = 192"

definition kHeaderAlign :: u64 where "kHeaderAlign = 64"

definition kMagic :: u32 where "kMagic = 0x534D5231"

definition kVersion :: u32 where "kVersion = 1"

definition fresh_handle :: ShmSpscRing where
  "fresh_handle = \<lparr>bound = False, mask_ix = 0, corruption = 0\<rparr>"

definition bytes_needed :: "nat \<Rightarrow> u32 \<Rightarrow> u64" where
  "bytes_needed esz cap = kHeaderSize + ucast cap * of_nat esz"

text \<open>\<^verbatim>\<open>mask_ = h->capacity - 1\<close> is a 32-bit difference, widened.\<close>

definition bind_ring :: "segment \<Rightarrow> ShmSpscRing \<Rightarrow> ShmSpscRing" where
  "bind_ring seg out = out\<lparr>bound := True, mask_ix := ucast (capacity (hdr seg) - 1)\<rparr>"

definition bad_capacity :: "u32 \<Rightarrow> bool" where
  "bad_capacity cap \<longleftrightarrow> cap < 2 \<or> cap AND (cap - 1) \<noteq> 0"

definition precheck :: "nat \<Rightarrow> u64 \<Rightarrow> u64 \<Rightarrow> u32 \<Rightarrow> ShmAttachStatus" where
  "precheck esz mem bytes cap =
     (if mem = 0 then TooSmall
      else if mem mod kHeaderAlign \<noteq> 0 then Misaligned
      else if bad_capacity cap then BadCapacity
      else if bytes < bytes_needed esz cap then TooSmall
      else Ok)"

definition create :: "nat \<Rightarrow> u64 \<Rightarrow> u64 \<Rightarrow> u32 \<Rightarrow> ShmSpscRing \<Rightarrow> segment \<Rightarrow>
    ShmAttachStatus \<times> ShmSpscRing \<times> segment" where
  "create esz mem bytes cap out seg =
     (let pre = precheck esz mem bytes cap in
      if pre \<noteq> Ok then (pre, out, seg)
      else
        let seg' = seg\<lparr>hdr := \<lparr>magic = kMagic, version = kVersion, capacity = cap, elem_size = of_nat esz,
              reserved = replicate 6 0, sh_head = 0, sh_tail = 0\<rparr>\<rparr>
        in (Ok, bind_ring seg' out, seg'))"

text \<open>
  The header is in memory that another process can write, and \<^verbatim>\<open>attach\<close> reads its capacity twice:
  to validate it, and in \<^verbatim>\<open>bind\<close>.  \<open>seg\<close> is the segment at the checks, \<open>seg2\<close> at the bind.
\<close>

definition attach :: "nat \<Rightarrow> u64 \<Rightarrow> u64 \<Rightarrow> segment \<Rightarrow> segment \<Rightarrow> ShmSpscRing \<Rightarrow>
    ShmAttachStatus \<times> ShmSpscRing" where
  "attach esz mem bytes seg seg2 out =
     (if mem = 0 then (TooSmall, out)
      else if mem mod kHeaderAlign \<noteq> 0 then (Misaligned, out)
      else if bytes < kHeaderSize then (TooSmall, out)
      else if magic (hdr seg) \<noteq> kMagic then (BadMagic, out)
      else if version (hdr seg) \<noteq> kVersion then (BadVersion, out)
      else if ucast (elem_size (hdr seg)) \<noteq> (of_nat esz :: u64) then (BadElemSize, out)
      else
        let cap = capacity (hdr seg) in
        if bad_capacity cap then (BadCapacity, out)
        else if bytes < bytes_needed esz cap then (TooSmall, out)
        else (Ok, bind_ring seg2 out))"

definition shm_valid :: "ShmSpscRing \<Rightarrow> bool" where
  "shm_valid r = bound r"

definition shm_capacity :: "ShmSpscRing \<Rightarrow> segment \<Rightarrow> u32" where
  "shm_capacity r seg = (if bound r then capacity (hdr seg) else 0)"

section \<open>Push and pop\<close>

definition shm_slot :: "nat \<Rightarrow> ShmSpscRing \<Rightarrow> u64 \<Rightarrow> nat" where
  "shm_slot esz r ix = unat ((ix AND mask_ix r) * of_nat esz)"

definition shm_push :: "nat \<Rightarrow> ShmSpscRing \<times> segment \<Rightarrow> u8 list \<Rightarrow> (bool \<times> ShmSpscRing \<times> segment) option" where
  "shm_push esz q v =
     (let (r, seg) = q in
      if \<not> bound r then None
      else
        let head = sh_head (hdr seg); tail = sh_tail (hdr seg) in
        if head - tail \<ge> ucast (capacity (hdr seg)) then Some (False, r, seg)
        else if shm_slot esz r head + esz \<le> length (payload seg) then
          Some (True, r, seg\<lparr>payload := patch (shm_slot esz r head) v (payload seg),
                             hdr := (hdr seg)\<lparr>sh_head := head + 1\<rparr>\<rparr>)
        else None)"

definition shm_pop :: "nat \<Rightarrow> ShmSpscRing \<times> segment \<Rightarrow> (u8 list option \<times> ShmSpscRing \<times> segment) option" where
  "shm_pop esz q =
     (let (r, seg) = q in
      if \<not> bound r then None
      else
        let tail = sh_tail (hdr seg); head = sh_head (hdr seg) in
        if head = tail then Some (None, r, seg)
        else if head - tail > ucast (capacity (hdr seg)) then
          Some (None, r\<lparr>corruption := corruption r + 1\<rparr>, seg)
        else if shm_slot esz r tail + esz \<le> length (payload seg) then
          Some (Some (slice (shm_slot esz r tail) esz (payload seg)), r,
                seg\<lparr>hdr := (hdr seg)\<lparr>sh_tail := tail + 1\<rparr>\<rparr>)
        else None)"

definition shm_size :: "segment \<Rightarrow> u64" where
  "shm_size seg = sh_head (hdr seg) - sh_tail (hdr seg)"

definition shm_empty :: "segment \<Rightarrow> bool" where
  "shm_empty seg \<longleftrightarrow> shm_size seg = 0"

section \<open>Memory safety\<close>

text \<open>The mapping of \<open>bytes\<close> bytes holds the header and the payload, and nothing else.\<close>

definition mapped :: "u64 \<Rightarrow> segment \<Rightarrow> bool" where
  "mapped bytes seg \<longleftrightarrow> unat bytes = 192 + length (payload seg)"

lemma unat_ucast_32 [simp]: "unat (ucast (w :: u32) :: u64) = unat w"
  using unsigned_less [where 'a = nat, of w] by (simp add: unsigned_ucast_eq take_bit_nat_eq_self)

lemma good_capacity:
  assumes "\<not> bad_capacity cap"
  shows "capacity_ok (ucast cap)" and "ucast (cap - 1) = kMask (ucast cap)"
proof -
  have ge: "2 \<le> cap" and pow: "cap AND (cap - 1) = 0"
    using assms by (simp_all add: bad_capacity_def linorder_not_less)
  have un: "unat (cap - 1) = unat cap - 1"
    using ge by (simp add: unat_sub word_le_nat_alt)
  have un64: "unat (ucast cap - 1 :: u64) = unat cap - 1"
    using ge by (simp add: unat_sub word_le_nat_alt)
  show eq: "ucast (cap - 1) = kMask (ucast cap)"
    unfolding kMask_def by (simp add: word_unat_eq_iff un un64)
  have "ucast cap AND (ucast cap - 1) = (ucast (cap AND (cap - 1)) :: u64)"
    using eq by (simp add: kMask_def unsigned_and_eq)
  then show "capacity_ok (ucast cap)"
    using ge pow by (simp add: capacity_ok_def word_le_nat_alt)
qed

lemma unat_bytes_needed:
  assumes "esz < 2 ^ 32"
  shows "unat (bytes_needed esz cap) = 192 + unat cap * esz" and "unat cap * esz < 2 ^ 64 - 192"
proof -
  have "unat cap \<le> 2 ^ 32 - 1" using unsigned_less [where 'a = nat, of cap] by simp
  then have "unat cap * esz \<le> (2 ^ 32 - 1) * (2 ^ 32 - 1)" using assms by (intro mult_mono) simp_all
  then show b: "unat cap * esz < 2 ^ 64 - 192" by simp
  have "(ucast cap * of_nat esz :: u64) = of_nat (unat cap * esz)"
    by (simp add: unat_ucast_32 [symmetric] del: unat_ucast_32)
  moreover have "unat (of_nat (unat cap * esz) :: u64) = unat cap * esz"
    using b by (simp add: unat_of_nat del: of_nat_mult)
  ultimately have "unat (ucast cap * of_nat esz :: u64) = unat cap * esz" by simp
  then show "unat (bytes_needed esz cap) = 192 + unat cap * esz"
    using b by (simp add: bytes_needed_def kHeaderSize_def unat_plus_if')
qed

text \<open>A handle whose every slot, for any index at all, lies within \<open>n\<close> bytes.\<close>

definition handle_ok :: "nat \<Rightarrow> u32 \<Rightarrow> ShmSpscRing \<Rightarrow> nat \<Rightarrow> bool" where
  "handle_ok esz cap r n \<longleftrightarrow>
     bound r \<and> esz < 2 ^ 32 \<and> \<not> bad_capacity cap \<and> mask_ix r = ucast (cap - 1) \<and> unat cap * esz \<le> n"

lemma shm_slot_eq:
  assumes "handle_ok esz cap r n"
  shows "shm_slot esz r ix = slot_of (ucast cap) ix * esz" and "slot_of (ucast cap) ix < unat cap"
proof -
  have h: "esz < 2 ^ 32" "\<not> bad_capacity cap" "mask_ix r = kMask (ucast cap)"
    using assms good_capacity(2) by (simp_all add: handle_ok_def)
  have ok: "capacity_ok (ucast cap :: u64)" by (rule good_capacity(1) [OF h(2)])
  have "0 < unat cap" using ok by (simp add: capacity_ok_def word_le_nat_alt)
  then show lt: "slot_of (ucast cap) ix < unat cap" by (simp add: slot_of_mod [OF ok])
  then have "slot_of (ucast cap) ix * esz \<le> unat cap * esz" by (intro mult_right_mono) simp_all
  also have "\<dots> < 2 ^ 64" using unat_bytes_needed(2) [OF h(1), of cap] by simp
  finally have b: "slot_of (ucast cap) ix * esz < 2 ^ 64" .
  have "(ix AND mask_ix r) * of_nat esz = of_nat (slot_of (ucast cap) ix * esz)"
    by (simp add: h(3) slot_of_def)
  then show "shm_slot esz r ix = slot_of (ucast cap) ix * esz"
    using b by (simp add: shm_slot_def unat_of_nat del: of_nat_mult)
qed

lemma shm_slot_in_bounds:
  assumes "handle_ok esz cap r n"
  shows "shm_slot esz r ix + esz \<le> n"
proof -
  have "Suc (slot_of (ucast cap) ix) * esz \<le> unat cap * esz"
    using shm_slot_eq(2) [OF assms, of ix] by (intro mult_right_mono) simp_all
  then show ?thesis using shm_slot_eq(1) [OF assms, of ix] assms by (simp add: handle_ok_def)
qed

lemma attach_Ok_iff:
  "fst (attach esz mem bytes seg seg2 out) = Ok \<longleftrightarrow>
     mem \<noteq> 0 \<and> mem mod kHeaderAlign = 0 \<and> kHeaderSize \<le> bytes \<and> magic (hdr seg) = kMagic
     \<and> version (hdr seg) = kVersion \<and> ucast (elem_size (hdr seg)) = (of_nat esz :: u64)
     \<and> \<not> bad_capacity (capacity (hdr seg)) \<and> bytes_needed esz (capacity (hdr seg)) \<le> bytes"
  by (auto simp: attach_def Let_def)

lemma attach_handle_ok:
  assumes "attach esz mem bytes seg seg2 out = (Ok, r)" "mapped bytes seg" "esz < 2 ^ 32"
    and "capacity (hdr seg2) = capacity (hdr seg)"
  shows "handle_ok esz (capacity (hdr seg)) r (length (payload seg))"
proof -
  have c: "\<not> bad_capacity (capacity (hdr seg))" "bytes_needed esz (capacity (hdr seg)) \<le> bytes"
    using attach_Ok_iff [of esz mem bytes seg seg2 out] assms(1) by simp_all
  have "r = bind_ring seg2 out" using assms(1) by (auto simp: attach_def Let_def split: if_splits)
  then show ?thesis
    using c assms unat_bytes_needed(1) [OF assms(3)]
    by (simp add: handle_ok_def bind_ring_def mapped_def word_le_nat_alt)
qed

lemma create_handle_ok:
  assumes "create esz mem bytes cap out seg = (Ok, r, seg')" "mapped bytes seg" "esz < 2 ^ 32"
  shows "handle_ok esz cap r (length (payload seg))" "payload seg' = payload seg" "capacity (hdr seg') = cap"
proof -
  have p: "precheck esz mem bytes cap = Ok" and r: "r = bind_ring seg' out"
    and s: "payload seg' = payload seg" "capacity (hdr seg') = cap"
    using assms(1) by (auto simp: create_def Let_def split: if_splits)
  show "payload seg' = payload seg" "capacity (hdr seg') = cap" by (fact s)+
  have "\<not> bad_capacity cap" "bytes_needed esz cap \<le> bytes"
    using p by (auto simp: precheck_def split: if_splits)
  then show "handle_ok esz cap r (length (payload seg))"
    using r s assms(2,3) unat_bytes_needed(1) [OF assms(3)]
    by (simp add: handle_ok_def bind_ring_def mapped_def word_le_nat_alt)
qed

section \<open>The segment refines the in-process ring\<close>

definition shm_abs :: "nat \<Rightarrow> u32 \<Rightarrow> ShmSpscRing \<times> segment \<Rightarrow> u8 list SpscRingBuffer" where
  "shm_abs esz cap q =
     \<lparr>head_ix = sh_head (hdr (snd q)), tail_ix = sh_tail (hdr (snd q)),
      slots = map (\<lambda>i. slice (i * esz) esz (payload (snd q))) [0..<unat cap]\<rparr>"

definition shm_inv :: "nat \<Rightarrow> u32 \<Rightarrow> ShmSpscRing \<times> segment \<Rightarrow> bool" where
  "shm_inv esz cap q \<longleftrightarrow>
     handle_ok esz cap (fst q) (length (payload (snd q))) \<and> capacity (hdr (snd q)) = cap \<and>
     sh_head (hdr (snd q)) - sh_tail (hdr (snd q)) \<le> ucast cap"

lemma shm_abs_ring_inv: "shm_inv esz cap q \<Longrightarrow> ring_inv (ucast cap) (shm_abs esz cap q)"
  by (simp add: ring_inv_def shm_abs_def shm_inv_def)

lemma slices_patch:
  assumes "k < cap" "cap * esz \<le> length m" "length v = esz"
  shows "map (\<lambda>i. slice (i * esz) esz (patch (k * esz) v m)) [0..<cap]
       = (map (\<lambda>i. slice (i * esz) esz m) [0..<cap])[k := v]"
proof (rule nth_equalityI)
  have fit: "i * esz + esz \<le> length m" if "i < cap" for i
  proof -
    have "Suc i * esz \<le> cap * esz" using that by (intro mult_right_mono) simp_all
    then show ?thesis using assms(2) by simp
  qed
  fix i assume "i < length (map (\<lambda>i. slice (i * esz) esz (patch (k * esz) v m)) [0..<cap])"
  then have i: "i < cap" by simp
  have "slice (i * esz) esz (patch (k * esz) v m) = slice (i * esz) esz m" if "i \<noteq> k"
  proof (rule slice_patch_other)
    show "i * esz + esz \<le> k * esz \<or> k * esz + length v \<le> i * esz"
    proof (cases "i < k")
      case True
      then have "Suc i * esz \<le> k * esz" by (intro mult_right_mono) simp_all
      then show ?thesis by simp
    next
      case False
      then have "Suc k * esz \<le> i * esz" using that by (intro mult_right_mono) simp_all
      then show ?thesis using assms by simp
    qed
  qed (use fit i assms in simp_all)
  then show "map (\<lambda>i. slice (i * esz) esz (patch (k * esz) v m)) [0..<cap] ! i
      = (map (\<lambda>i. slice (i * esz) esz m) [0..<cap])[k := v] ! i"
    using i assms fit [of k] by (cases "i = k") (simp_all add: slice_patch_same)
qed simp

text \<open>
  \<^verbatim>\<open>head - tail >= capacity\<close> here and \<^verbatim>\<open>next - tail > Capacity\<close> in the in-process ring are
  the same test.
\<close>

lemma full_tests_agree:
  assumes "\<not> bad_capacity cap" "(h :: u64) - t \<le> ucast cap"
  shows "h - t \<ge> ucast cap \<longleftrightarrow> h + 1 - t > ucast cap"
  using spsc.full_test(1) [OF spsc.intro [OF good_capacity(1) [OF assms(1)]] assms(2)] assms(2)
  by (auto simp: word_le_nat_alt)

lemma shm_push_refines:
  assumes inv: "shm_inv esz cap q" and v: "length v = esz"
  shows "\<exists>ok q'. shm_push esz q v = Some (ok, q') \<and> shm_inv esz cap q'
    \<and> push (ucast cap) (shm_abs esz cap q) v = (ok, shm_abs esz cap q')"
proof -
  obtain r seg where q: "q = (r, seg)" by (cases q)
  let ?h = "sh_head (hdr seg)" and ?t = "sh_tail (hdr seg)"
  have h: "handle_ok esz cap r (length (payload seg))" and c: "capacity (hdr seg) = cap"
    and le: "?h - ?t \<le> ucast cap" using inv by (simp_all add: shm_inv_def q)
  have good: "\<not> bad_capacity cap" "bound r" "unat cap * esz \<le> length (payload seg)"
    using h by (simp_all add: handle_ok_def)
  have slot: "shm_slot esz r ?h = slot_of (ucast cap) ?h * esz" "slot_of (ucast cap) ?h < unat cap"
    using shm_slot_eq [OF h] by simp_all
  have fit: "shm_slot esz r ?h + esz \<le> length (payload seg)" by (rule shm_slot_in_bounds [OF h])
  show ?thesis
  proof (cases "?h - ?t \<ge> ucast cap")
    case True
    then show ?thesis
      using full_tests_agree [OF good(1) le] inv good(2) c
      by (intro exI [of _ False] exI [of _ q]) (simp add: q shm_push_def push_def shm_abs_def)
  next
    case False
    define seg' where "seg' = seg\<lparr>payload := patch (shm_slot esz r ?h) v (payload seg),
      hdr := (hdr seg)\<lparr>sh_head := ?h + 1\<rparr>\<rparr>"
    have p: "shm_push esz q v = Some (True, r, seg')"
      using False good(2) c fit by (simp add: q shm_push_def seg'_def Let_def)
    have "\<not> ?h + 1 - ?t > ucast cap" using False full_tests_agree [OF good(1) le] by simp
    moreover from this have "shm_inv esz cap (r, seg')"
      using h c fit v by (simp add: shm_inv_def seg'_def linorder_not_less)
    moreover have "slots (shm_abs esz cap (r, seg')) = (slots (shm_abs esz cap q))[slot_of (ucast cap) ?h := v]"
      using slices_patch [OF slot(2) good(3) v] slot(1) by (simp add: shm_abs_def seg'_def q)
    ultimately show ?thesis
      using p by (intro exI [of _ True] exI [of _ "(r, seg')"]) (simp add: push_def shm_abs_def q seg'_def Let_def)
  qed
qed

lemma shm_pop_refines:
  assumes inv: "shm_inv esz cap q"
  shows "\<exists>out q'. shm_pop esz q = Some (out, q') \<and> shm_inv esz cap q' \<and> fst q' = fst q
    \<and> pop (ucast cap) (shm_abs esz cap q) = (out, shm_abs esz cap q')"
proof -
  obtain r seg where q: "q = (r, seg)" by (cases q)
  let ?h = "sh_head (hdr seg)" and ?t = "sh_tail (hdr seg)"
  have h: "handle_ok esz cap r (length (payload seg))" and c: "capacity (hdr seg) = cap"
    and le: "?h - ?t \<le> ucast cap" using inv by (simp_all add: shm_inv_def q)
  have good: "bound r" using h by (simp add: handle_ok_def)
  have slot: "shm_slot esz r ?t = slot_of (ucast cap) ?t * esz" "slot_of (ucast cap) ?t < unat cap"
    using shm_slot_eq [OF h] by simp_all
  have fit: "shm_slot esz r ?t + esz \<le> length (payload seg)" by (rule shm_slot_in_bounds [OF h])
  show ?thesis
  proof (cases "?h = ?t")
    case True
    then show ?thesis using inv good by (simp add: q shm_pop_def pop_def shm_abs_def Let_def)
  next
    case False
    have "?h - (?t + 1) = (?h - ?t) - 1" by simp
    moreover have "?h - ?t \<noteq> 0" using False by simp
    ultimately have "unat (?h - (?t + 1)) \<le> unat (?h - ?t)"
      by (metis diff_le_self unat_minus_one)
    then have "?h - (?t + 1) \<le> ucast cap" using le by (simp add: word_le_nat_alt)
    then show ?thesis
      using False le good c fit h slot
      by (auto simp: q shm_pop_def pop_def shm_abs_def shm_inv_def Let_def linorder_not_less [symmetric])
  qed
qed

locale shm_ring =
  fixes esz :: nat and cap :: u32
  assumes elem_size_fits: "esz < 2 ^ 32" and cap_good: "\<not> bad_capacity cap"
begin

lemma spsc_cap: "spsc (ucast cap)"
  by (rule spsc.intro [OF good_capacity(1) [OF cap_good]])

abbreviation queued :: "ShmSpscRing \<times> segment \<Rightarrow> u8 list list" where
  "queued q \<equiv> contents (ucast cap) (shm_abs esz cap q)"

lemma shm_push_room:
  assumes "shm_inv esz cap q" "length v = esz" "length (queued q) < unat cap"
  shows "\<exists>q'. shm_push esz q v = Some (True, q') \<and> shm_inv esz cap q' \<and> queued q' = queued q @ [v]"
  using shm_push_refines [OF assms(1,2)] spsc.push_contents [OF spsc_cap shm_abs_ring_inv [OF assms(1)], of v]
    assms(3) by auto

lemma shm_push_when_full:
  assumes "shm_inv esz cap q" "unat cap \<le> length (queued q)"
  shows "shm_push esz q v = Some (False, q)"
proof -
  have "ucast cap \<le> sh_head (hdr (snd q)) - sh_tail (hdr (snd q))"
    using assms(2) by (simp add: shm_abs_def word_le_nat_alt)
  then show ?thesis using assms(1) by (cases q) (simp add: shm_push_def shm_inv_def handle_ok_def)
qed

lemma shm_pop_nil:
  assumes "shm_inv esz cap q" "queued q = []"
  shows "shm_pop esz q = Some (None, q)"
proof -
  have "sh_head (hdr (snd q)) = sh_tail (hdr (snd q))"
    using assms(2) empty_iff [of "shm_abs esz cap q"] by (simp add: empty_def shm_abs_def)
  then show ?thesis using assms(1) by (cases q) (simp add: shm_pop_def shm_inv_def handle_ok_def)
qed

lemma shm_pop_cons:
  assumes "shm_inv esz cap q" "queued q = v # vs"
  shows "\<exists>q'. shm_pop esz q = Some (Some v, q') \<and> shm_inv esz cap q' \<and> queued q' = vs"
  using shm_pop_refines [OF assms(1)] spsc.pop_contents [OF spsc_cap shm_abs_ring_inv [OF assms(1)] assms(2)]
  by auto

end

sublocale shm_ring \<subseteq> fifo: bounded_fifo "shm_push esz" "shm_pop esz" queued "unat cap"
    "shm_inv esz cap" "\<lambda>v. length v = esz"
proof (unfold_locales, goal_cases)
  case (1 q x) then show ?case by (rule shm_push_room)
next
  case (2 q x) then show ?case by (rule shm_push_when_full)
next
  case (3 q) then show ?case by (rule shm_pop_nil)
next
  case (4 q x xs) then show ?case by (rule shm_pop_cons)
next
  case (5 q) then show ?case by (simp add: shm_inv_def shm_abs_def word_le_nat_alt)
qed

text \<open>The instance of the process pair in \<^verbatim>\<open>apps/shm_ipc_posix.cpp\<close>: 16-byte messages, 4096 slots.\<close>

interpretation ipc_ring: shm_ring 16 4096
  by unfold_locales (simp_all add: bad_capacity_def)

context shm_ring begin

lemmas shm_ops_fifo = fifo.run_ops_fifo

end

section \<open>Properties\<close>

text \<open>
  (C15) A process binds a segment of \<open>bytes\<close> bytes by \<^verbatim>\<open>create\<close>, or by an \<^verbatim>\<open>attach\<close> during which the
  capacity in the header does not change between its check (\<open>seg\<close>) and its use (\<open>seg2\<close>).  From then
  on its pushes and pops stay inside the mapping whatever the other process writes there: \<open>evil\<close> is
  any segment of that size, with any indices, capacity and bytes, and \<open>n\<close> any number of
  corruptions counted so far, the only part of the handle that ever changes.  A pop either leaves
  the segment as it is or advances only the tail; it counts a corruption exactly when the indices
  are further apart than the capacity in the header.
\<close>

theorem shm_memory_safe:
  assumes "esz < 2 ^ 32" "mapped bytes seg" "mapped bytes evil" "length v = esz"
    and "attach esz mem bytes seg seg2 out = (Ok, r) \<and> capacity (hdr seg2) = capacity (hdr seg)
      \<or> create esz mem bytes cap out seg = (Ok, r, seg')"
  shows "(\<exists>ok evil'. shm_push esz (r\<lparr>corruption := n\<rparr>, evil) v = Some (ok, r\<lparr>corruption := n\<rparr>, evil') \<and> mapped bytes evil')
    \<and> (\<exists>res evil'. shm_pop esz (r\<lparr>corruption := n\<rparr>, evil) = Some (res, r\<lparr>corruption := n +
            (if sh_head (hdr evil) - sh_tail (hdr evil) > ucast (capacity (hdr evil)) then 1 else 0)\<rparr>, evil')
        \<and> payload evil' = payload evil
        \<and> hdr evil' = (hdr evil)\<lparr>sh_tail := sh_tail (hdr evil) + (if res = None then 0 else 1)\<rparr>)"
proof -
  obtain cap' where h: "handle_ok esz cap' r (length (payload seg))"
    using assms(5) attach_handle_ok [OF _ assms(2,1)] create_handle_ok(1) [OF _ assms(2,1)] by blast
  then have h': "handle_ok esz cap' (r\<lparr>corruption := n\<rparr>) (length (payload seg))" by (simp add: handle_ok_def)
  have "length (payload evil) = length (payload seg)" using assms(2,3) by (simp add: mapped_def)
  then have fit: "shm_slot esz (r\<lparr>corruption := n\<rparr>) ix + esz \<le> length (payload evil)" for ix
    using shm_slot_in_bounds [OF h'] by simp
  have b: "bound r" using h by (simp add: handle_ok_def)
  have "\<exists>ok evil'. shm_push esz (r\<lparr>corruption := n\<rparr>, evil) v = Some (ok, r\<lparr>corruption := n\<rparr>, evil') \<and> mapped bytes evil'"
    using assms(3,4) fit b by (auto simp: shm_push_def mapped_def Let_def)
  moreover have "\<exists>res evil'. shm_pop esz (r\<lparr>corruption := n\<rparr>, evil) = Some (res, r\<lparr>corruption := n +
            (if sh_head (hdr evil) - sh_tail (hdr evil) > ucast (capacity (hdr evil)) then 1 else 0)\<rparr>, evil')
        \<and> payload evil' = payload evil
        \<and> hdr evil' = (hdr evil)\<lparr>sh_tail := sh_tail (hdr evil) + (if res = None then 0 else 1)\<rparr>"
    using fit b by (auto simp: shm_pop_def Let_def)
  ultimately show ?thesis by blast
qed

lemma create_inv:
  assumes "create esz mem bytes cap out seg = (Ok, r, seg')" "mapped bytes seg" "esz < 2 ^ 32"
  shows "shm_inv esz cap (r, seg')" and "contents (ucast cap) (shm_abs esz cap (r, seg')) = []"
proof -
  have ix: "sh_head (hdr seg') = 0" "sh_tail (hdr seg') = 0"
    using assms(1) by (auto simp: create_def Let_def split: if_splits)
  show "shm_inv esz cap (r, seg')"
    using create_handle_ok [OF assms] ix by (simp add: shm_inv_def)
  show "contents (ucast cap) (shm_abs esz cap (r, seg')) = []"
    using ix by (simp add: contents_def shm_abs_def)
qed

text \<open>
  What \<^verbatim>\<open>create\<close> stamps, \<^verbatim>\<open>attach\<close> accepts: on a segment that was created over the same
  mapping, a process with the same message size attaches, gets the same view of the ring and the
  same capacity, and through any sequence of pushes and pops on it the messages come out whole and
  in the order in which they were accepted, with no access outside the mapping.
\<close>

theorem shm_create_attach_fifo:
  assumes "esz < 2 ^ 32" "mapped bytes seg" "create esz mem bytes cap out seg = (Ok, r, seg')"
    and "\<forall>v. Enq v \<in> set ops \<longrightarrow> length v = esz"
  shows "\<exists>r2. attach esz mem bytes seg' seg' fresh_handle = (Ok, r2) \<and> mask_ix r2 = mask_ix r
    \<and> shm_capacity r2 seg' = cap
    \<and> (\<exists>acc outs q. run_ops (shm_push esz) (shm_pop esz) (r2, seg') ops = Some (acc, outs, q)
        \<and> outs @ contents (ucast cap) (shm_abs esz cap q) = acc \<and> shm_inv esz cap q)"
proof -
  have h: "hdr seg' = \<lparr>magic = kMagic, version = kVersion, capacity = cap, elem_size = of_nat esz,
      reserved = replicate 6 0, sh_head = 0, sh_tail = 0\<rparr>"
    and pre: "precheck esz mem bytes cap = Ok" and r: "r = bind_ring seg' out"
    using assms(3) by (auto simp: create_def Let_def split: if_splits)
  have esz: "ucast (of_nat esz :: u32) = (of_nat esz :: u64)"
    using assms(1) by (simp add: word_unat_eq_iff unat_of_nat)
  have small: "mem \<noteq> 0" "mem mod kHeaderAlign = 0" "\<not> bad_capacity cap" "bytes_needed esz cap \<le> bytes"
    using pre by (auto simp: precheck_def split: if_splits)
  moreover have "kHeaderSize \<le> bytes"
    using assms(2) by (simp add: mapped_def kHeaderSize_def word_le_nat_alt)
  ultimately have ok: "fst (attach esz mem bytes seg' seg' fresh_handle) = Ok"
    by (simp add: attach_Ok_iff h esz)
  define r2 where "r2 = bind_ring seg' fresh_handle"
  have at: "attach esz mem bytes seg' seg' fresh_handle = (Ok, r2)"
    using ok by (auto simp: attach_def Let_def r2_def split: if_splits)
  have "shm_inv esz cap (r2, seg')"
    using create_inv(1) [OF assms(3,2,1)] by (simp add: shm_inv_def handle_ok_def r r2_def bind_ring_def)
  from shm_ring.shm_ops_fifo [OF shm_ring.intro [OF assms(1) small(3)] this assms(4)]
  have "\<exists>acc outs q. run_ops (shm_push esz) (shm_pop esz) (r2, seg') ops = Some (acc, outs, q)
      \<and> outs @ contents (ucast cap) (shm_abs esz cap q) = acc \<and> shm_inv esz cap q"
    using create_inv(2) [OF assms(3,2,1)] by (auto simp: shm_abs_def)
  then show ?thesis using at by (simp add: r r2_def bind_ring_def shm_capacity_def h)
qed

text \<open>
  The segment ring is the in-process ring, message for message and bit for bit: on a healthy
  segment push and pop give the result of \<^verbatim>\<open>SpscRingBuffer\<close> on the slots that the bytes
  spell, although the two classes test for fullness differently.
\<close>

theorem shm_refines_spsc:
  assumes "shm_inv esz cap q" "length v = esz"
  shows "map_option (map_prod id (shm_abs esz cap)) (shm_push esz q v)
      = Some (push (ucast cap) (shm_abs esz cap q) v)
    \<and> map_option (map_prod id (shm_abs esz cap)) (shm_pop esz q)
      = Some (pop (ucast cap) (shm_abs esz cap q))"
  using shm_push_refines [OF assms] shm_pop_refines [OF assms(1)] by auto

text \<open>Concrete segments for the witnesses: two slots of two bytes.\<close>

definition raw_seg :: segment where
  "raw_seg = \<lparr>hdr = \<lparr>magic = 0, version = 0, capacity = 0, elem_size = 0, reserved = [], sh_head = 0,
     sh_tail = 0\<rparr>, payload = [0, 0, 0, 0]\<rparr>"

definition made_seg :: segment where
  "made_seg = raw_seg\<lparr>hdr := \<lparr>magic = kMagic, version = kVersion, capacity = 2, elem_size = 2,
     reserved = replicate 6 0, sh_head = 0, sh_tail = 0\<rparr>\<rparr>"

definition made_ring :: ShmSpscRing where
  "made_ring = \<lparr>bound = True, mask_ix = 1, corruption = 0\<rparr>"

lemma made: "create 2 64 196 2 fresh_handle raw_seg = (Ok, made_ring, made_seg)"
  by (simp add: create_def precheck_def Let_def bad_capacity_def bytes_needed_def kHeaderSize_def
      kHeaderAlign_def bind_ring_def fresh_handle_def made_ring_def made_seg_def)

lemma made_mapped: "mapped 196 raw_seg"
  by (simp add: mapped_def raw_seg_def)

definition wild_seg :: segment where
  "wild_seg = \<lparr>hdr = \<lparr>magic = 0, version = 9, capacity = 1000, elem_size = 77, reserved = [],
     sh_head = 700, sh_tail = 3\<rparr>, payload = [1, 2, 3, 4]\<rparr>"

theorem shm_memory_safe_witness:
  "\<exists>r. attach 2 64 196 made_seg (made_seg\<lparr>payload := [7, 7, 7, 7]\<rparr>) fresh_handle = (Ok, r)
     \<and> (\<exists>ok evil'. shm_push 2 (r\<lparr>corruption := 5\<rparr>, wild_seg) [8, 9] = Some (ok, r\<lparr>corruption := 5\<rparr>, evil') \<and> mapped 196 evil')"
proof -
  let ?seg2 = "made_seg\<lparr>payload := [7, 7, 7, 7]\<rparr>"
  have "mapped 196 wild_seg" "mapped 196 made_seg" by (simp_all add: mapped_def wild_seg_def made_seg_def raw_seg_def)
  moreover have a: "attach 2 64 196 made_seg ?seg2 fresh_handle = (Ok, made_ring)"
    by (simp add: attach_def made_seg_def made_ring_def bind_ring_def fresh_handle_def kHeaderSize_def kHeaderAlign_def
        bad_capacity_def bytes_needed_def Let_def)
  ultimately show ?thesis
    using shm_memory_safe [where esz = 2 and bytes = 196 and seg = made_seg and evil = wild_seg and v = "[8, 9]" and mem = 64
        and ?seg2.0 = ?seg2 and out = fresh_handle and r = made_ring and n = 5] by simp
qed

theorem shm_create_attach_fifo_witness:
  "\<exists>r2. attach 2 64 196 made_seg made_seg fresh_handle = (Ok, r2) \<and>
    (\<exists>acc outs q. run_ops (shm_push 2) (shm_pop 2) (r2, made_seg) [Enq [8, 9], Deq] = Some (acc, outs, q)
      \<and> outs @ contents (ucast (2 :: u32)) (shm_abs 2 2 q) = acc)"
  using shm_create_attach_fifo [OF _ made_mapped made, of "[Enq [8, 9], Deq]"] by auto

theorem shm_refines_spsc_witness:
  "map_option (map_prod id (shm_abs 2 2)) (shm_push 2 (made_ring, made_seg) [8, 9])
     = Some (push (ucast (2 :: u32)) (shm_abs 2 2 (made_ring, made_seg)) [8, 9])"
proof -
  have "shm_inv 2 2 (made_ring, made_seg)" by (rule create_inv(1) [OF made made_mapped]) simp
  from shm_refines_spsc [OF this, of "[8, 9]"] show ?thesis by simp
qed

text \<open>
  The validation of the capacity does not protect the bind: \<^verbatim>\<open>attach\<close> re-reads the capacity from
  shared memory after it checked it, so a peer that changes it in between leaves an attached ring,
  with status Ok, whose next push is outside the mapping.
\<close>

theorem attach_double_fetch:
  "\<exists>seg seg2 r. mapped 196 seg \<and> mapped 196 seg2 \<and> attach 2 64 196 seg seg2 fresh_handle = (Ok, r)
    \<and> shm_push 2 (r, seg2) [8, 9] = None"
proof (intro exI conjI)
  let ?seg2 = "made_seg\<lparr>hdr := (hdr made_seg)\<lparr>capacity := 1024, sh_head := 500, sh_tail := 499\<rparr>\<rparr>"
  show "mapped 196 made_seg" "mapped 196 ?seg2" by (simp_all add: mapped_def made_seg_def raw_seg_def)
  show "attach 2 64 196 made_seg ?seg2 fresh_handle = (Ok, bind_ring ?seg2 fresh_handle)"
    by (simp add: attach_def made_seg_def kHeaderSize_def kHeaderAlign_def bad_capacity_def bytes_needed_def Let_def)
  show "shm_push 2 (bind_ring ?seg2 fresh_handle, ?seg2) [8, 9] = None"
    by (simp add: shm_push_def bind_ring_def made_seg_def raw_seg_def shm_slot_def Let_def word_le_nat_alt)
qed

end
