(* ===== verification/Posix_Shm.thy ===== *)
theory Posix_Shm
  imports Shm_Ring
begin

text \<open>
  The owner of a shared-memory segment, \<^verbatim>\<open>include/lloms/posix_shm.hpp\<close> and \<^verbatim>\<open>src/posix_shm.cpp\<close>.
  The operating system is a ledger of what the process holds (open descriptors, mappings, names of
  shared-memory objects); what a system call answers is an argument.  Closing a descriptor or
  unmapping a region that the process does not hold is the value \<open>None\<close>.  Removing a name never
  fails, as in the code, which ignores the answer; so the ledger also counts, for every name, how
  often this process created it and how often it removed it again on behalf of an object.
\<close>

section \<open>The operating system\<close>

record os =
  names :: "string set"
  fds :: "int set"
  mapped :: "nat \<rightharpoonup> nat"
  made :: "string \<Rightarrow> nat"
  dropped :: "string \<Rightarrow> nat"
  forced :: "string set"

definition no_os :: "string set \<Rightarrow> os" where
  "no_os nms = \<lparr>names = nms, fds = {}, mapped = Map.empty, made = (\<lambda>_. 0), dropped = (\<lambda>_. 0), forced = {}\<rparr>"

text \<open>The answers of one construction: \<open>r_map = None\<close> is \<^verbatim>\<open>MAP_FAILED\<close>, \<open>r_stat = None\<close> a failed \<^verbatim>\<open>fstat\<close>.\<close>

record answers =
  r_open :: int
  r_trunc :: bool
  r_stat :: "nat option"
  r_map :: "nat option"
  r_errno :: string

definition os_close :: "int \<Rightarrow> os \<Rightarrow> os option" where
  "os_close fd w = (if fd \<in> fds w then Some (w\<lparr>fds := fds w - {fd}\<rparr>) else None)"

definition os_munmap :: "nat \<Rightarrow> nat \<Rightarrow> os \<Rightarrow> os option" where
  "os_munmap a n w = (if mapped w a = Some n then Some (w\<lparr>mapped := (mapped w)(a := None)\<rparr>) else None)"

definition os_create :: "string \<Rightarrow> int \<Rightarrow> os \<Rightarrow> os" where
  "os_create nm fd w = w\<lparr>names := insert nm (names w), fds := insert fd (fds w), made := (made w)(nm := Suc (made w nm))\<rparr>"

definition os_unlink :: "string \<Rightarrow> os \<Rightarrow> os" where
  "os_unlink nm w = w\<lparr>names := names w - {nm}, dropped := (dropped w)(nm := Suc (dropped w nm))\<rparr>"

section \<open>The segment\<close>

definition to_string_status :: "ShmAttachStatus \<Rightarrow> string" where
  "to_string_status s = (case s of
     Ok \<Rightarrow> ''ok'' | TooSmall \<Rightarrow> ''mapping-too-small'' | Misaligned \<Rightarrow> ''misaligned-base-pointer''
   | BadMagic \<Rightarrow> ''bad-magic'' | BadVersion \<Rightarrow> ''version-mismatch'' | BadCapacity \<Rightarrow> ''bad-capacity''
   | BadElemSize \<Rightarrow> ''element-size-mismatch'')"

text \<open>\<open>addr = None\<close> is the null pointer.\<close>

record PosixSharedMemory =
  addr :: "nat option"
  seg_size :: nat
  fd :: int
  owner :: bool
  seg_name :: string
  err :: string

definition empty_seg :: PosixSharedMemory where
  "empty_seg = \<lparr>addr = None, seg_size = 0, fd = - 1, owner = False, seg_name = [], err = []\<rparr>"

definition seg_valid :: "PosixSharedMemory \<Rightarrow> bool" where
  "seg_valid s \<longleftrightarrow> addr s \<noteq> None"

definition errno_text :: "string \<Rightarrow> answers \<Rightarrow> string" where
  "errno_text what q = what @ '': '' @ r_errno q"

definition close_seg :: "PosixSharedMemory \<Rightarrow> os \<Rightarrow> (PosixSharedMemory \<times> os) option" where
  "close_seg s w = do {
     (s1, w1) \<leftarrow> (case addr s of
        None \<Rightarrow> Some (s, w)
      | Some a \<Rightarrow> do { w' \<leftarrow> os_munmap a (seg_size s) w; Some (s\<lparr>addr := None\<rparr>, w') });
     (s2, w2) \<leftarrow> (if fd s1 \<ge> 0 then do { w' \<leftarrow> os_close (fd s1) w1; Some (s1\<lparr>fd := - 1\<rparr>, w') } else Some (s1, w1));
     let (s3, w3) = (if owner s2 \<and> seg_name s2 \<noteq> [] then (s2\<lparr>owner := False\<rparr>, os_unlink (seg_name s2) w2) else (s2, w2));
     Some (s3\<lparr>seg_size := 0\<rparr>, w3)
   }"

text \<open>What a move leaves of its source; a moved-from string is empty.\<close>

definition moved_from :: "PosixSharedMemory \<Rightarrow> PosixSharedMemory" where
  "moved_from other = other\<lparr>addr := None, seg_size := 0, fd := - 1, owner := False, seg_name := [], err := []\<rparr>"

definition move_construct :: "PosixSharedMemory \<Rightarrow> PosixSharedMemory \<times> PosixSharedMemory" where
  "move_construct other = (other, moved_from other)"

text \<open>Assignment to another object: what this one held is released first.\<close>

definition move_assign :: "PosixSharedMemory \<Rightarrow> PosixSharedMemory \<Rightarrow> os \<Rightarrow> (PosixSharedMemory \<times> PosixSharedMemory \<times> os) option" where
  "move_assign this other w = do { (_, w1) \<leftarrow> close_seg this w; Some (other, moved_from other, w1) }"

definition create_seg :: "answers \<Rightarrow> string \<Rightarrow> nat \<Rightarrow> os \<Rightarrow> (PosixSharedMemory \<times> os) option" where
  "create_seg q nm bytes w =
     (let s = empty_seg\<lparr>seg_name := nm\<rparr> in
      if bytes = 0 then Some (s\<lparr>err := ''requested size is zero''\<rparr>, w)
      else if r_open q < 0 then Some (s\<lparr>err := errno_text ''shm_open(O_CREAT|O_EXCL)'' q\<rparr>, w)
      else
        let w1 = os_create nm (r_open q) w in
        if \<not> r_trunc q then do {
          w2 \<leftarrow> os_close (r_open q) w1;
          Some (s\<lparr>err := errno_text ''ftruncate'' q\<rparr>, os_unlink nm w2) }
        else
          (case r_map q of
             None \<Rightarrow> do {
               w2 \<leftarrow> os_close (r_open q) w1;
               Some (s\<lparr>err := errno_text ''mmap'' q\<rparr>, os_unlink nm w2) }
           | Some a \<Rightarrow>
               Some (s\<lparr>addr := Some a, seg_size := bytes, fd := r_open q, owner := True\<rparr>,
                     w1\<lparr>mapped := (mapped w1)(a \<mapsto> bytes)\<rparr>)))"

definition open_existing :: "answers \<Rightarrow> string \<Rightarrow> nat \<Rightarrow> os \<Rightarrow> (PosixSharedMemory \<times> os) option" where
  "open_existing q nm bytes w =
     (let s = empty_seg\<lparr>seg_name := nm\<rparr> in
      if bytes = 0 then Some (s\<lparr>err := ''requested size is zero''\<rparr>, w)
      else if r_open q < 0 then Some (s\<lparr>err := errno_text ''shm_open'' q\<rparr>, w)
      else
        let w1 = w\<lparr>fds := insert (r_open q) (fds w)\<rparr> in
        (case r_stat q of
           None \<Rightarrow> do { w2 \<leftarrow> os_close (r_open q) w1; Some (s\<lparr>err := errno_text ''fstat'' q\<rparr>, w2) }
         | Some n \<Rightarrow>
             if n < bytes then do {
               w2 \<leftarrow> os_close (r_open q) w1;
               Some (s\<lparr>err := ''segment is smaller than requested mapping''\<rparr>, w2) }
             else
               (case r_map q of
                  None \<Rightarrow> do { w2 \<leftarrow> os_close (r_open q) w1; Some (s\<lparr>err := errno_text ''mmap'' q\<rparr>, w2) }
                | Some a \<Rightarrow>
                    Some (s\<lparr>addr := Some a, seg_size := bytes, fd := r_open q, owner := False\<rparr>,
                          w1\<lparr>mapped := (mapped w1)(a \<mapsto> bytes)\<rparr>))))"

text \<open>The static function \<^verbatim>\<open>unlink\<close> removes a name on behalf of no object.\<close>

definition force_unlink :: "string \<Rightarrow> os \<Rightarrow> bool \<times> os" where
  "force_unlink nm w = (nm \<in> names w, w\<lparr>names := names w - {nm}, forced := insert nm (forced w)\<rparr>)"

section \<open>A process with its segments\<close>

text \<open>
  \<open>objs\<close> are the objects that exist, by variable.  The kernel gives a descriptor that is not open
  and an address that is not mapped, and \<^verbatim>\<open>O_EXCL\<close> succeeds only on a name that is not empty and does
  not exist.  No other process creates or removes names meanwhile.
\<close>

record process =
  objs :: "nat \<rightharpoonup> PosixSharedMemory"
  sys :: os

definition answers_ok :: "answers \<Rightarrow> os \<Rightarrow> bool" where
  "answers_ok q w \<longleftrightarrow> r_open q \<notin> fds w \<and> (\<forall>a. r_map q = Some a \<longrightarrow> mapped w a = None)"

inductive shm_step :: "process \<Rightarrow> process \<Rightarrow> bool" where
  default: "objs p v = None \<Longrightarrow> shm_step p (p\<lparr>objs := (objs p)(v \<mapsto> empty_seg)\<rparr>)"
| created: "objs p v = None \<Longrightarrow> answers_ok q (sys p) \<Longrightarrow> (r_open q \<ge> 0 \<longrightarrow> nm \<notin> names (sys p) \<and> nm \<noteq> []) \<Longrightarrow>
    create_seg q nm bytes (sys p) = Some (s, w) \<Longrightarrow> shm_step p (p\<lparr>objs := (objs p)(v \<mapsto> s), sys := w\<rparr>)"
| opened: "objs p v = None \<Longrightarrow> answers_ok q (sys p) \<Longrightarrow>
    open_existing q nm bytes (sys p) = Some (s, w) \<Longrightarrow> shm_step p (p\<lparr>objs := (objs p)(v \<mapsto> s), sys := w\<rparr>)"
| moved: "objs p v = None \<Longrightarrow> objs p u = Some s \<Longrightarrow> move_construct s = (s1, s2) \<Longrightarrow>
    shm_step p (p\<lparr>objs := (objs p)(v \<mapsto> s1, u \<mapsto> s2)\<rparr>)"
| assigned: "objs p v = Some s \<Longrightarrow> objs p u = Some t \<Longrightarrow> v \<noteq> u \<Longrightarrow> move_assign s t (sys p) = Some (s1, t1, w) \<Longrightarrow>
    shm_step p (p\<lparr>objs := (objs p)(v \<mapsto> s1, u \<mapsto> t1), sys := w\<rparr>)"
| closed: "objs p v = Some s \<Longrightarrow> close_seg s (sys p) = Some (s1, w) \<Longrightarrow>
    shm_step p (p\<lparr>objs := (objs p)(v \<mapsto> s1), sys := w\<rparr>)"
| destroyed: "objs p v = Some s \<Longrightarrow> close_seg s (sys p) = Some (s1, w) \<Longrightarrow>
    shm_step p (p\<lparr>objs := (objs p)(v := None), sys := w\<rparr>)"
| unlinked: "shm_step p (p\<lparr>sys := snd (force_unlink nm (sys p))\<rparr>)"

definition start_process :: "string set \<Rightarrow> process" where
  "start_process nms = \<lparr>objs = Map.empty, sys = no_os nms\<rparr>"

section \<open>The invariant\<close>

definition seg_ok :: "PosixSharedMemory \<Rightarrow> bool" where
  "seg_ok s = (case addr s of None \<Rightarrow> fd s = - 1 \<and> \<not> owner s | Some a \<Rightarrow> fd s \<ge> 0 \<and> (owner s \<longrightarrow> seg_name s \<noteq> []))"

type_synonym holders = "nat \<rightharpoonup> PosixSharedMemory"

text \<open>Everything an object refers to is held, by no other object, and nothing else is held.\<close>

definition refs_ok :: "holders \<Rightarrow> os \<Rightarrow> bool" where
  "refs_ok H w \<longleftrightarrow> (\<forall>v s. H v = Some s \<longrightarrow> seg_ok s)
     \<and> (\<forall>v s a. H v = Some s \<longrightarrow> addr s = Some a \<longrightarrow> mapped w a = Some (seg_size s) \<and> fd s \<in> fds w)
     \<and> (\<forall>v u s t a. H v = Some s \<longrightarrow> H u = Some t \<longrightarrow> v \<noteq> u \<longrightarrow> addr s = Some a \<longrightarrow> addr t \<noteq> Some a \<and> fd t \<noteq> fd s)"

definition no_leak :: "string set \<Rightarrow> holders \<Rightarrow> os \<Rightarrow> bool" where
  "no_leak nms H w \<longleftrightarrow> (\<forall>f\<in>fds w. \<exists>v s. H v = Some s \<and> addr s \<noteq> None \<and> fd s = f)
     \<and> (\<forall>a n. mapped w a = Some n \<longrightarrow> (\<exists>v s. H v = Some s \<and> addr s = Some a))
     \<and> (\<forall>n\<in>names w. n \<in> nms \<or> (\<exists>v s. H v = Some s \<and> owner s \<and> seg_name s = n))"

definition shm_inv :: "string set \<Rightarrow> holders \<Rightarrow> os \<Rightarrow> bool" where
  "shm_inv nms H w \<longleftrightarrow> refs_ok H w \<and> no_leak nms H w"

definition holds_nothing :: "holders \<Rightarrow> nat \<Rightarrow> bool" where
  "holds_nothing H v = (case H v of None \<Rightarrow> True | Some s \<Rightarrow> addr s = None)"

definition closed_seg :: "PosixSharedMemory \<Rightarrow> PosixSharedMemory" where
  "closed_seg s = s\<lparr>addr := None, seg_size := 0, fd := - 1, owner := False\<rparr>"

definition released :: "PosixSharedMemory \<Rightarrow> os \<Rightarrow> os" where
  "released s w = (case addr s of None \<Rightarrow> w
     | Some a \<Rightarrow> (if owner s then os_unlink (seg_name s) else id) (w\<lparr>fds := fds w - {fd s}, mapped := (mapped w)(a := None)\<rparr>))"

lemma released_simps [simp]:
  "fds (released s w) = (if addr s = None then fds w else fds w - {fd s})"
  "mapped (released s w) = (case addr s of None \<Rightarrow> mapped w | Some a \<Rightarrow> (mapped w)(a := None))"
  "names (released s w) = (if addr s \<noteq> None \<and> owner s then names w - {seg_name s} else names w)"
  "made (released s w) = made w" "forced (released s w) = forced w"
  "dropped (released s w) n = (if addr s \<noteq> None \<and> owner s \<and> n = seg_name s then Suc (dropped w n) else dropped w n)"
  by (auto simp: released_def os_unlink_def split: option.splits)

lemma refs_seg: "refs_ok H w \<Longrightarrow> H v = Some s \<Longrightarrow> seg_ok s"
  by (simp add: refs_ok_def)

lemma refs_held:
  assumes "refs_ok H w" "H v = Some s" "addr s = Some a"
  shows "mapped w a = Some (seg_size s)" "fd s \<in> fds w" "0 \<le> fd s" "owner s \<Longrightarrow> seg_name s \<noteq> []"
  using assms refs_seg [OF assms(1,2)] by (simp_all add: refs_ok_def seg_ok_def)

lemma refs_empty:
  assumes "refs_ok H w" "H v = Some s" "addr s = None"
  shows "fd s = - 1" "\<not> owner s"
  using refs_seg [OF assms(1,2)] assms(3) by (simp_all add: seg_ok_def)

lemma refs_apart:
  "refs_ok H w \<Longrightarrow> H v = Some s \<Longrightarrow> H u = Some t \<Longrightarrow> v \<noteq> u \<Longrightarrow> addr s = Some a \<Longrightarrow> addr t \<noteq> Some a \<and> fd t \<noteq> fd s"
  unfolding refs_ok_def by blast

lemma refs_okI:
  assumes "\<And>v s. H v = Some s \<Longrightarrow> seg_ok s"
    and "\<And>v s a. H v = Some s \<Longrightarrow> addr s = Some a \<Longrightarrow> mapped w a = Some (seg_size s) \<and> fd s \<in> fds w"
    and "\<And>v u s t a. H v = Some s \<Longrightarrow> H u = Some t \<Longrightarrow> v \<noteq> u \<Longrightarrow> addr s = Some a \<Longrightarrow> addr t \<noteq> Some a \<and> fd t \<noteq> fd s"
  shows "refs_ok H w"
  using assms unfolding refs_ok_def by blast

lemma close_seg_spec:
  assumes "refs_ok H w" "H v = Some s"
  shows "close_seg s w = Some (closed_seg s, released s w)"
proof (cases "addr s")
  case None
  then show ?thesis
    using refs_empty [OF assms] by (auto simp: close_seg_def closed_seg_def released_def)
next
  case (Some a)
  then show ?thesis
    using refs_held [OF assms Some]
    by (auto simp: close_seg_def closed_seg_def released_def os_munmap_def os_close_def os_unlink_def)
qed

lemma ledger_cong:
  assumes "names w' = names w" "fds w' = fds w" "mapped w' = mapped w"
  shows "refs_ok H w' = refs_ok H w" "no_leak nms H w' = no_leak nms H w"
  using assms by (simp_all add: refs_ok_def no_leak_def)

lemma empty_simps [simp]: "seg_ok (closed_seg s)" "addr (closed_seg s) = None" "seg_ok (moved_from s)" "addr (moved_from s) = None"
  "seg_ok empty_seg" "addr empty_seg = None"
  by (simp_all add: closed_seg_def moved_from_def empty_seg_def seg_ok_def)

text \<open>An object that refers to nothing.\<close>

lemma apart_put_empty:
  assumes "refs_ok H w" "addr s = None" "fd s = - 1" "(H(v \<mapsto> s)) u = Some t" "(H(v \<mapsto> s)) x = Some y" "u \<noteq> x"
    "addr t = Some a"
  shows "addr y \<noteq> Some a \<and> fd y \<noteq> fd t"
proof -
  have u: "H u = Some t" using assms(2,4,7) by (cases "u = v") auto
  show ?thesis
  proof (cases "x = v")
    case True
    then have "y = s" using assms(5) by simp
    then show ?thesis using assms(2,3) refs_held(3) [OF assms(1) u assms(7)] by auto
  next
    case False
    then have "H x = Some y" using assms(5) by simp
    from refs_apart [OF assms(1) u this assms(6,7)] show ?thesis .
  qed
qed

lemma refs_put_empty:
  assumes "refs_ok H w" "addr s = None" "seg_ok s" "holds_nothing H v"
  shows "refs_ok (H(v \<mapsto> s)) w"
proof (rule refs_okI)
  fix u t assume "(H(v \<mapsto> s)) u = Some t"
  then show "seg_ok t" using assms(3) refs_seg [OF assms(1)] by (auto split: if_splits)
next
  fix u t a assume "(H(v \<mapsto> s)) u = Some t" "addr t = Some a"
  then show "mapped w a = Some (seg_size t) \<and> fd t \<in> fds w"
    using assms(2) refs_held [OF assms(1)] by (auto split: if_splits)
next
  fix u x t y a assume "(H(v \<mapsto> s)) u = Some t" "(H(v \<mapsto> s)) x = Some y" "u \<noteq> x" "addr t = Some a"
  moreover have "fd s = - 1" using assms(2,3) by (simp add: seg_ok_def)
  ultimately show "addr y \<noteq> Some a \<and> fd y \<noteq> fd t" by (intro apart_put_empty [OF assms(1,2)])
qed

text \<open>
  Nothing leaks when what is newly held has a holder, and each old holder is still there or has given
  up all that it held.
\<close>

lemma no_leak_step:
  assumes nl: "no_leak nms H w"
    and f: "\<And>f. f \<in> fds w' \<Longrightarrow> f \<in> fds w \<or> (\<exists>v s. H' v = Some s \<and> addr s \<noteq> None \<and> fd s = f)"
    and m: "\<And>a n. mapped w' a = Some n \<Longrightarrow> mapped w a = Some n \<or> (\<exists>v s. H' v = Some s \<and> addr s = Some a)"
    and n: "\<And>x. x \<in> names w' \<Longrightarrow> x \<in> names w \<or> (\<exists>v s. H' v = Some s \<and> owner s \<and> seg_name s = x)"
    and keep: "\<And>u s. H u = Some s \<Longrightarrow> addr s \<noteq> None \<or> owner s \<Longrightarrow> (\<exists>v. H' v = Some s) \<or>
      fd s \<notin> fds w' \<and> (\<forall>a. addr s = Some a \<longrightarrow> mapped w' a = None) \<and> (owner s \<longrightarrow> seg_name s \<notin> names w')"
  shows "no_leak nms H' w'"
  unfolding no_leak_def
proof (intro conjI ballI allI impI)
  fix g assume g: "g \<in> fds w'"
  then consider "\<exists>v s. H' v = Some s \<and> addr s \<noteq> None \<and> fd s = g" | u s where "H u = Some s" "addr s \<noteq> None" "fd s = g"
    using f nl unfolding no_leak_def by blast
  then show "\<exists>v s. H' v = Some s \<and> addr s \<noteq> None \<and> fd s = g" using g keep by cases blast+
next
  fix a k assume a: "mapped w' a = Some k"
  then consider "\<exists>v s. H' v = Some s \<and> addr s = Some a" | u s where "H u = Some s" "addr s = Some a"
    using m nl unfolding no_leak_def by blast
  then show "\<exists>v s. H' v = Some s \<and> addr s = Some a"
  proof cases
    case (2 u s)
    then show ?thesis using keep [of u s] a by auto
  qed
next
  fix x assume x: "x \<in> names w'"
  then consider "x \<in> nms" | "\<exists>v s. H' v = Some s \<and> owner s \<and> seg_name s = x" | u s where "H u = Some s" "owner s" "seg_name s = x"
    using n nl unfolding no_leak_def by blast
  then show "x \<in> nms \<or> (\<exists>v s. H' v = Some s \<and> owner s \<and> seg_name s = x)" using x keep by cases blast+
qed

lemma nothing_idle: "refs_ok H w \<Longrightarrow> holds_nothing H v \<Longrightarrow> H v = Some s \<Longrightarrow> addr s = None \<and> \<not> owner s"
  using refs_empty(2) by (auto simp: holds_nothing_def)

lemma leak_put:
  assumes "refs_ok H w" "no_leak nms H w" "holds_nothing H v"
  shows "no_leak nms (H(v := x)) w"
proof (rule no_leak_step [OF assms(2)])
  fix u s assume "H u = Some s" "addr s \<noteq> None \<or> owner s"
  then show "(\<exists>v'. (H(v := x)) v' = Some s) \<or>
      fd s \<notin> fds w \<and> (\<forall>a. addr s = Some a \<longrightarrow> mapped w a = None) \<and> (owner s \<longrightarrow> seg_name s \<notin> names w)"
    using nothing_idle [OF assms(1,3), of s] by (intro disjI1 exI [of _ u]) auto
qed simp_all

text \<open>Releasing what an object holds.\<close>

lemma refs_release:
  assumes "refs_ok H w" "H v = Some s"
  shows "refs_ok (H(v \<mapsto> closed_seg s)) (released s w)"
proof (rule refs_okI)
  fix u t assume "(H(v \<mapsto> closed_seg s)) u = Some t"
  then show "seg_ok t" using refs_seg [OF assms(1)] by (auto split: if_splits)
next
  fix u t a assume t: "(H(v \<mapsto> closed_seg s)) u = Some t" "addr t = Some a"
  then have u: "u \<noteq> v" "H u = Some t" by (auto split: if_splits)
  note h = refs_held [OF assms(1) u(2) t(2)]
  show "mapped (released s w) a = Some (seg_size t) \<and> fd t \<in> fds (released s w)"
  proof (cases "addr s")
    case (Some b)
    then show ?thesis using h refs_apart [OF assms(1,2) u(2)] u(1) t(2) by auto
  qed (use h in simp)
next
  fix u x t y a
  assume a: "(H(v \<mapsto> closed_seg s)) u = Some t" "(H(v \<mapsto> closed_seg s)) x = Some y" "u \<noteq> x" "addr t = Some a"
  have "fd (closed_seg s) = - 1" by (simp add: closed_seg_def)
  with a show "addr y \<noteq> Some a \<and> fd y \<noteq> fd t" by (intro apart_put_empty [OF assms(1)]) simp_all
qed

lemma leak_release:
  assumes "refs_ok H w" "no_leak nms H w" "H v = Some s"
  shows "no_leak nms (H(v \<mapsto> closed_seg s)) (released s w)"
proof (rule no_leak_step [OF assms(2)])
  fix u t assume t: "H u = Some t" "addr t \<noteq> None \<or> owner t"
  show "(\<exists>v'. (H(v \<mapsto> closed_seg s)) v' = Some t) \<or> fd t \<notin> fds (released s w)
      \<and> (\<forall>a. addr t = Some a \<longrightarrow> mapped (released s w) a = None) \<and> (owner t \<longrightarrow> seg_name t \<notin> names (released s w))"
  proof (cases "u = v")
    case True
    then have "t = s" using t(1) assms(3) by simp
    moreover have "addr s \<noteq> None" using t(2) refs_empty(2) [OF assms(1,3)] calculation by auto
    ultimately show ?thesis by auto
  next
    case False
    then show ?thesis using t(1) by (intro disjI1 exI [of _ u]) simp
  qed
qed (auto split: option.splits if_splits)

lemma refs_remove:
  assumes "refs_ok H w"
  shows "refs_ok (H(v := None)) w"
proof -
  have sub: "H u = Some s" if "(H(v := None)) u = Some s" for u s using that by (cases "u = v") auto
  show ?thesis
  proof (rule refs_okI)
    fix u s assume "(H(v := None)) u = Some s"
    from refs_seg [OF assms sub [OF this]] show "seg_ok s" .
  next
    fix u s a assume "(H(v := None)) u = Some s" "addr s = Some a"
    from refs_held [OF assms sub [OF this(1)] this(2)] show "mapped w a = Some (seg_size s) \<and> fd s \<in> fds w" by simp
  next
    fix u x s t a assume a: "(H(v := None)) u = Some s" "(H(v := None)) x = Some t" "u \<noteq> x" "addr s = Some a"
    from refs_apart [OF assms sub [OF a(1)] sub [OF a(2)] a(3,4)] show "addr t \<noteq> Some a \<and> fd t \<noteq> fd s" .
  qed
qed

text \<open>An object that takes a new descriptor and a new mapping.\<close>

lemma refs_acquire:
  assumes "refs_ok H w" "holds_nothing H v" "seg_ok s" "addr s = Some a" "mapped w a = None" "fd s \<notin> fds w"
  shows "refs_ok (H(v \<mapsto> s)) (w\<lparr>names := N, fds := insert (fd s) (fds w), mapped := (mapped w)(a \<mapsto> seg_size s), made := M\<rparr>)"
    (is "refs_ok _ ?w")
proof -
  have old: "mapped w b = Some (seg_size t)" "fd t \<in> fds w" "b \<noteq> a" "fd t \<noteq> fd s"
    if "H u = Some t" "addr t = Some b" for u t b
    using refs_held [OF assms(1) that] assms(5,6) by auto
  have idle: "fd t = - 1" if "H u = Some t" "addr t = None" for u t using refs_empty(1) [OF assms(1) that] .
  have pos: "0 \<le> fd s" using assms(3,4) by (simp add: seg_ok_def)
  show ?thesis
  proof (rule refs_okI)
    fix u t assume "(H(v \<mapsto> s)) u = Some t"
    then show "seg_ok t" using assms(3) refs_seg [OF assms(1)] by (cases "u = v") auto
  next
    fix u t b assume "(H(v \<mapsto> s)) u = Some t" "addr t = Some b"
    then show "mapped ?w b = Some (seg_size t) \<and> fd t \<in> fds ?w" using assms(4) old [of u t b] by (cases "u = v") auto
  next
    fix u x t y b assume t: "(H(v \<mapsto> s)) u = Some t" "(H(v \<mapsto> s)) x = Some y" "u \<noteq> x" "addr t = Some b"
    consider "u = v" "H x = Some y" "t = s" | "x = v" "H u = Some t" "y = s" | "H u = Some t" "H x = Some y"
      using t by (cases "u = v"; cases "x = v") auto
    then show "addr y \<noteq> Some b \<and> fd y \<noteq> fd t"
    proof cases
      case 1
      then have "b = a" using t(4) assms(4) by simp
      with 1 show ?thesis using old [of x y] idle [of x y] pos by (cases "addr y") auto
    next
      case 2
      then show ?thesis using old [of u t b] t(4) assms(4) by auto
    next
      case 3
      from refs_apart [OF assms(1) this t(3,4)] show ?thesis .
    qed
  qed
qed

lemma leak_acquire:
  assumes "refs_ok H w" "no_leak nms H w" "holds_nothing H v" "addr s = Some a"
    and "N \<subseteq> names w \<or> owner s \<and> N = insert (seg_name s) (names w)"
  shows "no_leak nms (H(v \<mapsto> s)) (w\<lparr>names := N, fds := insert (fd s) (fds w), mapped := (mapped w)(a \<mapsto> n), made := M\<rparr>)"
    (is "no_leak _ ?H ?w")
proof (rule no_leak_step [OF assms(2)])
  have v: "?H v = Some s" by simp
  fix f assume "f \<in> fds ?w"
  then show "f \<in> fds w \<or> (\<exists>v s. ?H v = Some s \<and> addr s \<noteq> None \<and> fd s = f)" using v assms(4) by auto
next
  fix b k assume "mapped ?w b = Some k"
  then show "mapped w b = Some k \<or> (\<exists>v s. ?H v = Some s \<and> addr s = Some b)" using assms(4) by (cases "b = a") auto
next
  fix x assume "x \<in> names ?w"
  then show "x \<in> names w \<or> (\<exists>v s. ?H v = Some s \<and> owner s \<and> seg_name s = x)" using assms(5) by auto
next
  fix u t assume "H u = Some t" "addr t \<noteq> None \<or> owner t"
  then have "?H u = Some t" using nothing_idle [OF assms(1,3), of t] by auto
  then show "(\<exists>v'. ?H v' = Some t) \<or> fd t \<notin> fds ?w \<and> (\<forall>b. addr t = Some b \<longrightarrow> mapped ?w b = None)
      \<and> (owner t \<longrightarrow> seg_name t \<notin> names ?w)" by blast
qed

text \<open>Moving from one object to another.\<close>

lemma refs_transfer:
  assumes "refs_ok H w" "H u = Some s" "u \<noteq> v" "holds_nothing H v"
  shows "refs_ok (H(v \<mapsto> s, u \<mapsto> moved_from s)) w" (is "refs_ok ?H w")
proof -
  define src where "src x = (if x = v then u else x)" for x
  have src: "H (src x) = Some t \<and> x \<noteq> u" if "?H x = Some t" "addr t = Some a" for x t a
    using that assms(2,3) by (auto simp: src_def split: if_splits)
  have inj: "src x \<noteq> src y" if "x \<noteq> y" "x \<noteq> u" "y \<noteq> u" for x y using that by (auto simp: src_def)
  have ok: "seg_ok t" if "?H x = Some t" for x t
    using that refs_seg [OF assms(1)] assms(2) by (auto split: if_splits)
  show ?thesis
  proof (rule refs_okI)
    fix x t assume "?H x = Some t"
    then show "seg_ok t" by (rule ok)
  next
    fix x t a assume "?H x = Some t" "addr t = Some a"
    then show "mapped w a = Some (seg_size t) \<and> fd t \<in> fds w" using src refs_held [OF assms(1)] by blast
  next
    fix x z t y a assume t: "?H x = Some t" "?H z = Some y" "x \<noteq> z" "addr t = Some a"
    note x = src [OF t(1,4)]
    show "addr y \<noteq> Some a \<and> fd y \<noteq> fd t"
    proof (cases "addr y")
      case None
      then have "fd y = - 1" using ok [OF t(2)] by (simp add: seg_ok_def)
      then show ?thesis using None refs_held(3) [OF assms(1) conjunct1 [OF x] t(4)] by auto
    next
      case (Some b)
      note z = src [OF t(2) Some]
      have "src x \<noteq> src z" using inj t(3) x z by blast
      from refs_apart [OF assms(1) conjunct1 [OF x] conjunct1 [OF z] this t(4)] show ?thesis .
    qed
  qed
qed

lemma leak_transfer:
  assumes "refs_ok H w" "no_leak nms H w" "H u = Some s" "u \<noteq> v" "holds_nothing H v"
  shows "no_leak nms (H(v \<mapsto> s, u \<mapsto> moved_from s)) w" (is "no_leak _ ?H w")
proof (rule no_leak_step [OF assms(2)])
  fix x t assume t: "H x = Some t" "addr t \<noteq> None \<or> owner t"
  then have "x \<noteq> v" using nothing_idle [OF assms(1,5), of t] by auto
  then have "?H (if x = u then v else x) = Some t" using t(1) assms(3,4) by auto
  then show "(\<exists>v'. ?H v' = Some t) \<or> fd t \<notin> fds w \<and> (\<forall>a. addr t = Some a \<longrightarrow> mapped w a = None)
      \<and> (owner t \<longrightarrow> seg_name t \<notin> names w)" by blast
qed simp_all

section \<open>Constructions\<close>

text \<open>
  A construction that fails leaves the process as it was and says why; the name it may have created
  it has removed again.
\<close>

definition same_names :: "os \<Rightarrow> os \<Rightarrow> bool" where
  "same_names w w' \<longleftrightarrow> names w' = names w \<and> forced w' = forced w
     \<and> (\<forall>n. made w' n + dropped w n = made w n + dropped w' n)"

definition same_held :: "os \<Rightarrow> os \<Rightarrow> bool" where
  "same_held w w' \<longleftrightarrow> fds w' = fds w \<and> mapped w' = mapped w \<and> same_names w w'"

lemma create_cases:
  assumes "answers_ok q w" "r_open q \<ge> 0 \<longrightarrow> nm \<notin> names w \<and> nm \<noteq> []"
  obtains (fail) s w' where "create_seg q nm bytes w = Some (s, w')" "same_held w w'" "addr s = None" "seg_ok s" "err s \<noteq> []"
  | (made) s a where "create_seg q nm bytes w = Some (s, w\<lparr>names := insert (seg_name s) (names w),
        fds := insert (fd s) (fds w), mapped := (mapped w)(a \<mapsto> seg_size s), made := (made w)(seg_name s := Suc (made w (seg_name s)))\<rparr>)"
      "addr s = Some a" "seg_ok s" "owner s" "mapped w a = None" "fd s \<notin> fds w" "err s = []" "seg_name s \<notin> names w"
proof (cases "bytes = 0 \<or> r_open q < 0")
  case True
  then show ?thesis
    by (intro fail [of "fst (the (create_seg q nm bytes w))" w])
       (auto simp: create_seg_def Let_def empty_seg_def seg_ok_def errno_text_def same_held_def same_names_def)
next
  case False
  then have n: "nm \<notin> names w" "nm \<noteq> []" "r_open q \<notin> fds w" using assms by (auto simp: answers_ok_def)
  show ?thesis
  proof (cases "r_trunc q \<and> r_map q \<noteq> None")
    case True
    then obtain a where a: "r_map q = Some a" by auto
    then have "mapped w a = None" using assms(1) by (simp add: answers_ok_def)
    then show ?thesis
      using False True a n
      by (intro made [of "fst (the (create_seg q nm bytes w))" a])
         (auto simp: create_seg_def Let_def empty_seg_def seg_ok_def os_create_def)
  next
    case F: False
    define w' where "w' = os_unlink nm ((os_create nm (r_open q) w)\<lparr>fds := fds w\<rparr>)"
    have "same_held w w'" using n by (simp add: w'_def same_held_def same_names_def os_create_def os_unlink_def)
    moreover have "os_close (r_open q) (os_create nm (r_open q) w) = Some ((os_create nm (r_open q) w)\<lparr>fds := fds w\<rparr>)"
      using n by (simp add: os_close_def os_create_def)
    ultimately show ?thesis
      using False F
      by (intro fail [of "fst (the (create_seg q nm bytes w))" w'])
         (auto simp: create_seg_def Let_def empty_seg_def seg_ok_def errno_text_def w'_def split: option.splits)
  qed
qed

lemma open_cases:
  assumes "answers_ok q w"
  obtains (fail) s where "open_existing q nm bytes w = Some (s, w)" "addr s = None" "seg_ok s" "err s \<noteq> []"
  | (made) s a where "open_existing q nm bytes w = Some (s, w\<lparr>names := names w,
        fds := insert (fd s) (fds w), mapped := (mapped w)(a \<mapsto> seg_size s), made := made w\<rparr>)"
      "addr s = Some a" "seg_ok s" "\<not> owner s" "mapped w a = None" "fd s \<notin> fds w" "err s = []"
proof (cases "bytes = 0 \<or> r_open q < 0 \<or> r_stat q = None \<or> the (r_stat q) < bytes \<or> r_map q = None")
  case True
  have n: "r_open q \<notin> fds w" using assms by (simp add: answers_ok_def)
  from True n show ?thesis
    by (intro fail [of "fst (the (open_existing q nm bytes w))"])
       (auto simp: open_existing_def Let_def empty_seg_def seg_ok_def errno_text_def os_close_def split: option.splits)
next
  case False
  then obtain a where a: "r_map q = Some a" by auto
  then have "mapped w a = None" "r_open q \<notin> fds w" using assms by (simp_all add: answers_ok_def)
  then show ?thesis
    using False a
    by (intro made [of "fst (the (open_existing q nm bytes w))" a])
       (auto simp: open_existing_def Let_def empty_seg_def seg_ok_def)
qed

lemma created_inv:
  assumes r: "refs_ok ob w0" and l: "no_leak nms ob w0" and none: "holds_nothing ob v"
    and q: "answers_ok q w0" "r_open q \<ge> 0 \<longrightarrow> nm \<notin> names w0 \<and> nm \<noteq> []" and c: "create_seg q nm bytes w0 = Some (s, w)"
  shows "shm_inv nms (ob(v \<mapsto> s)) w"
  using q
proof (cases rule: create_cases [where bytes = bytes])
  case (fail t w')
  then show ?thesis
    using c refs_put_empty [OF r _ _ none] leak_put [OF r l none] ledger_cong [of w' w0]
    by (simp add: shm_inv_def same_held_def same_names_def)
next
  case (made t a)
  then show ?thesis
    using c refs_acquire [OF r none made(3,2,5,6)] leak_acquire [OF r l none made(2)] by (simp add: shm_inv_def)
qed

lemma opened_inv:
  assumes r: "refs_ok ob w0" and l: "no_leak nms ob w0" and none: "holds_nothing ob v"
    and q: "answers_ok q w0" and c: "open_existing q nm bytes w0 = Some (s, w)"
  shows "shm_inv nms (ob(v \<mapsto> s)) w"
  using q
proof (cases rule: open_cases [where bytes = bytes and nm = nm])
  case fail
  then show ?thesis using c refs_put_empty [OF r _ _ none] leak_put [OF r l none] by (simp add: shm_inv_def)
next
  case (made t a)
  then show ?thesis
    using c refs_acquire [OF r none made(3,2,5,6), where N = "names w0" and M = "os.made w0"]
      leak_acquire [OF r l none made(2), where N = "names w0" and M = "os.made w0"]
    by (simp add: shm_inv_def)
qed

lemma shm_step_inv:
  assumes inv: "shm_inv nms (objs p) (sys p)" and "shm_step p p'"
  shows "shm_inv nms (objs p') (sys p')"
proof -
  have r: "refs_ok (objs p) (sys p)" and l: "no_leak nms (objs p) (sys p)" using inv by (simp_all add: shm_inv_def)
  have none: "holds_nothing (objs p) v" if "objs p v = None" for v using that by (simp add: holds_nothing_def)
  have rel: "holds_nothing ((objs p)(v \<mapsto> closed_seg s)) v" for v s by (simp add: holds_nothing_def)
  show ?thesis
    using assms(2)
  proof cases
    case (default v)
    then show ?thesis using refs_put_empty [OF r _ _ none] leak_put [OF r l none] by (simp add: shm_inv_def)
  next
    case (created v q nm bytes s w)
    then show ?thesis using created_inv [OF r l none] by simp
  next
    case (opened v q nm bytes s w)
    then show ?thesis using opened_inv [OF r l none] by simp
  next
    case (moved v u s s1 s2)
    have e: "s1 = s" "s2 = moved_from s" "u \<noteq> v" using moved by (auto simp: move_construct_def)
    show ?thesis
      using refs_transfer [OF r moved(3) e(3) none [OF moved(2)]] leak_transfer [OF r l moved(3) e(3) none [OF moved(2)]]
        moved(1) by (simp add: shm_inv_def e)
  next
    case (assigned v s u t s1 t1 w)
    note c = close_seg_spec [OF r assigned(2)]
    note r' = refs_release [OF r assigned(2)] and l' = leak_release [OF r l assigned(2)]
    have u: "((objs p)(v \<mapsto> closed_seg s)) u = Some t" "u \<noteq> v" using assigned(3,4) by auto
    have w: "s1 = t" "t1 = moved_from t" "w = released s (sys p)" using assigned(5) c by (auto simp: move_assign_def)
    show ?thesis
      using refs_transfer [OF r' u rel] leak_transfer [OF r' l' u rel] assigned(1) by (simp add: shm_inv_def w)
  next
    case (closed v s s1 w)
    then show ?thesis
      using close_seg_spec [OF r closed(2)] refs_release [OF r closed(2)] leak_release [OF r l closed(2)]
      by (simp add: shm_inv_def)
  next
    case (destroyed v s s1 w)
    have w: "w = released s (sys p)" using destroyed(3) close_seg_spec [OF r destroyed(2)] by simp
    note r' = refs_release [OF r destroyed(2)] and l' = leak_release [OF r l destroyed(2)]
    have "refs_ok ((objs p)(v := None)) w" using refs_remove [OF r', of v] by (simp add: w)
    then show ?thesis using leak_put [OF r' l' rel, of None] destroyed(1) by (simp add: shm_inv_def w)
  next
    case (unlinked nm)
    then show ?thesis using r l by (auto simp: shm_inv_def refs_ok_def no_leak_def force_unlink_def)
  qed
qed

section \<open>The names\<close>

text \<open>
  Every creation of a name is matched by one removal or by one object that owns it.  A name that
  was never removed by the static function exists exactly if it was there at the start or is
  owned, it has at most one owner, and none if it was there at the start.
\<close>

definition owners :: "holders \<Rightarrow> string \<Rightarrow> nat set" where
  "owners H n = {v. \<exists>s. H v = Some s \<and> owner s \<and> seg_name s = n}"

definition names_inv :: "string set \<Rightarrow> holders \<Rightarrow> os \<Rightarrow> bool" where
  "names_inv nms H w \<longleftrightarrow> finite (dom H) \<and> (\<forall>n. made w n = dropped w n + card (owners H n)
     \<and> (n \<notin> forced w \<longrightarrow> (n \<in> names w \<longleftrightarrow> n \<in> nms \<or> owners H n \<noteq> {}) \<and> card (owners H n) \<le> 1
         \<and> (n \<in> nms \<longrightarrow> owners H n = {})))"

lemma owners_finite: "finite (dom H) \<Longrightarrow> finite (owners H n)"
  by (rule finite_subset [of _ "dom H"]) (auto simp: owners_def)

lemma owners_put: "owners (H(v := x)) n = (case x of Some s \<Rightarrow> if owner s \<and> seg_name s = n then insert v (owners H n)
    else owners H n - {v} | None \<Rightarrow> owners H n - {v})"
  by (auto simp: owners_def split: option.splits)

lemma names_same:
  assumes "names_inv nms H w" "same_names w w'" "finite (dom H')" "\<And>n. owners H' n = owners H n"
  shows "names_inv nms H' w'"
  unfolding names_inv_def
proof (intro conjI allI)
  fix n
  have "made w' n + dropped w n = made w n + dropped w' n" "made w n = dropped w n + card (owners H n)"
    using assms(1,2) unfolding names_inv_def same_names_def by blast+
  then show "made w' n = dropped w' n + card (owners H' n)" by (simp add: assms(4))
qed (use assms in \<open>auto simp: names_inv_def same_names_def\<close>)

lemma owners_idle: "refs_ok H w \<Longrightarrow> holds_nothing H v \<Longrightarrow> v \<notin> owners H n"
  using nothing_idle by (fastforce simp: owners_def)

lemma same_names_refl [simp]: "same_names w w"
  by (simp add: same_names_def)

lemma names_idle:
  assumes "names_inv nms H w" "refs_ok H w" "holds_nothing H v" "\<And>s. x = Some s \<Longrightarrow> \<not> owner s" "same_names w w'"
  shows "names_inv nms (H(v := x)) w'"
  by (rule names_same [OF assms(1,5)])
     (use assms(1,4) owners_idle [OF assms(2,3)] in \<open>auto simp: names_inv_def owners_put split: option.splits\<close>)

lemma names_create:
  assumes "names_inv nms H w" "refs_ok H w" "holds_nothing H v" "owner s" "seg_name s \<notin> names w"
    and "names w' = insert (seg_name s) (names w)" "made w' = (made w)(seg_name s := Suc (made w (seg_name s)))"
    and "dropped w' = dropped w" "forced w' = forced w"
  shows "names_inv nms (H(v \<mapsto> s)) w'"
proof -
  note v = owners_idle [OF assms(2,3)]
  have f: "finite (dom H)" using assms(1) by (simp add: names_inv_def)
  have o: "owners (H(v \<mapsto> s)) n = (if n = seg_name s then insert v (owners H n) else owners H n)" for n
    using v assms(4) by (auto simp: owners_put)
  have "owners H (seg_name s) = {} \<and> seg_name s \<notin> nms" if "seg_name s \<notin> forced w"
    using assms(1,5) that by (auto simp: names_inv_def)
  then show ?thesis
    using assms(1,6-9) v owners_finite [OF f] by (auto simp: names_inv_def o)
qed

lemma names_release:
  assumes "names_inv nms H w" "refs_ok H w" "H v = Some s"
  shows "names_inv nms (H(v \<mapsto> closed_seg s)) (released s w)"
proof (cases "owner s")
  case False
  then have "owners (H(v \<mapsto> closed_seg s)) n = owners H n" for n
    using assms(3) by (auto simp: owners_put closed_seg_def owners_def)
  then show ?thesis using assms(1) False by (intro names_same [OF assms(1)]) (auto simp: same_names_def names_inv_def)
next
  case True
  then have a: "addr s \<noteq> None" using refs_empty(2) [OF assms(2,3)] by blast
  have f: "finite (dom H)" using assms(1) by (simp add: names_inv_def)
  have v: "v \<in> owners H (seg_name s)" "\<And>n. n \<noteq> seg_name s \<Longrightarrow> v \<notin> owners H n"
    using True assms(3) by (auto simp: owners_def)
  have o: "owners (H(v \<mapsto> closed_seg s)) n = (if n = seg_name s then owners H n - {v} else owners H n)" for n
    using v by (auto simp: owners_put closed_seg_def)
  have "card (owners H (seg_name s)) = Suc (card (owners H (seg_name s) - {v}))"
    using card.remove [OF owners_finite [OF f] v(1)] .
  moreover have "owners H (seg_name s) - {v} = {} \<and> seg_name s \<notin> nms" if "seg_name s \<notin> forced w"
  proof -
    have "card (owners H (seg_name s)) \<le> 1" "seg_name s \<in> nms \<longrightarrow> owners H (seg_name s) = {}"
      using assms(1) that unfolding names_inv_def by blast+
    moreover from calculation(1) have "card (owners H (seg_name s) - {v}) = 0" using \<open>card _ = Suc _\<close> by simp
    then have "owners H (seg_name s) - {v} = {}" using owners_finite [OF f, of "seg_name s"] by (simp only: card_0_eq finite_Diff)
    ultimately show ?thesis using v(1) by blast
  qed
  ultimately show ?thesis
    using assms(1) True a by (auto simp: names_inv_def o)
qed

lemma names_transfer:
  assumes "names_inv nms H w" "refs_ok H w" "H u = Some s" "u \<noteq> v" "holds_nothing H v"
  shows "names_inv nms (H(v \<mapsto> s, u \<mapsto> moved_from s)) w" (is "names_inv _ ?H _")
proof -
  note v = owners_idle [OF assms(2,5)]
  have f: "finite (dom H)" using assms(1) by (simp add: names_inv_def)
  have o: "owners ?H n = (if owner s \<and> seg_name s = n then insert v (owners H n - {u}) else owners H n)" for n
    using v assms(3,4) by (auto simp: owners_put moved_from_def owners_def)
  have u: "owner s \<Longrightarrow> u \<in> owners H (seg_name s)" using assms(3) by (auto simp: owners_def)
  have "card (owners ?H n) = card (owners H n)" for n
    using v u owners_finite [OF f] card.remove [of "owners H n" u] by (auto simp: o)
  moreover have "owners ?H n = {} \<longleftrightarrow> owners H n = {}" for n using u by (auto simp: o)
  ultimately show ?thesis using assms(1) by (simp add: names_inv_def)
qed

lemma created_names:
  assumes n: "names_inv nms ob w0" and r: "refs_ok ob w0" and none: "holds_nothing ob v"
    and q: "answers_ok q w0" "r_open q \<ge> 0 \<longrightarrow> nm \<notin> names w0 \<and> nm \<noteq> []" and c: "create_seg q nm bytes w0 = Some (s, w)"
  shows "names_inv nms (ob(v \<mapsto> s)) w"
  using q
proof (cases rule: create_cases [where bytes = bytes])
  case (fail t w')
  then show ?thesis using c by (intro names_idle [OF n r none]) (auto simp: seg_ok_def same_held_def)
next
  case (made t a)
  then show ?thesis using c by (intro names_create [OF n r none]) auto
qed

lemma opened_names:
  assumes n: "names_inv nms ob w0" and r: "refs_ok ob w0" and none: "holds_nothing ob v"
    and q: "answers_ok q w0" and c: "open_existing q nm bytes w0 = Some (s, w)"
  shows "names_inv nms (ob(v \<mapsto> s)) w"
  using q
proof (cases rule: open_cases [where bytes = bytes and nm = nm])
  case (fail t)
  then show ?thesis using c by (intro names_idle [OF n r none]) (auto simp: seg_ok_def same_held_def)
next
  case (made t a)
  then have "names_inv nms (ob(v \<mapsto> s)) w0" using c by (intro names_idle [OF n r none]) auto
  moreover have "names w = names w0" "os.made w = os.made w0" "dropped w = dropped w0" "forced w = forced w0"
    using c made(1) by auto
  ultimately show ?thesis by (simp add: names_inv_def)
qed

lemma shm_step_names:
  assumes inv: "names_inv nms (objs p) (sys p)" and r: "refs_ok (objs p) (sys p)" and "shm_step p p'"
  shows "names_inv nms (objs p') (sys p')"
proof -
  have none: "holds_nothing (objs p) v" if "objs p v = None" for v using that by (simp add: holds_nothing_def)
  have rel: "holds_nothing ((objs p)(v \<mapsto> closed_seg s)) v" for v s by (simp add: holds_nothing_def)
  show ?thesis
    using assms(3)
  proof cases
    case (default v)
    then show ?thesis using names_idle [OF inv r none, of v "Some empty_seg"] by (simp add: empty_seg_def)
  next
    case (created v q nm bytes s w)
    then show ?thesis using created_names [OF inv r none] by simp
  next
    case (opened v q nm bytes s w)
    then show ?thesis using opened_names [OF inv r none] by simp
  next
    case (moved v u s s1 s2)
    have e: "s1 = s" "s2 = moved_from s" "u \<noteq> v" using moved by (auto simp: move_construct_def)
    show ?thesis using names_transfer [OF inv r moved(3) e(3) none [OF moved(2)]] moved(1) by (simp add: e)
  next
    case (assigned v s u t s1 t1 w)
    have u: "((objs p)(v \<mapsto> closed_seg s)) u = Some t" "u \<noteq> v" using assigned(3,4) by auto
    have w: "s1 = t" "t1 = moved_from t" "w = released s (sys p)"
      using assigned(5) close_seg_spec [OF r assigned(2)] by (auto simp: move_assign_def)
    show ?thesis
      using names_transfer [OF names_release [OF inv r assigned(2)] refs_release [OF r assigned(2)] u rel] assigned(1)
      by (simp add: w)
  next
    case (closed v s s1 w)
    then show ?thesis using close_seg_spec [OF r closed(2)] names_release [OF inv r closed(2)] by simp
  next
    case (destroyed v s s1 w)
    have w: "w = released s (sys p)" using destroyed(3) close_seg_spec [OF r destroyed(2)] by simp
    show ?thesis
      using names_idle [OF names_release [OF inv r destroyed(2)] refs_release [OF r destroyed(2)] rel, of None] destroyed(1)
      by (simp add: w)
  next
    case (unlinked nm)
    then show ?thesis using inv by (auto simp: names_inv_def force_unlink_def)
  qed
qed

interpretation shm_sys: invariant_system "\<lambda>p. p = start_process nms" shm_step "\<lambda>p. shm_inv nms (objs p) (sys p) \<and> names_inv nms (objs p) (sys p)" for nms
proof (unfold_locales, goal_cases)
  case (1 p)
  then show ?case
    by (simp add: shm_inv_def refs_ok_def no_leak_def names_inv_def owners_def start_process_def no_os_def)
next
  case (2 p p')
  then show ?case using shm_step_inv [of nms p p'] shm_step_names [of nms p p'] by (simp add: shm_inv_def)
qed

section \<open>Properties\<close>

text \<open>
  (C23) The process owns what it holds exactly once, whatever segments it creates, opens, moves, assigns,
  closes and destroys and whatever the system calls answer: closing any object at any time
  releases a mapping and a descriptor that are held (never twice, and closing again is harmless).
  Every name it created was removed by exactly one object or is owned by exactly one that is left,
  so an object that only attached never removes one.  Unless the static \<^verbatim>\<open>unlink\<close> was called for
  it, a name exists exactly if it was there at the start or is owned, and no two objects own it.
  Once no object is left, no descriptor and no mapping is, and the names are those of the start.
\<close>

theorem shm_raii:
  assumes "reach (\<lambda>p. p = start_process nms) shm_step p"
  shows "(\<forall>v s. objs p v = Some s \<longrightarrow> (\<exists>s' w'. close_seg s (sys p) = Some (s', w') \<and> \<not> seg_valid s'
        \<and> close_seg s' w' = Some (s', w')))
    \<and> (\<forall>n. made (sys p) n = dropped (sys p) n + card (owners (objs p) n))
    \<and> (\<forall>n. n \<notin> forced (sys p) \<longrightarrow> (n \<in> names (sys p) \<longleftrightarrow> n \<in> nms \<or> owners (objs p) n \<noteq> {}) \<and> card (owners (objs p) n) \<le> 1)
    \<and> (objs p = Map.empty \<longrightarrow> fds (sys p) = {} \<and> mapped (sys p) = Map.empty \<and> names (sys p) \<subseteq> nms
        \<and> nms - forced (sys p) \<subseteq> names (sys p) \<and> made (sys p) = dropped (sys p))"
proof -
  have r: "refs_ok (objs p) (sys p)" and l: "no_leak nms (objs p) (sys p)" and n: "names_inv nms (objs p) (sys p)"
    using shm_sys.reach_inv [OF assms] by (simp_all add: shm_inv_def)
  have again: "close_seg (closed_seg s) w = Some (closed_seg s, w)" for s w
    by (simp add: close_seg_def closed_seg_def)
  have "\<exists>s' w'. close_seg s (sys p) = Some (s', w') \<and> \<not> seg_valid s' \<and> close_seg s' w' = Some (s', w')"
    if "objs p v = Some s" for v s
    using close_seg_spec [OF r that] again by (auto simp: seg_valid_def)
  moreover have "fds (sys p) = {} \<and> mapped (sys p) = Map.empty \<and> names (sys p) \<subseteq> nms" if "objs p = Map.empty"
    using l that by (auto simp: no_leak_def fun_eq_iff not_None_eq [symmetric] simp del: not_None_eq)
  moreover have "nms - forced (sys p) \<subseteq> names (sys p) \<and> made (sys p) = dropped (sys p)" if "objs p = Map.empty"
    using n that by (auto simp: names_inv_def owners_def fun_eq_iff)
  moreover have "\<forall>n. made (sys p) n = dropped (sys p) n + card (owners (objs p) n)"
    "\<forall>n. n \<notin> forced (sys p) \<longrightarrow> (n \<in> names (sys p) \<longleftrightarrow> n \<in> nms \<or> owners (objs p) n \<noteq> {}) \<and> card (owners (objs p) n) \<le> 1"
    using n unfolding names_inv_def by blast+
  ultimately show ?thesis by blast
qed

definition demo_answers :: answers where
  "demo_answers = \<lparr>r_open = 3, r_trunc = True, r_stat = None, r_map = Some 4096, r_errno = []\<rparr>"

definition demo_seg :: PosixSharedMemory where
  "demo_seg = \<lparr>addr = Some 4096, seg_size = 64, fd = 3, owner = True, seg_name = ''/x'', err = []\<rparr>"

theorem shm_raii_witness:
  "\<exists>p. reach (\<lambda>p. p = start_process {}) shm_step p \<and> objs p 0 = Some demo_seg \<and> made (sys p) ''/x'' = 1 \<and>
     dropped (sys p) ''/x'' = 0 \<and> (\<exists>s' w'. close_seg demo_seg (sys p) = Some (s', w') \<and> \<not> seg_valid s')"
proof -
  let ?w = "(os_create ''/x'' 3 (no_os {}))\<lparr>mapped := [4096 \<mapsto> 64]\<rparr>"
  let ?p = "\<lparr>objs = [0 \<mapsto> demo_seg], sys = ?w\<rparr>"
  have "create_seg demo_answers ''/x'' 64 (sys (start_process {})) = Some (demo_seg, ?w)"
    by (simp add: create_seg_def demo_answers_def demo_seg_def empty_seg_def start_process_def no_os_def os_create_def Let_def)
  then have "shm_step (start_process {}) ((start_process {})\<lparr>objs := (objs (start_process {}))(0 \<mapsto> demo_seg), sys := ?w\<rparr>)"
    by (intro shm_step.created [where q = demo_answers])
       (simp_all add: answers_ok_def demo_answers_def start_process_def no_os_def)
  then have step: "shm_step (start_process {}) ?p" by (simp add: start_process_def)
  have "reach (\<lambda>p. p = start_process {}) shm_step (start_process {})" by (rule reach.start) simp
  from reach.more [OF this step] have re: "reach (\<lambda>p. p = start_process {}) shm_step ?p" .
  have o: "owners (objs ?p) ''/x'' = {0}" by (auto simp: owners_def demo_seg_def)
  have "\<exists>s' w'. close_seg demo_seg (sys ?p) = Some (s', w') \<and> \<not> seg_valid s'"
    using shm_raii [OF re, THEN conjunct1, rule_format, of 0 demo_seg] by auto
  moreover have "made (sys ?p) ''/x'' = dropped (sys ?p) ''/x'' + card (owners (objs ?p) ''/x'')"
    using shm_raii [OF re, THEN conjunct2, THEN conjunct1, rule_format] .
  moreover have "made (sys ?p) ''/x'' = 1" by (simp add: os_create_def no_os_def)
  moreover have "objs ?p 0 = Some demo_seg" by simp
  ultimately show ?thesis using re o by (intro exI [of _ ?p] conjI) (assumption | simp)+
qed

text \<open>
  A construction that fails, at whichever system call, leaves descriptors, mappings and names as
  they were and returns an invalid segment with an error text; one that succeeds returns a valid
  segment without one, and only a created segment owns its name.
\<close>

theorem shm_construction:
  assumes "answers_ok q w" "r_open q \<ge> 0 \<longrightarrow> nm \<notin> names w \<and> nm \<noteq> []"
  shows "(\<exists>s w'. create_seg q nm bytes w = Some (s, w') \<and> (seg_valid s \<longleftrightarrow> err s = []) \<and> (\<not> seg_valid s \<longrightarrow> same_held w w')
        \<and> (owner s \<longleftrightarrow> seg_valid s))
    \<and> (\<exists>s w'. open_existing q nm bytes w = Some (s, w') \<and> (seg_valid s \<longleftrightarrow> err s = []) \<and> (\<not> seg_valid s \<longrightarrow> w' = w)
        \<and> \<not> owner s)"
proof (rule conjI)
  show "\<exists>s w'. create_seg q nm bytes w = Some (s, w') \<and> (seg_valid s \<longleftrightarrow> err s = []) \<and> (\<not> seg_valid s \<longrightarrow> same_held w w')
        \<and> (owner s \<longleftrightarrow> seg_valid s)"
    using assms by (cases rule: create_cases [where bytes = bytes]) (auto simp: seg_valid_def seg_ok_def)
  show "\<exists>s w'. open_existing q nm bytes w = Some (s, w') \<and> (seg_valid s \<longleftrightarrow> err s = []) \<and> (\<not> seg_valid s \<longrightarrow> w' = w)
        \<and> \<not> owner s"
    using assms(1) by (cases rule: open_cases [where bytes = bytes and nm = nm]) (auto simp: seg_valid_def seg_ok_def)
qed

theorem shm_construction_witness:
  "\<exists>s w'. create_seg (demo_answers\<lparr>r_map := None\<rparr>) ''/x'' 64 (no_os {}) = Some (s, w') \<and> \<not> seg_valid s \<and> fds w' = {}"
proof -
  let ?q = "demo_answers\<lparr>r_map := None\<rparr>"
  have "answers_ok ?q (no_os {})" by (simp add: answers_ok_def no_os_def)
  moreover have "r_open ?q \<ge> 0 \<longrightarrow> ''/x'' \<notin> names (no_os {}) \<and> ''/x'' \<noteq> []" by (simp add: no_os_def)
  ultimately obtain s w' where s: "create_seg ?q ''/x'' 64 (no_os {}) = Some (s, w')" "\<not> seg_valid s \<longrightarrow> same_held (no_os {}) w'"
    using shm_construction [of ?q "no_os {}" "''/x''" 64] by blast
  moreover have "\<not> seg_valid s"
    using s(1) by (simp add: create_seg_def demo_answers_def os_close_def os_create_def) (auto simp: seg_valid_def empty_seg_def)
  ultimately show ?thesis by (auto simp: same_held_def no_os_def)
qed

text \<open>
  A segment that was closed is invalid and has no error text, as is one that was never opened.
\<close>

lemma closed_without_error:
  "\<exists>s w. close_seg demo_seg ((no_os {''/x''})\<lparr>fds := {3}, mapped := [4096 \<mapsto> 64]\<rparr>) = Some (s, w) \<and> \<not> seg_valid s \<and> err s = []"
  by (simp add: close_seg_def demo_seg_def os_munmap_def os_close_def os_unlink_def seg_valid_def)

end
