(* ===== verification/Shm_Ipc.thy ===== *)
theory Shm_Ipc
  imports Posix_Shm
begin

text \<open>
  The two processes of \<^verbatim>\<open>apps/shm_ipc_posix.cpp\<close>: the layout of their segment, the stream with its
  checksum, and the echo.  Each wait for a message is one element of a list, in the order of the
  waits: the message, or \<open>None\<close> when the deadline passed first; the end of the list is a wait that
  has not ended.  Times and printing are left out.
\<close>

section \<open>Messages and layout\<close>

record Msg =
  seq :: u64
  body :: u64

definition kSentinel :: u64 where
  "kSentinel = - 1"

definition kMsgSize :: nat where
  "kMsgSize = 16"

definition round_up_64 :: "u64 \<Rightarrow> u64" where
  "round_up_64 n = (n + 63) AND NOT 63"

definition mix :: "u64 \<Rightarrow> u64" where
  "mix i = i * 0x9E3779B97F4A7C15 + 0x1234567"

text \<open>The capacity test of \<^verbatim>\<open>main\<close>, and the two rings behind one another.\<close>

definition capacity_usable :: "u32 \<Rightarrow> bool" where
  "capacity_usable cap \<longleftrightarrow> \<not> (cap < 2 \<or> cap AND (cap - 1) \<noteq> 0)"

definition ring_bytes :: "u32 \<Rightarrow> u64" where
  "ring_bytes cap = round_up_64 (bytes_needed kMsgSize cap)"

definition seg_bytes :: "u32 \<Rightarrow> u64" where
  "seg_bytes cap = ring_bytes cap * 2"

text \<open>
  The beginning of \<^verbatim>\<open>main\<close>: the capacity, the segment, the two rings and the fork; \<open>Inl\<close> is an early
  return.  \<open>sg1\<close> and \<open>sg2\<close> are the two halves of the segment that was mapped at \<open>base\<close>.
\<close>

definition ipc_setup :: "u32 \<Rightarrow> bool \<Rightarrow> u64 \<Rightarrow> segment \<Rightarrow> segment \<Rightarrow> int \<Rightarrow>
    int + (ShmSpscRing \<times> ShmSpscRing \<times> segment \<times> segment)" where
  "ipc_setup cap mapped_ok base sg1 sg2 pid =
     (if \<not> capacity_usable cap then Inl 1
      else if \<not> mapped_ok then Inl 1
      else
        case create kMsgSize base (ring_bytes cap) cap fresh_handle sg1 of (st1, r1, sg1') \<Rightarrow>
        if st1 \<noteq> Ok then Inl 1
        else
          case create kMsgSize (base + ring_bytes cap) (ring_bytes cap) cap fresh_handle sg2 of (st2, r2, sg2') \<Rightarrow>
          if st2 \<noteq> Ok then Inl 1
          else if pid < 0 then Inl 1
          else Inr (r1, r2, sg1', sg2'))"

section \<open>The processes\<close>

datatype 'a waiting = Blocked | TimedOut | Finished 'a

text \<open>
  \<^verbatim>\<open>pop_blocking\<close> and \<^verbatim>\<open>push_blocking\<close>: one attempt after the other, and after each failure the clock.
\<close>

fun blocking :: "('a option \<times> bool) list \<Rightarrow> 'a waiting" where
  "blocking [] = Blocked"
| "blocking ((Some x, late) # ps) = Finished x"
| "blocking ((None, late) # ps) = (if late then TimedOut else blocking ps)"

text \<open>Phase 1 of the reader, with the running count and checksum.\<close>

fun read_stream :: "Msg option list \<Rightarrow> u64 \<Rightarrow> u64 \<Rightarrow> (u64 \<times> u64 \<times> Msg option list) waiting" where
  "read_stream [] count checksum = Blocked"
| "read_stream (None # ps) count checksum = TimedOut"
| "read_stream (Some m # ps) count checksum =
     (if seq m = kSentinel then Finished (count, checksum, ps)
      else read_stream ps (count + 1) (checksum XOR (body m + seq m)))"

text \<open>Phase 2: each message goes back; the second component says whether it could be pushed.\<close>

fun echo :: "(Msg option \<times> bool) list \<Rightarrow> Msg list \<Rightarrow> Msg list waiting" where
  "echo [] sent_back = Blocked"
| "echo ((None, ok) # ps) sent_back = TimedOut"
| "echo ((Some m, ok) # ps) sent_back =
     (if seq m = kSentinel then Finished sent_back
      else if \<not> ok then TimedOut else echo ps (sent_back @ [m]))"

text \<open>The exit status of the reader; \<open>None\<close> while it waits.\<close>

definition run_reader :: "bool \<Rightarrow> ShmAttachStatus \<Rightarrow> ShmAttachStatus \<Rightarrow> Msg option list \<Rightarrow> bool \<Rightarrow> bool list \<Rightarrow> int option" where
  "run_reader opened st1 st2 pops acked pushes =
     (if \<not> opened then Some 2
      else if st1 \<noteq> Ok \<or> st2 \<noteq> Ok then Some 2
      else
        case read_stream pops 0 0 of
          Blocked \<Rightarrow> None
        | TimedOut \<Rightarrow> Some 3
        | Finished (count, checksum, ps) \<Rightarrow>
            if \<not> acked then Some 3
            else
              (case echo (zip ps pushes) [] of Blocked \<Rightarrow> None | TimedOut \<Rightarrow> Some 3 | Finished out \<Rightarrow> Some 0))"

text \<open>Phase 1 of the writer: the messages it pushes and the checksum it expects.\<close>

definition stream_msg :: "u64 \<Rightarrow> Msg" where
  "stream_msg i = \<lparr>seq = i, body = mix i\<rparr>"

definition stream_messages :: "u64 \<Rightarrow> Msg list" where
  "stream_messages n = map (\<lambda>i. stream_msg (of_nat i)) [0..<unat n] @ [\<lparr>seq = kSentinel, body = 0\<rparr>]"

definition expect_checksum :: "u64 \<Rightarrow> u64" where
  "expect_checksum n = fold (\<lambda>i c. c XOR (body (stream_msg (of_nat i)) + seq (stream_msg (of_nat i)))) [0..<unat n] 0"

definition stream_ok :: "u64 \<Rightarrow> Msg \<Rightarrow> bool" where
  "stream_ok n ack \<longleftrightarrow> seq ack = n \<and> body ack = expect_checksum n"

section \<open>The stream\<close>

lemma read_stream_messages:
  assumes "\<forall>m\<in>set ms. seq m \<noteq> kSentinel"
  shows "read_stream (map Some ms @ ps) count checksum =
    read_stream ps (count + of_nat (length ms)) (fold (\<lambda>m c. c XOR (body m + seq m)) ms checksum)"
  using assms by (induction ms arbitrary: count checksum) (simp_all add: algebra_simps)

lemma below_sentinel:
  assumes "i < unat (n :: u64)"
  shows "(of_nat i :: u64) \<noteq> kSentinel"
proof -
  have "unat n \<le> 2 ^ 64 - 1" using unsigned_less [where 'a = nat, of n] by simp
  then have "unat (of_nat i :: u64) < 2 ^ 64 - 1" using assms by (simp add: unat_of_nat)
  moreover have "unat kSentinel = 2 ^ 64 - 1" by (simp add: kSentinel_def unsigned_minus_1_eq_mask mask_eq_exp_minus_1)
  ultimately show ?thesis by auto
qed

text \<open>
  The reader of a complete stream acknowledges it with the writer's own count and checksum, for
  every number of messages, the largest included: no sequence number is taken for the sentinel.
\<close>

theorem ipc_stream_verified:
  "\<exists>ack. read_stream (map Some (stream_messages n) @ ps) 0 0 = Finished (seq ack, body ack, ps) \<and> stream_ok n ack"
proof -
  let ?ms = "map (\<lambda>i. stream_msg (of_nat i)) [0..<unat n]"
  have "\<forall>m\<in>set ?ms. seq m \<noteq> kSentinel" by (auto simp: stream_msg_def dest: below_sentinel)
  from read_stream_messages [OF this, of "Some \<lparr>seq = kSentinel, body = 0\<rparr> # ps" 0 0]
  have "read_stream (map Some (stream_messages n) @ ps) 0 0 = Finished (n, expect_checksum n, ps)"
    by (simp add: stream_messages_def expect_checksum_def fold_map comp_def)
  then show ?thesis by (intro exI [of _ "\<lparr>seq = n, body = expect_checksum n\<rparr>"]) (simp add: stream_ok_def)
qed

text \<open>Everything is echoed in order until the sentinel.\<close>

lemma echo_all:
  assumes "\<forall>m\<in>set ms. seq m \<noteq> kSentinel"
  shows "echo (map (\<lambda>m. (Some m, True)) ms @ [(Some \<lparr>seq = kSentinel, body = 0\<rparr>, ok)]) out = Finished (out @ ms)"
  using assms by (induction ms arbitrary: out) simp_all

section \<open>The layout\<close>

lemma and_not_63: "unat (x AND NOT 63 :: u64) = unat x - unat x mod 64"
proof -
  have m: "(63 :: u64) = mask 6" by (simp add: mask_eq_exp_minus_1)
  have "(x AND NOT 63) AND take_bit 6 x = 0" unfolding m by (rule bit_eqI) (auto simp: bit_simps)
  then have "(x AND NOT 63) + take_bit 6 x = (x AND NOT 63) OR take_bit 6 x" by (simp add: disjunctive_add_eq_or)
  also have "\<dots> = x" unfolding m by (rule bit_eqI) (auto simp: bit_simps)
  finally have "x AND NOT 63 = x - take_bit 6 x" by (simp add: eq_diff_eq)
  moreover have t: "unat (take_bit 6 x) = unat x mod 64" by (simp only: unsigned_take_bit_eq [where 'a = nat]) (simp add: take_bit_eq_mod)
  moreover have "take_bit 6 x \<le> x" by (simp add: word_le_nat_alt t)
  ultimately show ?thesis by (simp add: unat_sub)
qed

lemma round_up_64_bounds:
  assumes "unat n + 63 < 2 ^ 64"
  shows "unat (round_up_64 n) mod 64 = 0" "unat n \<le> unat (round_up_64 n)" "unat (round_up_64 n) < unat n + 64"
proof -
  have "unat (n + 63) = unat n + 63" using assms by (subst unat_plus_if') simp
  then have r: "unat (round_up_64 n) = (unat n + 63) - (unat n + 63) mod 64" by (simp only: round_up_64_def and_not_63)
  have "(unat n + 63) mod 64 < 64" "(unat n + 63) mod 64 \<le> unat n + 63" by simp_all
  then show "unat n \<le> unat (round_up_64 n)" "unat (round_up_64 n) < unat n + 64" unfolding r by linarith+
  show "unat (round_up_64 n) mod 64 = 0" unfolding r by (simp add: minus_mod_eq_mult_div)
qed

text \<open>
  Two rings fit behind one another: at any base that is aligned as a page is, both rings are created
  within their half of the segment, the second right behind the first.
\<close>

theorem ipc_layout:
  assumes "capacity_usable cap" "base \<noteq> 0" "unat base mod 64 = 0" "unat base + unat (seg_bytes cap) < 2 ^ 64"
  shows "precheck kMsgSize base (ring_bytes cap) cap = Ok
    \<and> precheck kMsgSize (base + ring_bytes cap) (ring_bytes cap) cap = Ok
    \<and> unat (seg_bytes cap) = 2 * unat (ring_bytes cap)"
proof -
  let ?r = "ring_bytes cap"
  have "unat cap \<le> 2 ^ 32 - 1" using unsigned_less [where 'a = nat, of cap] by simp
  then have need: "unat (bytes_needed kMsgSize cap) = 192 + unat cap * 16" "unat cap * 16 \<le> 16 * 2 ^ 32"
    by (simp_all add: unat_bytes_needed kMsgSize_def)
  then have "unat (bytes_needed kMsgSize cap) + 63 < 2 ^ 64" by simp
  note r = round_up_64_bounds [OF this, folded ring_bytes_def]
  have two: "unat (seg_bytes cap) = 2 * unat ?r"
  proof -
    have "unat ?r * unat (2 :: u64) < 2 ^ LENGTH(64)" using r(3) need by simp
    then have "unat (?r * 2) = unat ?r * unat (2 :: u64)" by (simp only: unat_mult_lem)
    then show ?thesis by (simp add: seg_bytes_def)
  qed
  have sum: "unat (base + ?r) = unat base + unat ?r" using assms(4) two by (subst unat_plus_if') simp
  have "\<not> bad_capacity cap" using assms(1) by (simp add: capacity_usable_def bad_capacity_def)
  moreover have "\<not> ?r < bytes_needed kMsgSize cap" using r(2) by (simp add: word_less_nat_alt)
  moreover have "base mod kHeaderAlign = 0" "(base + ?r) mod kHeaderAlign = 0"
    using assms(3) r(1) by (simp_all add: word_unat_eq_iff unat_mod_distrib kHeaderAlign_def sum mod_add_eq [symmetric, of "unat base"])
  moreover have "base + ?r \<noteq> 0" using sum assms(2) by (auto simp: word_unat_eq_iff)
  ultimately show ?thesis using assms(2) two by (simp add: precheck_def)
qed

text \<open>What a successful start stamps, the reader accepts, wherever the segment is mapped in its process.\<close>

lemma stamped_attaches:
  assumes "precheck kMsgSize mem bytes cap = Ok"
    and "hdr sg = \<lparr>magic = kMagic, version = kVersion, capacity = cap, elem_size = of_nat kMsgSize, reserved = rs, sh_head = h, sh_tail = t\<rparr>"
  shows "fst (attach kMsgSize mem bytes sg sg2 out) = Ok"
proof -
  have "unat cap * 16 < 2 ^ 36" using unsigned_less [where 'a = nat, of cap] by simp
  then have "unat (bytes_needed kMsgSize cap) = 192 + unat cap * 16" by (simp add: unat_bytes_needed kMsgSize_def)
  then have "kHeaderSize \<le> bytes_needed kMsgSize cap" by (simp add: word_le_nat_alt kHeaderSize_def)
  then show ?thesis using assms by (auto simp: attach_def precheck_def kMsgSize_def split: if_splits)
qed

theorem ipc_setup_attaches:
  assumes "capacity_usable cap" "base \<noteq> 0" "unat base mod 64 = 0" "unat base + unat (seg_bytes cap) < 2 ^ 64"
    and "base' \<noteq> 0" "unat base' mod 64 = 0" "unat base' + unat (seg_bytes cap) < 2 ^ 64" "0 \<le> pid"
  shows "\<exists>r1 r2 s1 s2. ipc_setup cap True base sg1 sg2 pid = Inr (r1, r2, s1, s2)
    \<and> fst (attach kMsgSize base' (ring_bytes cap) s1 s1 out1) = Ok
    \<and> fst (attach kMsgSize (base' + ring_bytes cap) (ring_bytes cap) s2 s2 out2) = Ok"
proof -
  note w = ipc_layout [OF assms(1-4)] and r = ipc_layout [OF assms(1,5-7)]
  show ?thesis
    using w r assms(1,8) stamped_attaches [of base' "ring_bytes cap" cap] stamped_attaches [of "base' + ring_bytes cap" "ring_bytes cap" cap]
    by (simp add: ipc_setup_def create_def Let_def)
qed

end
