(* ===== verification/Pingpong.thy ===== *)
theory Pingpong
  imports Ring_Threads
begin

text \<open>
  The round-trip benchmark \<^verbatim>\<open>bench/bench_pingpong.cpp\<close>: two threads and two rings of two slots.  The
  initiator pushes a sequence number into \<open>ping\<close> and waits for it on \<open>pong\<close>, first in the warm-up and
  then in the timed iterations, where it compares what came back; the responder sends back what it
  gets until it is told to stop.  Both rings are the two-thread rings of \<open>Ring_Threads\<close>, with stale
  loads.  Times, pinning and printing are left out; the flags are read as the memory model allows,
  so a load of \<open>start\<close> or \<open>stop\<close> may miss a store.
\<close>

section \<open>The threads\<close>

text \<open>A message is its sequence number.  Both rings have this many slots.\<close>

type_synonym seqno = u64

definition kDepth :: u64 where
  "kDepth = 2"

text \<open>
  The initiator before \<^verbatim>\<open>start.store\<close>; about to push, or waiting for, message \<open>i\<close> of the warm-up or
  of the timed loop; with its last round done; after \<^verbatim>\<open>stop.store\<close>, with the status it will return;
  and with its status.
\<close>

datatype initiator = I_Start | I_Push bool nat | I_Pop bool nat | I_Finished | I_Corrupt | I_Join int | I_Return int

text \<open>The responder waiting for the start; at its loop test; in a pop, in a push; draining; at its end.\<close>

datatype responder = R_Spin | R_Test | R_Pop | R_Push seqno | R_Drain | R_Exit

record pp =
  ping :: "seqno threads"
  pong :: "seqno threads"
  ini :: initiator
  rsp :: responder
  started :: bool
  stopped :: bool

definition start_pp :: pp where
  "start_pp = \<lparr>ping = start_threads kDepth 0, pong = start_threads kDepth 0, ini = I_Start, rsp = R_Spin,
     started = False, stopped = False\<rparr>"

definition warmup_rounds :: "nat \<Rightarrow> nat" where
  "warmup_rounds iters = (if iters div 10 < 1000 then 1000 else iters div 10)"

text \<open>After a round: the next one of the same loop, the first of the next loop, or the end.\<close>

definition next_round :: "nat \<Rightarrow> nat \<Rightarrow> bool \<Rightarrow> nat \<Rightarrow> initiator" where
  "next_round warmup iters warm i =
     (if warm then (if i + 1 < warmup then I_Push True (i + 1) else if 0 < iters then I_Push False 0 else I_Finished)
      else if i + 1 < iters then I_Push False (i + 1) else I_Finished)"

inductive ini_step :: "nat \<Rightarrow> nat \<Rightarrow> pp \<Rightarrow> pp \<Rightarrow> bool" for warmup iters where
  i_start: "ini s = I_Start \<Longrightarrow> ini_step warmup iters s (s\<lparr>started := True, ini := I_Push True 0\<rparr>)"
| i_pushing: "ini s = I_Push warm i \<Longrightarrow> push_step kDepth (ping s) t \<Longrightarrow> sent t = sent (ping s) \<Longrightarrow>
    producer t = P_Idle \<or> pval (producer t) = of_nat i \<Longrightarrow> ini_step warmup iters s (s\<lparr>ping := t\<rparr>)"
| i_pushed: "ini s = I_Push warm i \<Longrightarrow> push_step kDepth (ping s) t \<Longrightarrow> sent t = sent (ping s) @ [v] \<Longrightarrow>
    ini_step warmup iters s (s\<lparr>ping := t, ini := I_Pop warm i\<rparr>)"
| i_popping: "ini s = I_Pop warm i \<Longrightarrow> pop_step kDepth (pong s) t \<Longrightarrow> recvd t = recvd (pong s) \<Longrightarrow>
    ini_step warmup iters s (s\<lparr>pong := t\<rparr>)"
| i_popped: "ini s = I_Pop warm i \<Longrightarrow> pop_step kDepth (pong s) t \<Longrightarrow> recvd t = recvd (pong s) @ [echo] \<Longrightarrow>
    ini_step warmup iters s (s\<lparr>pong := t,
      ini := if \<not> warm \<and> echo \<noteq> of_nat i then I_Corrupt else next_round warmup iters warm i\<rparr>)"
| i_finished: "ini s = I_Finished \<Longrightarrow> ini_step warmup iters s (s\<lparr>stopped := True, ini := I_Join 0\<rparr>)"
| i_corrupt: "ini s = I_Corrupt \<Longrightarrow> ini_step warmup iters s (s\<lparr>stopped := True, ini := I_Join 1\<rparr>)"
| i_join: "ini s = I_Join rc \<Longrightarrow> rsp s = R_Exit \<Longrightarrow> ini_step warmup iters s (s\<lparr>ini := I_Return rc\<rparr>)"

inductive rsp_step :: "pp \<Rightarrow> pp \<Rightarrow> bool" where
  r_start: "rsp s = R_Spin \<Longrightarrow> started s \<Longrightarrow> rsp_step s (s\<lparr>rsp := R_Test\<rparr>)"
| r_go: "rsp s = R_Test \<Longrightarrow> rsp_step s (s\<lparr>rsp := R_Pop\<rparr>)"
| r_stop: "rsp s = R_Test \<Longrightarrow> stopped s \<Longrightarrow> rsp_step s (s\<lparr>rsp := R_Drain\<rparr>)"
| r_popping: "rsp s = R_Pop \<Longrightarrow> pop_step kDepth (ping s) t \<Longrightarrow> recvd t = recvd (ping s) \<Longrightarrow>
    rsp_step s (s\<lparr>ping := t, rsp := if consumer t = C_Idle then R_Test else R_Pop\<rparr>)"
| r_popped: "rsp s = R_Pop \<Longrightarrow> pop_step kDepth (ping s) t \<Longrightarrow> recvd t = recvd (ping s) @ [m] \<Longrightarrow>
    rsp_step s (s\<lparr>ping := t, rsp := R_Push m\<rparr>)"
| r_pushing: "rsp s = R_Push m \<Longrightarrow> push_step kDepth (pong s) t \<Longrightarrow> sent t = sent (pong s) \<Longrightarrow>
    producer t = P_Idle \<or> pval (producer t) = m \<Longrightarrow> rsp_step s (s\<lparr>pong := t\<rparr>)"
| r_pushed: "rsp s = R_Push m \<Longrightarrow> push_step kDepth (pong s) t \<Longrightarrow> sent t = sent (pong s) @ [v] \<Longrightarrow>
    rsp_step s (s\<lparr>pong := t, rsp := R_Test\<rparr>)"
| r_draining: "rsp s = R_Drain \<Longrightarrow> pop_step kDepth (ping s) t \<Longrightarrow> consumer t \<noteq> C_Idle \<or> recvd t \<noteq> recvd (ping s) \<Longrightarrow>
    rsp_step s (s\<lparr>ping := t\<rparr>)"
| r_drained: "rsp s = R_Drain \<Longrightarrow> pop_step kDepth (ping s) t \<Longrightarrow> consumer t = C_Idle \<Longrightarrow> recvd t = recvd (ping s) \<Longrightarrow>
    rsp_step s (s\<lparr>ping := t, rsp := R_Exit\<rparr>)"

definition pp_step :: "nat \<Rightarrow> nat \<Rightarrow> pp \<Rightarrow> pp \<Rightarrow> bool" where
  "pp_step warmup iters s s' \<longleftrightarrow> ini_step warmup iters s s' \<or> rsp_step s s'"

abbreviation pp_reach :: "nat \<Rightarrow> nat \<Rightarrow> pp \<Rightarrow> bool" where
  "pp_reach warmup iters \<equiv> reach (\<lambda>s. s = start_pp) (pp_step warmup iters)"

section \<open>The invariant\<close>

text \<open>The messages sent before round \<open>i\<close> of a loop, and all of them.\<close>

definition msgs :: "nat \<Rightarrow> bool \<Rightarrow> nat \<Rightarrow> seqno list" where
  "msgs warmup warm i = map of_nat (if warm then [0..<i] else [0..<warmup] @ [0..<i])"

definition all_msgs :: "nat \<Rightarrow> nat \<Rightarrow> seqno list" where
  "all_msgs warmup iters = map of_nat ([0..<warmup] @ [0..<iters])"

text \<open>How far the initiator is: what it has sent, and whether an answer is outstanding.\<close>

fun ini_ok :: "nat \<Rightarrow> nat \<Rightarrow> initiator \<Rightarrow> seqno threads \<Rightarrow> seqno threads \<Rightarrow> bool" where
  "ini_ok warmup iters I_Start a b \<longleftrightarrow> sent a = [] \<and> recvd b = [] \<and> producer a = P_Idle \<and> consumer b = C_Idle"
| "ini_ok warmup iters (I_Push warm i) a b \<longleftrightarrow> sent a = msgs warmup warm i \<and> length (recvd b) = length (sent a)
     \<and> i < (if warm then warmup else iters) \<and> (producer a \<noteq> P_Idle \<longrightarrow> pval (producer a) = of_nat i) \<and> consumer b = C_Idle"
| "ini_ok warmup iters (I_Pop warm i) a b \<longleftrightarrow> sent a = msgs warmup warm i @ [of_nat i]
     \<and> length (recvd b) + 1 = length (sent a) \<and> i < (if warm then warmup else iters) \<and> producer a = P_Idle"
| "ini_ok warmup iters I_Corrupt a b \<longleftrightarrow> False"
| "ini_ok warmup iters I_Finished a b \<longleftrightarrow> sent a = all_msgs warmup iters \<and> length (recvd b) = length (sent a)
     \<and> producer a = P_Idle \<and> consumer b = C_Idle"
| "ini_ok warmup iters (I_Join rc) a b \<longleftrightarrow> rc = 0 \<and> sent a = all_msgs warmup iters \<and> length (recvd b) = length (sent a)
     \<and> producer a = P_Idle \<and> consumer b = C_Idle"
| "ini_ok warmup iters (I_Return rc) a b \<longleftrightarrow> rc = 0 \<and> sent a = all_msgs warmup iters \<and> length (recvd b) = length (sent a)
     \<and> producer a = P_Idle \<and> consumer b = C_Idle"

text \<open>The responder has sent back all that it has received, but for the message in its hands.\<close>

fun in_hand :: "responder \<Rightarrow> seqno list" where
  "in_hand (R_Push m) = [m]"
| "in_hand r = []"

definition rsp_ok :: "responder \<Rightarrow> seqno threads \<Rightarrow> seqno threads \<Rightarrow> bool" where
  "rsp_ok r a b \<longleftrightarrow> recvd a = sent b @ in_hand r
     \<and> (producer b \<noteq> P_Idle \<longrightarrow> in_hand r = [pval (producer b)]) \<and> (consumer a \<noteq> C_Idle \<longrightarrow> r = R_Pop \<or> r = R_Drain)"

definition flags_ok :: "pp \<Rightarrow> bool" where
  "flags_ok s \<longleftrightarrow> (stopped s \<longleftrightarrow> (\<exists>rc. ini s = I_Join rc \<or> ini s = I_Return rc)) \<and> (rsp s = R_Drain \<or> rsp s = R_Exit \<longrightarrow> stopped s)
     \<and> (started s \<longleftrightarrow> ini s \<noteq> I_Start) \<and> (\<forall>rc. ini s = I_Return rc \<longrightarrow> rsp s = R_Exit)"

definition pp_inv :: "nat \<Rightarrow> nat \<Rightarrow> pp \<Rightarrow> bool" where
  "pp_inv warmup iters s \<longleftrightarrow> threads_inv kDepth (ping s) \<and> threads_inv kDepth (pong s)
     \<and> ini_ok warmup iters (ini s) (ping s) (pong s) \<and> rsp_ok (rsp s) (ping s) (pong s) \<and> flags_ok s"

lemma kDepth_spsc: "spsc kDepth"
  by (rule spsc.intro) (simp add: capacity_ok_def kDepth_def)

lemmas ring_inv_step = spsc.push_step_inv [OF kDepth_spsc] spsc.pop_step_inv [OF kDepth_spsc]

lemma rsp_relays: "rsp_ok r a b \<Longrightarrow> threads_inv cap a \<Longrightarrow> threads_inv cap b \<Longrightarrow> prefix (sent b) (sent a) \<and> prefix (recvd b) (sent a)"
  using recvd_prefix [of cap a] recvd_prefix [of cap b]
  unfolding rsp_ok_def by (metis append_prefixD prefix_order.trans)

text \<open>What comes back is what was sent last.\<close>

lemma popped_is_last:
  assumes "rsp_ok r a b" "threads_inv cap a" "threads_inv cap b'" "sent b' = sent b" "recvd b' = recvd b @ [v]"
    and "sent a = xs @ [x]" "length (recvd b) + 1 = length (sent a)"
  shows "v = x"
proof -
  have "prefix (recvd b') (sent b)" using recvd_prefix [OF assms(3)] assms(4) by simp
  moreover have "prefix (sent b) (sent a)" using recvd_prefix [OF assms(2)] assms(1) by (auto simp: rsp_ok_def dest: append_prefixD)
  ultimately have "prefix (recvd b @ [v]) (xs @ [x])" using assms(5,6) by (metis prefix_order.trans)
  then have "recvd b @ [v] = xs @ [x]" using assms(6,7) by (intro prefix_same_length) simp_all
  then show ?thesis by simp
qed

lemma msgs_Suc: "msgs warmup warm (Suc i) = msgs warmup warm i @ [of_nat i]"
  by (simp add: msgs_def)

lemma next_round_ok:
  assumes "0 < warmup" "0 < iters" "sent a = msgs warmup warm i @ [of_nat i]" "i < (if warm then warmup else iters)"
    "length (recvd b) = length (sent a)" "producer a = P_Idle" "consumer b = C_Idle"
  shows "ini_ok warmup iters (next_round warmup iters warm i) a b"
proof -
  have "Suc i = warmup" if "warm" "\<not> Suc i < warmup" using that assms(4) by simp
  moreover have "Suc i = iters" if "\<not> warm" "\<not> Suc i < iters" using that assms(4) by simp
  ultimately show ?thesis using assms by (auto simp: next_round_def msgs_def all_msgs_def)
qed

section \<open>Every step keeps it\<close>

lemma ini_step_inv:
  assumes pos: "0 < warmup" "0 < iters" and inv: "pp_inv warmup iters s" and "ini_step warmup iters s s'"
  shows "pp_inv warmup iters s'"
proof -
  have a: "threads_inv kDepth (ping s)" and b: "threads_inv kDepth (pong s)"
    and i: "ini_ok warmup iters (ini s) (ping s) (pong s)" and r: "rsp_ok (rsp s) (ping s) (pong s)" and f: "flags_ok s"
    using inv by (simp_all add: pp_inv_def)
  show ?thesis
    using assms(4)
  proof cases
    case i_start
    then show ?thesis using a b i r f pos by (auto simp: pp_inv_def flags_ok_def msgs_def)
  next
    case (i_pushing warm k t)
    note t = push_step_frame [OF i_pushing(3)]
    have "ini_ok warmup iters (ini s) t (pong s)" using i i_pushing(2,4,5) by auto
    then show ?thesis
      using a b r f i_pushing(1) t(1,2) ring_inv_step(1) [OF i_pushing(3) a] by (auto simp: pp_inv_def flags_ok_def rsp_ok_def)
  next
    case (i_pushed warm k t v)
    note t = push_step_frame [OF i_pushed(3)]
    have v: "producer (ping s) \<noteq> P_Idle" "pval (producer (ping s)) = v" "producer t = P_Idle" using t(4) i_pushed(4) by auto
    then have "ini_ok warmup iters (I_Pop warm k) t (pong s)" using i i_pushed(2,4) by auto
    then show ?thesis
      using a b r f i_pushed(1,2) t(1,2) ring_inv_step(1) [OF i_pushed(3) a] by (auto simp: pp_inv_def flags_ok_def rsp_ok_def)
  next
    case (i_popping warm k t)
    note t = pop_step_frame [OF i_popping(3)]
    have "ini_ok warmup iters (ini s) (ping s) t" using i i_popping(2,4) by auto
    then show ?thesis
      using a b r f i_popping(1) t ring_inv_step(2) [OF i_popping(3) b] by (auto simp: pp_inv_def flags_ok_def rsp_ok_def)
  next
    case (i_popped warm k t echo)
    note t = pop_step_frame [OF i_popped(3)] and bt = ring_inv_step(2) [OF i_popped(3) b]
    have p: "sent (ping s) = msgs warmup warm k @ [of_nat k]" "length (recvd (pong s)) + 1 = length (sent (ping s))"
      "k < (if warm then warmup else iters)" "producer (ping s) = P_Idle" using i i_popped(2) by simp_all
    have "echo = of_nat k" by (rule popped_is_last [OF r a bt t(1) i_popped(4) p(1,2)])
    moreover have "consumer t = C_Idle" using i_popped(3,4) by cases auto
    ultimately show ?thesis
      using a r f bt i_popped(1,2) t next_round_ok [OF pos p(1,3), of t] p(2,4) i_popped(4)
      by (auto simp: pp_inv_def flags_ok_def rsp_ok_def next_round_def)
  next
    case i_finished
    then show ?thesis using a b i r f by (auto simp: pp_inv_def flags_ok_def)
  next
    case i_corrupt
    then show ?thesis using i by simp
  next
    case (i_join rc)
    then show ?thesis using a b i r f by (auto simp: pp_inv_def flags_ok_def)
  qed
qed

text \<open>The initiator looks at the ring to the responder only from its own side, and the other way round.\<close>

lemma ini_ok_frame:
  "ini_ok warmup iters p a b \<Longrightarrow> sent a' = sent a \<Longrightarrow> producer a' = producer a \<Longrightarrow>
   recvd b' = recvd b \<Longrightarrow> consumer b' = consumer b \<Longrightarrow> ini_ok warmup iters p a' b'"
  by (cases p) simp_all

lemma pop_idle: "pop_step cap t t' \<Longrightarrow> recvd t' = recvd t @ [v] \<Longrightarrow> consumer t' = C_Idle"
  by (erule pop_step.cases) auto

lemma pop_recvd: "pop_step cap t t' \<Longrightarrow> recvd t' = recvd t \<or> (\<exists>v. recvd t' = recvd t @ [v])"
  by (erule pop_step.cases) auto

text \<open>After the stop nothing is left to drain.\<close>

lemma drain_nothing:
  assumes inv: "pp_inv warmup iters s" and "stopped s" "in_hand (rsp s) = []" "pop_step kDepth (ping s) t"
  shows "recvd t = recvd (ping s)"
proof -
  have a: "threads_inv kDepth (ping s)" and b: "threads_inv kDepth (pong s)"
    using inv by (simp_all add: pp_inv_def)
  have "length (recvd (pong s)) = length (sent (ping s))" using inv assms(2) by (auto simp: pp_inv_def flags_ok_def)
  moreover have "length (recvd (pong s)) \<le> length (sent (pong s))" using prefix_length_le [OF recvd_prefix [OF b]] .
  moreover have "recvd (ping s) = sent (pong s)" using inv assms(3) by (simp add: pp_inv_def rsp_ok_def)
  ultimately have "length (sent t) \<le> length (recvd (ping s))" using pop_step_frame(1) [OF assms(4)] by simp
  moreover have "length (recvd t) \<le> length (sent t)"
    using prefix_length_le [OF recvd_prefix [OF ring_inv_step(2) [OF assms(4) a]]] .
  ultimately show ?thesis using pop_recvd [OF assms(4)] by auto
qed

lemma rsp_step_inv:
  assumes inv: "pp_inv warmup iters s" and "rsp_step s s'"
  shows "pp_inv warmup iters s'"
proof -
  have a: "threads_inv kDepth (ping s)" and b: "threads_inv kDepth (pong s)"
    and i: "ini_ok warmup iters (ini s) (ping s) (pong s)" and r: "rsp_ok (rsp s) (ping s) (pong s)" and f: "flags_ok s"
    using inv by (simp_all add: pp_inv_def)
  have popped: "pp_inv warmup iters (s\<lparr>ping := t, rsp := r'\<rparr>)"
    if "pop_step kDepth (ping s) t" "rsp_ok r' t (pong s)" "flags_ok (s\<lparr>rsp := r'\<rparr>)" for t r'
    using that(2,3) b ring_inv_step(2) [OF that(1) a] ini_ok_frame [OF i, of t "pong s"] pop_step_frame [OF that(1)]
    by (auto simp: pp_inv_def flags_ok_def)
  have pushed: "pp_inv warmup iters (s\<lparr>pong := t, rsp := r'\<rparr>)"
    if "push_step kDepth (pong s) t" "rsp_ok r' (ping s) t" "flags_ok (s\<lparr>rsp := r'\<rparr>)" for t r'
    using that(2,3) a ring_inv_step(1) [OF that(1) b] ini_ok_frame [OF i, of "ping s" t] push_step_frame [OF that(1)]
    by (auto simp: pp_inv_def flags_ok_def)
  show ?thesis
    using assms(2)
  proof cases
    case r_start
    then show ?thesis using a b i r f by (auto simp: pp_inv_def flags_ok_def rsp_ok_def)
  next
    case r_go
    then show ?thesis using a b i r f by (auto simp: pp_inv_def flags_ok_def rsp_ok_def)
  next
    case r_stop
    then show ?thesis using a b i r f by (auto simp: pp_inv_def flags_ok_def rsp_ok_def)
  next
    case (r_popping t)
    then show ?thesis
      using r f pop_step_frame [OF r_popping(3)] by (simp add: popped rsp_ok_def flags_ok_def)
  next
    case (r_popped t m)
    then show ?thesis
      using r f pop_step_frame [OF r_popped(3)] pop_idle [OF r_popped(3,4)] by (auto simp: rsp_ok_def flags_ok_def intro!: popped)
  next
    case (r_pushing m t)
    have "rsp_ok (rsp s) (ping s) t" using r r_pushing(2,4,5) push_step_frame(1,2) [OF r_pushing(3)] by (auto simp: rsp_ok_def)
    then show ?thesis using pushed [OF r_pushing(3), of "rsp s"] f r_pushing(1) by simp
  next
    case (r_pushed m t v)
    then show ?thesis
      using r f push_step_frame [OF r_pushed(3)] by (auto simp: rsp_ok_def flags_ok_def intro!: pushed)
  next
    case (r_draining t)
    have "stopped s" "recvd t = recvd (ping s)"
      using f r_draining(2) drain_nothing [OF inv _ _ r_draining(3)] by (auto simp: flags_ok_def)
    then have "rsp_ok (rsp s) t (pong s)" using r r_draining(2) by (auto simp: rsp_ok_def)
    then show ?thesis using popped [OF r_draining(3), of "rsp s"] f r_draining(1) by simp
  next
    case (r_drained t)
    then show ?thesis using r f by (auto simp: rsp_ok_def flags_ok_def intro!: popped)
  qed
qed

lemma start_pp_inv: "pp_inv warmup iters start_pp"
  using spsc.start_threads_inv [OF kDepth_spsc, of "0 :: seqno"]
  by (simp add: pp_inv_def rsp_ok_def flags_ok_def start_pp_def) (simp add: start_threads_def)

interpretation pp_sys: invariant_system "\<lambda>s. s = start_pp" "pp_step (Suc w) (Suc n)" "pp_inv (Suc w) (Suc n)" for w n
  by unfold_locales (auto simp: pp_step_def start_pp_inv intro: ini_step_inv rsp_step_inv)

end
