(* ===== verification/Settings.thy ===== *)
theory Settings
  imports Feed_Client Shm_Ipc Pingpong
begin

text \<open>
  What the programs take from their command lines and configuration files, with the conversions to
  the widths of their variables: \<^verbatim>\<open>apps/feed_handler_linux.cpp\<close>, \<^verbatim>\<open>apps/feed_handler_iouring_linux.cpp\<close>,
  \<^verbatim>\<open>apps/shm_ipc_posix.cpp\<close>, \<^verbatim>\<open>bench/bench_feed_client.cpp\<close>, \<^verbatim>\<open>bench/bench_pingpong.cpp\<close>.  The arguments
  are \<^verbatim>\<open>argv[1]\<close> and those that follow it.
\<close>

section \<open>Configured programs\<close>

definition main_config :: "(string \<Rightarrow> string option) \<Rightarrow> string list \<Rightarrow> Config" where
  "main_config read args = (case args of [] \<Rightarrow> empty_config | path # _ \<Rightarrow> from_file read path)"

record feed_settings =
  port :: u16
  limits :: RiskLimits

definition feed_settings :: "(string \<Rightarrow> string option) \<Rightarrow> string list \<Rightarrow> feed_settings" where
  "feed_settings read args =
     (let cfg = main_config read args
      in \<lparr>port = word_of_int (get_int cfg ''port'' 9001), limits = feed_limits cfg\<rparr>)"

record ipc_settings =
  shm_name :: string
  ipc_capacity :: u32
  stream_count :: u64
  rtt_iters :: u64
  writer_core :: u32
  reader_core :: u32

definition ipc_settings :: "(string \<Rightarrow> string option) \<Rightarrow> string list \<Rightarrow> ipc_settings" where
  "ipc_settings read args =
     (let cfg = main_config read args
      in \<lparr>shm_name = get_str cfg ''shm_name'' ''/lloms_ipc_demo'',
          ipc_capacity = word_of_int (get_int cfg ''capacity'' 4096),
          stream_count = word_of_int (get_int cfg ''stream_count'' 2000000),
          rtt_iters = word_of_int (get_int cfg ''rtt_iters'' 200000),
          writer_core = word_of_int (get_int cfg ''writer_core'' 0),
          reader_core = word_of_int (get_int cfg ''reader_core'' 1)\<rparr>)"

definition ipc_begin :: "(string \<Rightarrow> string option) \<Rightarrow> string list \<Rightarrow> bool \<Rightarrow> u64 \<Rightarrow> segment \<Rightarrow> segment \<Rightarrow> int \<Rightarrow>
    int + (ShmSpscRing \<times> ShmSpscRing \<times> segment \<times> segment)" where
  "ipc_begin read args = ipc_setup (ipc_capacity (ipc_settings read args))"

section \<open>Command lines\<close>

text \<open>
  The number at the beginning of a string, as the functions of the C library read it: white space, a sign, the
  longest run of digits, and no number is 0.
\<close>

definition leading_number :: "string \<Rightarrow> bool \<times> nat" where
  "leading_number s =
     (let t = dropWhile isspace s
      in case t of
           [] \<Rightarrow> (False, 0)
         | c # r \<Rightarrow>
             if c = CHR ''-'' then (True, digits_value (takeWhile isdigit r))
             else (False, digits_value (takeWhile isdigit (if c = CHR ''+'' then r else t))))"

text \<open>\<^verbatim>\<open>std::atoi\<close>; the behaviour is undefined (\<open>None\<close>) when the value does not fit into an \<^verbatim>\<open>int\<close>.\<close>

definition atoi :: "string \<Rightarrow> int option" where
  "atoi s = (case leading_number s of (neg, n) \<Rightarrow>
     let v = (if neg then - int n else int n) in if - (2 ^ 31) \<le> v \<and> v < 2 ^ 31 then Some v else None)"

text \<open>\<^verbatim>\<open>std::strtoull\<close>: a minus sign negates in the unsigned type, and a value that is too large saturates.\<close>

definition strtoull10 :: "string \<Rightarrow> u64" where
  "strtoull10 s = (case leading_number s of (neg, n) \<Rightarrow>
     if 2 ^ 64 \<le> n then - 1 else if neg then - of_nat n else of_nat n)"

definition arg_or :: "nat \<Rightarrow> string list \<Rightarrow> (string \<Rightarrow> 'a) \<Rightarrow> 'a \<Rightarrow> 'a" where
  "arg_or k args f fallback = (if k \<le> length args then f (args ! (k - 1)) else fallback)"

record client_args =
  host :: string
  to_port :: u16
  connections :: int
  frames_per_conn :: u64

definition client_args :: "string list \<Rightarrow> client_args option" where
  "client_args args = do {
     p \<leftarrow> arg_or 2 args atoi (Some 9001);
     c \<leftarrow> arg_or 3 args atoi (Some 50);
     Some \<lparr>host = arg_or 1 args id ''127.0.0.1'', to_port = word_of_int p, connections = c,
       frames_per_conn = arg_or 4 args strtoull10 20000\<rparr> }"

definition client_run :: "string list \<Rightarrow> connect_answers list \<Rightarrow> int list list \<Rightarrow> (int \<times> u8 list list \<times> int set) option" where
  "client_run args qs kss = do {
     a \<leftarrow> client_args args;
     client_main (connections a) (frames_per_conn a) qs kss }"

text \<open>The iterations and the two cores; \<open>Inl\<close> is the early return.\<close>

definition pingpong_args :: "string list \<Rightarrow> (int + (int \<times> u32 \<times> u32)) option" where
  "pingpong_args args = do {
     iters \<leftarrow> arg_or 1 args atoi (Some 200000);
     a \<leftarrow> arg_or 2 args (map_option word_of_int \<circ> atoi) (Some 0);
     b \<leftarrow> arg_or 3 args (map_option word_of_int \<circ> atoi) (Some 1);
     Some (if iters \<le> 0 then Inl 1 else Inr (iters, a, b)) }"

section \<open>Numbers that were written in decimal\<close>

lemma leading_show_nat: "leading_number (show_nat n) = (False, n)"
proof -
  have d: "digits_value (show_nat n) = n" "\<forall>c\<in>set (show_nat n). isdigit c" using show_nat_digits by simp_all
  obtain c cs where c: "show_nat n = c # cs" "isdigit c" using show_nat_digits [of n] by (cases "show_nat n") auto
  have "takeWhile isdigit (show_nat n) = show_nat n" by (rule takeWhile_all [OF d(2)])
  then show ?thesis
    using d(1) digit_not_space [OF c(2)] unfolding c(1) by (simp add: leading_number_def del: takeWhile.simps takeWhile_eq_all_conv)
qed

lemma atoi_show: "n < 2 ^ 31 \<Longrightarrow> atoi (show_nat n) = Some (int n)"
  by (simp add: atoi_def leading_show_nat Let_def)

lemma strtoull_show: "n < 2 ^ 64 \<Longrightarrow> strtoull10 (show_nat n) = of_nat n"
  by (simp add: strtoull10_def leading_show_nat)

lemma digits_plain:
  assumes "ds \<noteq> []" "\<forall>c\<in>set ds. isdigit c"
  shows "plain ds" "plain (CHR ''-'' # ds)"
proof -
  have "\<not> isspace (hd ds)" "\<not> isspace (last ds)" using assms digit_not_space by simp_all
  moreover have "CHR ''#'' \<notin> set ds" "CHR 0x0A \<notin> set ds" using assms(2) by (auto simp: isdigit_def)
  ultimately show "plain ds" "plain (CHR ''-'' # ds)" using assms(1) by (simp_all add: plain_def trimmed_def isspace_def)
qed

lemma number_plain: "plain (show_int z)"
  using digits_plain [of "show_nat (nat (- z))"] digits_plain [of "show_nat (nat z)"] show_nat_digits by (simp add: show_int_def)

text \<open>A file with one number in it.\<close>

definition one_entry :: "string \<Rightarrow> int \<Rightarrow> string" where
  "one_entry key z = render [(key, show_int z)]"

lemma get_int_one_entry:
  assumes "plain key" "key \<noteq> []" "CHR '':'' \<notin> set key" "i64_ok z" "read path = Some (one_entry key z)"
  shows "get_int (main_config read (path # rest)) key fallback = z"
proof -
  have ok: "\<forall>e\<in>set [(key, show_int z)]. entry_ok e" using assms(1-3) number_plain by (simp add: entry_ok_def)
  have "main_config read (path # rest) = from_string (one_entry key z)" by (simp add: main_config_def from_file_def assms(5))
  then have c: "main_config read (path # rest) = empty_config\<lparr>kv := smap_put key (show_int z) []\<rparr>"
    using parse_entry [of "(key, show_int z)" empty_config] ok getlines_render [OF ok]
    by (simp add: from_string_def one_entry_def) (simp add: empty_config_def)
  show ?thesis by (simp add: c get_int_def map_of_smap_put stoll_show_int [OF assms(4)])
qed

section \<open>The capacity of the shared rings\<close>

lemma usable_power: "capacity_usable cap \<longleftrightarrow> (\<exists>k. 1 \<le> k \<and> k \<le> 31 \<and> unat cap = 2 ^ k)"
proof
  assume u: "capacity_usable cap"
  then have ge: "2 \<le> unat cap" and a: "cap AND (cap - 1) = 0" by (auto simp: capacity_usable_def word_less_nat_alt)
  have "unat (cap - 1) = unat cap - 1" using ge by (simp add: unat_sub word_le_nat_alt)
  then have "unat cap AND (unat cap - 1) = 0" using a by (metis unsigned_0 unsigned_and_eq)
  with pow2_of_and_pred [of "unat cap"] ge obtain k where k: "unat cap = 2 ^ k" by auto
  then have "(2 :: nat) ^ k < 2 ^ 32" using unsigned_less [where 'a = nat, of cap] by simp
  then have "k < 32" by (rule power_less_imp_less_exp [rotated]) simp
  moreover have "1 \<le> k" using ge k by (cases k) auto
  ultimately show "\<exists>k. 1 \<le> k \<and> k \<le> 31 \<and> unat cap = 2 ^ k" using k by (intro exI [of _ k]) simp
next
  assume "\<exists>k. 1 \<le> k \<and> k \<le> 31 \<and> unat cap = 2 ^ k"
  then obtain k where k: "1 \<le> k" "k \<le> 31" "unat cap = 2 ^ k" by blast
  have cap: "cap = 2 ^ k" using k(3) by (metis of_nat_numeral of_nat_power of_nat_unat ucast_id)
  have "(2 :: nat) ^ 1 \<le> 2 ^ k" using k(1) by (intro power_increasing) simp_all
  then have "\<not> cap < 2" using k(3) by (simp add: word_less_nat_alt)
  moreover have "cap AND (cap - 1) = 0"
    unfolding cap by (rule bit_eqI) (auto simp: bit_simps mask_eq_exp_minus_1 [symmetric])
  ultimately show "capacity_usable cap" by (simp add: capacity_usable_def)
qed

lemma seg_bytes_bound: "unat (seg_bytes cap) < 2 ^ 38"
proof -
  have "unat cap < 2 ^ 32" using unsigned_less [where 'a = nat, of cap] by simp
  then have n: "unat (bytes_needed kMsgSize cap) = 192 + unat cap * 16" by (simp add: unat_bytes_needed kMsgSize_def)
  then have "unat (ring_bytes cap) < unat cap * 16 + 256"
    using round_up_64_bounds(3) [of "bytes_needed kMsgSize cap"] \<open>unat cap < 2 ^ 32\<close> by (simp add: ring_bytes_def)
  moreover have "unat (seg_bytes cap) \<le> unat (ring_bytes cap) * 2" by (simp add: seg_bytes_def unat_word_ariths)
  ultimately show ?thesis using \<open>unat cap < 2 ^ 32\<close> by simp
qed

section \<open>Properties\<close>

text \<open>
  (C40) The start of the IPC program with any arguments, configuration file and answers of the system: it
  starts exactly when the segment could be mapped, the child could be forked and the configured
  capacity (4096 when the file has none that is a number) is one of the powers \<open>2\<^sup>1\<close> to \<open>2\<^sup>3\<^sup>1\<close> modulo
  \<open>2\<^sup>3\<^sup>2\<close>, and otherwise it returns 1; when it starts, the reader finds both rings at whatever address
  it maps the segment.  So the check sees the converted number, not the one in the file.  A mapping
  begins at a page, below the upper half of the address space.
\<close>

theorem ipc_starts_iff:
  assumes "z = get_int (main_config read args) ''capacity'' 4096"
    and "base \<noteq> 0" "unat base mod 64 = 0" "unat base < 2 ^ 63" "base' \<noteq> 0" "unat base' mod 64 = 0" "unat base' < 2 ^ 63"
  shows "if mapped_ok \<and> 0 \<le> pid \<and> (\<exists>k. 1 \<le> k \<and> k \<le> 31 \<and> z mod 2 ^ 32 = 2 ^ k)
    then \<exists>r1 r2 s1 s2. ipc_begin read args mapped_ok base sg1 sg2 pid = Inr (r1, r2, s1, s2)
      \<and> fst (attach kMsgSize base' (ring_bytes (word_of_int z)) s1 s1 out1) = Ok
      \<and> fst (attach kMsgSize (base' + ring_bytes (word_of_int z)) (ring_bytes (word_of_int z)) s2 s2 out2) = Ok
    else ipc_begin read args mapped_ok base sg1 sg2 pid = Inl 1"
proof -
  let ?cap = "word_of_int z :: u32"
  have c: "ipc_begin read args = ipc_setup ?cap" by (simp add: ipc_begin_def ipc_settings_def Let_def assms(1))
  have z: "z mod 2 ^ 32 = int (unat ?cap)" by (simp add: uint_word_of_int unat_eq_nat_uint)
  have "z mod 2 ^ 32 = 2 ^ k \<longleftrightarrow> unat ?cap = 2 ^ k" for k unfolding z by (metis of_nat_eq_iff of_nat_numeral of_nat_power)
  then have u: "(\<exists>k. 1 \<le> k \<and> k \<le> 31 \<and> z mod 2 ^ 32 = 2 ^ k) \<longleftrightarrow> capacity_usable ?cap" unfolding usable_power by simp
  have b: "unat base + unat (seg_bytes ?cap) < 2 ^ 64" "unat base' + unat (seg_bytes ?cap) < 2 ^ 64"
    using assms(4,7) seg_bytes_bound [of ?cap] by simp_all
  show ?thesis
  proof (cases "mapped_ok \<and> 0 \<le> pid \<and> capacity_usable ?cap")
    case True
    with ipc_setup_attaches [OF _ assms(2,3) b(1) assms(5,6) b(2), of pid sg1 sg2 out1 out2] show ?thesis
      unfolding c u by auto
  next
    case False
    then have "ipc_setup ?cap mapped_ok base sg1 sg2 pid = Inl 1" by (auto simp: ipc_setup_def split: prod.splits)
    then show ?thesis unfolding c u using False by (simp only: if_False)
  qed
qed

text \<open>The capacity 4294971392 of a file is taken for 4096; the program does not start if the fork fails.\<close>

theorem ipc_starts_iff_witness:
  "(\<exists>r. ipc_begin (\<lambda>p. if p = ''ipc.yaml'' then Some (one_entry ''capacity'' (2 ^ 32 + 4096)) else None) [''ipc.yaml'']
       True 4096 raw_seg raw_seg 77 = Inr r)
   \<and> ipc_begin (\<lambda>_. None) [] True 4096 raw_seg raw_seg (- 1) = Inl 1"
proof
  define z :: int where "z = 2 ^ 32 + 4096"
  define read where "read = (\<lambda>p. if p = ''ipc.yaml'' then Some (one_entry ''capacity'' z) else None)"
  have "z mod 2 ^ 32 = 2 ^ 12" by (simp add: z_def)
  then have k: "True \<and> 0 \<le> (77 :: int) \<and> (\<exists>k. 1 \<le> k \<and> k \<le> 31 \<and> z mod 2 ^ 32 = 2 ^ k)" by (intro conjI exI [of _ 12]) simp_all
  have r: "read ''ipc.yaml'' = Some (one_entry ''capacity'' z)" "i64_ok z" by (simp_all add: read_def z_def i64_ok_def)
  have "plain ''capacity''" by (simp add: plain_def trimmed_def isspace_def)
  from get_int_one_entry [of "''capacity''" z read "''ipc.yaml''" "[]" 4096, OF this _ _ r(2,1)]
  have g: "z = get_int (main_config read [''ipc.yaml'']) ''capacity'' 4096" by simp
  from ipc_starts_iff [of z read "[''ipc.yaml'']" 4096 4096 True 77 raw_seg raw_seg fresh_handle fresh_handle, OF g, unfolded if_P [OF k]]
  have "\<exists>r. ipc_begin read [''ipc.yaml''] True 4096 raw_seg raw_seg 77 = Inr r" by auto
  then show "\<exists>r. ipc_begin (\<lambda>p. if p = ''ipc.yaml'' then Some (one_entry ''capacity'' (2 ^ 32 + 4096)) else None) [''ipc.yaml'']
       True 4096 raw_seg raw_seg 77 = Inr r" by (simp only: read_def z_def)
  show "ipc_begin (\<lambda>_. None) [] True 4096 raw_seg raw_seg (- 1) = Inl 1"
    using ipc_starts_iff [OF refl, of 4096 4096 True "- 1" "\<lambda>_. None" "[]" raw_seg raw_seg fresh_handle fresh_handle] by simp
qed

text \<open>
  The port of the feed handlers: a number from 0 to 65535 in the file is the port, and every other one is
  taken modulo \<open>2\<^sup>1\<^sup>6\<close> without a complaint, so that 74537 listens on 9001.
\<close>

theorem feed_port:
  assumes "read path = Some (one_entry ''port'' z)" "i64_ok z"
  shows "uint (port (feed_settings read [path])) = z mod 2 ^ 16
    \<and> (uint (port (feed_settings read [path])) = z \<longleftrightarrow> 0 \<le> z \<and> z < 2 ^ 16)"
proof -
  have "plain ''port''" by (simp add: plain_def trimmed_def isspace_def)
  from get_int_one_entry [of "''port''" z read path "[]" 9001, OF this _ _ assms(2,1)]
  have "port (feed_settings read [path]) = word_of_int z" by (simp add: feed_settings_def Let_def)
  then have p: "uint (port (feed_settings read [path])) = z mod 2 ^ 16" by (simp add: uint_word_of_int)
  have "z mod 2 ^ 16 = z \<longleftrightarrow> 0 \<le> z \<and> z < 2 ^ 16" by (metis mod_pos_pos_trivial pos_mod_bound pos_mod_sign zero_less_numeral zero_less_power)
  with p show ?thesis by simp
qed

text \<open>
  The arguments of the load client and of the round-trip benchmark in decimal: the client runs with exactly the
  connections and frames that were asked for, towards the port modulo \<open>2\<^sup>1\<^sup>6\<close>; the benchmark refuses 0
  iterations and otherwise runs with the given ones.
\<close>

theorem decimal_arguments:
  assumes "p < 2 ^ 31" "c < 2 ^ 31" "n < 2 ^ 64"
  shows "client_args [h, show_nat p, show_nat c, show_nat n] =
      Some \<lparr>host = h, to_port = of_nat p, connections = int c, frames_per_conn = of_nat n\<rparr>
    \<and> client_run [h, show_nat p, show_nat c, show_nat n] qs kss = client_main (int c) (of_nat n) qs kss
    \<and> pingpong_args [show_nat c] = Some (if c = 0 then Inl 1 else Inr (int c, 0, 1))"
  using assms by (simp add: client_args_def client_run_def pingpong_args_def arg_or_def atoi_show strtoull_show)

end
