(* ===== verification/Ipc_System.thy ===== *)
theory Ipc_System
  imports Shm_Ipc Ring_Threads
begin

text \<open>
  The two processes of \<^verbatim>\<open>apps/shm_ipc_posix.cpp\<close> as one system: the writer streams messages with a
  running checksum, waits for the reader's count and checksum, measures round trips and stops the
  reader; the reader answers.  The two rings of the segment are two-thread rings with stale loads
  (\<open>Shm_Threads\<close> shows that the ring in the segment is one).  Every attempt of a blocking call that
  fails may be the last before the deadline.  Times, pinning and printing are left out.
\<close>

section \<open>The processes\<close>

text \<open>
  The writer: pushing stream message \<open>i\<close> or the sentinel, with the checksum so far; waiting for the
  acknowledgement; pushing or waiting for message \<open>i\<close> of the warm-up or of the measured rounds;
  pushing the last sentinel; in \<^verbatim>\<open>waitpid\<close>; with its exit status.
\<close>

datatype wpc =
    W_Stream nat u64 | W_Sentinel u64 | W_Ack u64
  | W_Ping bool nat | W_Pong bool nat | W_Stop | W_Wait | W_Return int

text \<open>The reader: before it has attached; draining the stream; pushing the acknowledgement; echoing; ended.\<close>

datatype rpc = R_Open | R_Stream u64 u64 | R_Ack Msg | R_Echo | R_Reply Msg | R_Exit int

record params =
  stream_count :: u64
  rtt_iters :: u64

definition warmup_iters :: "params \<Rightarrow> u64" where
  "warmup_iters p = rtt_iters p div 10 + 1000"

definition sentinel :: Msg where
  "sentinel = \<lparr>seq = kSentinel, body = 0\<rparr>"

definition ping_msg :: "nat \<Rightarrow> Msg" where
  "ping_msg i = \<lparr>seq = of_nat i, body = 0\<rparr>"

text \<open>What the writer is pushing, and where it goes when the push succeeds.\<close>

fun w_out :: "wpc \<Rightarrow> Msg option" where
  "w_out (W_Stream i e) = Some (stream_msg (of_nat i))"
| "w_out (W_Sentinel e) = Some sentinel"
| "w_out (W_Ping warm i) = Some (ping_msg i)"
| "w_out W_Stop = Some sentinel"
| "w_out pc = None"

definition first_stream :: "params \<Rightarrow> wpc" where
  "first_stream p = (if 0 < unat (stream_count p) then W_Stream 0 0 else W_Sentinel 0)"

definition first_ping :: "params \<Rightarrow> wpc" where
  "first_ping p = (if 0 < unat (warmup_iters p) then W_Ping True 0 else if 0 < unat (rtt_iters p) then W_Ping False 0 else W_Stop)"

fun w_pushed :: "params \<Rightarrow> wpc \<Rightarrow> wpc" where
  "w_pushed p (W_Stream i e) =
     (let m = stream_msg (of_nat i); e' = e XOR (body m + seq m)
      in if i + 1 < unat (stream_count p) then W_Stream (i + 1) e' else W_Sentinel e')"
| "w_pushed p (W_Sentinel e) = W_Ack e"
| "w_pushed p (W_Ping warm i) = W_Pong warm i"
| "w_pushed p W_Stop = W_Wait"
| "w_pushed p pc = pc"

text \<open>A deadline that passes ends the writer, but for the last push, whose result it ignores.\<close>

fun w_late :: "wpc \<Rightarrow> wpc" where
  "w_late W_Stop = W_Wait"
| "w_late pc = W_Return 1"

fun w_waits :: "wpc \<Rightarrow> bool" where
  "w_waits (W_Ack e) = True"
| "w_waits (W_Pong warm i) = True"
| "w_waits pc = False"

definition next_ping :: "params \<Rightarrow> bool \<Rightarrow> nat \<Rightarrow> wpc" where
  "next_ping p warm i =
     (if warm then
        if i + 1 < unat (warmup_iters p) then W_Ping True (i + 1) else if 0 < unat (rtt_iters p) then W_Ping False 0 else W_Stop
      else if i + 1 < unat (rtt_iters p) then W_Ping False (i + 1) else W_Stop)"

fun w_got :: "params \<Rightarrow> wpc \<Rightarrow> Msg \<Rightarrow> wpc" where
  "w_got p (W_Ack e) m = (if seq m = stream_count p \<and> body m = e then first_ping p else W_Return 1)"
| "w_got p (W_Pong warm i) m = (if \<not> warm \<and> seq m \<noteq> of_nat i then W_Return 1 else next_ping p warm i)"
| "w_got p pc m = pc"

text \<open>The same for the reader.\<close>

fun r_out :: "rpc \<Rightarrow> Msg option" where
  "r_out (R_Ack m) = Some m"
| "r_out (R_Reply m) = Some m"
| "r_out pc = None"

fun r_waits :: "rpc \<Rightarrow> bool" where
  "r_waits (R_Stream c k) = True"
| "r_waits R_Echo = True"
| "r_waits pc = False"

fun r_got :: "rpc \<Rightarrow> Msg \<Rightarrow> rpc" where
  "r_got (R_Stream c k) m =
     (if seq m = kSentinel then R_Ack \<lparr>seq = c, body = k\<rparr> else R_Stream (c + 1) (k XOR (body m + seq m)))"
| "r_got R_Echo m = (if seq m = kSentinel then R_Exit 0 else R_Reply m)"
| "r_got pc m = pc"

section \<open>The system\<close>

text \<open>\<open>failed\<close> records that a deadline passed or that the reader could not attach.\<close>

record ipc =
  to_reader :: "Msg threads"
  to_writer :: "Msg threads"
  wr :: wpc
  rd :: rpc
  failed :: bool

definition start_ipc :: "u64 \<Rightarrow> params \<Rightarrow> ipc" where
  "start_ipc cap p = \<lparr>to_reader = start_threads cap sentinel, to_writer = start_threads cap sentinel,
     wr = first_stream p, rd = R_Open, failed = False\<rparr>"

inductive writer_step :: "u64 \<Rightarrow> params \<Rightarrow> ipc \<Rightarrow> ipc \<Rightarrow> bool" for cap p where
  w_pushing: "w_out (wr s) = Some m \<Longrightarrow> push_step cap (to_reader s) t \<Longrightarrow> sent t = sent (to_reader s) \<Longrightarrow>
    producer t = P_Idle \<or> pval (producer t) = m \<Longrightarrow> writer_step cap p s (s\<lparr>to_reader := t\<rparr>)"
| w_push_late: "w_out (wr s) = Some m \<Longrightarrow> push_step cap (to_reader s) t \<Longrightarrow> sent t = sent (to_reader s) \<Longrightarrow>
    producer t = P_Idle \<Longrightarrow> writer_step cap p s (s\<lparr>to_reader := t, wr := w_late (wr s), failed := True\<rparr>)"
| w_push_done: "w_out (wr s) = Some m \<Longrightarrow> push_step cap (to_reader s) t \<Longrightarrow> sent t = sent (to_reader s) @ [v] \<Longrightarrow>
    writer_step cap p s (s\<lparr>to_reader := t, wr := w_pushed p (wr s)\<rparr>)"
| w_popping: "w_waits (wr s) \<Longrightarrow> pop_step cap (to_writer s) t \<Longrightarrow> recvd t = recvd (to_writer s) \<Longrightarrow>
    writer_step cap p s (s\<lparr>to_writer := t\<rparr>)"
| w_pop_late: "w_waits (wr s) \<Longrightarrow> pop_step cap (to_writer s) t \<Longrightarrow> recvd t = recvd (to_writer s) \<Longrightarrow>
    consumer t = C_Idle \<Longrightarrow> writer_step cap p s (s\<lparr>to_writer := t, wr := w_late (wr s), failed := True\<rparr>)"
| w_pop_done: "w_waits (wr s) \<Longrightarrow> pop_step cap (to_writer s) t \<Longrightarrow> recvd t = recvd (to_writer s) @ [m] \<Longrightarrow>
    writer_step cap p s (s\<lparr>to_writer := t, wr := w_got p (wr s) m\<rparr>)"
| w_reap: "wr s = W_Wait \<Longrightarrow> rd s = R_Exit rc \<Longrightarrow> writer_step cap p s (s\<lparr>wr := W_Return (if rc = 0 then 0 else 1)\<rparr>)"

inductive reader_step :: "u64 \<Rightarrow> ipc \<Rightarrow> ipc \<Rightarrow> bool" for cap where
  r_attached: "rd s = R_Open \<Longrightarrow> reader_step cap s (s\<lparr>rd := R_Stream 0 0\<rparr>)"
| r_refused: "rd s = R_Open \<Longrightarrow> reader_step cap s (s\<lparr>rd := R_Exit 2, failed := True\<rparr>)"
| r_popping: "r_waits (rd s) \<Longrightarrow> pop_step cap (to_reader s) t \<Longrightarrow> recvd t = recvd (to_reader s) \<Longrightarrow>
    reader_step cap s (s\<lparr>to_reader := t\<rparr>)"
| r_pop_late: "r_waits (rd s) \<Longrightarrow> pop_step cap (to_reader s) t \<Longrightarrow> recvd t = recvd (to_reader s) \<Longrightarrow>
    consumer t = C_Idle \<Longrightarrow> reader_step cap s (s\<lparr>to_reader := t, rd := R_Exit 3, failed := True\<rparr>)"
| r_pop_done: "r_waits (rd s) \<Longrightarrow> pop_step cap (to_reader s) t \<Longrightarrow> recvd t = recvd (to_reader s) @ [m] \<Longrightarrow>
    reader_step cap s (s\<lparr>to_reader := t, rd := r_got (rd s) m\<rparr>)"
| r_pushing: "r_out (rd s) = Some m \<Longrightarrow> push_step cap (to_writer s) t \<Longrightarrow> sent t = sent (to_writer s) \<Longrightarrow>
    producer t = P_Idle \<or> pval (producer t) = m \<Longrightarrow> reader_step cap s (s\<lparr>to_writer := t\<rparr>)"
| r_push_late: "r_out (rd s) = Some m \<Longrightarrow> push_step cap (to_writer s) t \<Longrightarrow> sent t = sent (to_writer s) \<Longrightarrow>
    producer t = P_Idle \<Longrightarrow> reader_step cap s (s\<lparr>to_writer := t, rd := R_Exit 3, failed := True\<rparr>)"
| r_push_done: "r_out (rd s) = Some m \<Longrightarrow> push_step cap (to_writer s) t \<Longrightarrow> sent t = sent (to_writer s) @ [v] \<Longrightarrow>
    reader_step cap s (s\<lparr>to_writer := t, rd := R_Echo\<rparr>)"

definition ipc_step :: "u64 \<Rightarrow> params \<Rightarrow> ipc \<Rightarrow> ipc \<Rightarrow> bool" where
  "ipc_step cap p s s' \<longleftrightarrow> writer_step cap p s s' \<or> reader_step cap s s'"

section \<open>What the reader answers\<close>

text \<open>
  The answers to a sequence of messages: the count and checksum of the stream up to the sentinel,
  then every message up to the next.
\<close>

definition plain :: "Msg \<Rightarrow> bool" where
  "plain m \<longleftrightarrow> seq m \<noteq> kSentinel"

definition mixed :: "Msg list \<Rightarrow> u64" where
  "mixed ms = fold (\<lambda>m c. c XOR (body m + seq m)) ms 0"

definition ack_of :: "Msg list \<Rightarrow> Msg" where
  "ack_of ms = \<lparr>seq = of_nat (length ms), body = mixed ms\<rparr>"

definition replies :: "Msg list \<Rightarrow> Msg list" where
  "replies xs =
     (case dropWhile plain xs of [] \<Rightarrow> [] | s # es \<Rightarrow> ack_of (takeWhile plain xs) # takeWhile plain es)"

lemma replies_stream: "\<forall>m\<in>set ms. plain m \<Longrightarrow> replies ms = []"
  unfolding replies_def by (metis dropWhile_eq_Nil_conv list.simps(4))

lemma replies_echo:
  "\<forall>m\<in>set ms. plain m \<Longrightarrow> \<not> plain s \<Longrightarrow> replies (ms @ s # es) = ack_of ms # takeWhile plain es"
  by (simp add: replies_def)

lemma takeWhile_prefix_mono: "prefix xs ys \<Longrightarrow> prefix (takeWhile P xs) (takeWhile P ys)"
proof -
  assume "prefix xs ys"
  then obtain zs where ys: "ys = xs @ zs" by (auto simp: prefix_def)
  show ?thesis
  proof (cases "\<forall>x\<in>set xs. P x")
    case True
    then have "takeWhile P (xs @ zs) = takeWhile P xs @ takeWhile P zs" by (simp add: takeWhile_eq_all_conv [THEN iffD2])
    then show ?thesis by (simp add: ys)
  next
    case False
    then show ?thesis by (auto simp: ys takeWhile_append)
  qed
qed

lemma replies_mono: "prefix xs ys \<Longrightarrow> prefix (replies xs) (replies ys)"
proof -
  assume "prefix xs ys"
  then obtain zs where ys: "ys = xs @ zs" by (auto simp: prefix_def)
  show ?thesis
  proof (cases "dropWhile plain xs")
    case Nil
    then have "replies xs = []" unfolding replies_def by (simp only: list.simps)
    then show ?thesis by simp
  next
    case (Cons s es)
    define ms where "ms = takeWhile plain xs"
    have s: "\<not> plain s" using Cons by (metis hd_dropWhile list.distinct(1) list.sel(1))
    have xs: "xs = ms @ s # es" using takeWhile_dropWhile_id [of plain xs] Cons by (simp add: ms_def)
    have "\<forall>m\<in>set ms. plain m" by (auto simp: ms_def dest: set_takeWhileD)
    from replies_echo [OF this s] show ?thesis using takeWhile_prefix_mono [of es "es @ zs" plain] by (simp add: xs ys)
  qed
qed

text \<open>The state of the reader is determined by what it has received, and so is what it has sent.\<close>

fun rd_ok :: "rpc \<Rightarrow> Msg list \<Rightarrow> Msg list \<Rightarrow> bool" where
  "rd_ok R_Open xs out \<longleftrightarrow> xs = [] \<and> out = []"
| "rd_ok (R_Stream c k) xs out \<longleftrightarrow> list_all plain xs \<and> c = of_nat (length xs) \<and> k = mixed xs \<and> out = []"
| "rd_ok (R_Ack m) xs out \<longleftrightarrow> (\<exists>ms s. xs = ms @ [s] \<and> list_all plain ms \<and> \<not> plain s \<and> m = ack_of ms) \<and> out = []"
| "rd_ok R_Echo xs out \<longleftrightarrow>
     (\<exists>ms s es. xs = ms @ s # es \<and> list_all plain ms \<and> \<not> plain s \<and> list_all plain es \<and> out = ack_of ms # es)"
| "rd_ok (R_Reply m) xs out \<longleftrightarrow>
     (\<exists>ms s es. xs = ms @ s # es @ [m] \<and> list_all plain ms \<and> \<not> plain s \<and> list_all plain es \<and> plain m \<and> out = ack_of ms # es)"
| "rd_ok (R_Exit rc) xs out \<longleftrightarrow> prefix out (replies xs) \<and> (rc = 0 \<longrightarrow>
     (\<exists>ms s es s'. xs = ms @ s # es @ [s'] \<and> list_all plain ms \<and> \<not> plain s \<and> list_all plain es \<and> \<not> plain s' \<and> out = ack_of ms # es))"

lemma replies_stream_all: "list_all plain ms \<Longrightarrow> replies ms = []"
  by (rule replies_stream) (simp add: list_all_iff)

lemma replies_echo_all: "list_all plain ms \<Longrightarrow> \<not> plain s \<Longrightarrow> replies (ms @ s # es) = ack_of ms # takeWhile plain es"
  by (rule replies_echo) (simp_all add: list_all_iff)

lemma takeWhile_plain: "list_all plain es \<Longrightarrow> takeWhile plain (es @ fs) = es @ takeWhile plain fs"
  by (simp add: list_all_iff)

lemma takeWhile_all_plain: "list_all plain es \<Longrightarrow> takeWhile plain es = es"
  by (simp add: list_all_iff takeWhile_eq_all_conv)

lemma rd_ok_replies: "rd_ok pc xs out \<Longrightarrow> prefix out (replies xs)"
  by (cases pc) (auto simp: replies_echo_all takeWhile_plain takeWhile_all_plain)

lemma rd_got: "r_waits pc \<Longrightarrow> rd_ok pc xs out \<Longrightarrow> rd_ok (r_got pc m) (xs @ [m]) out"
proof (cases pc)
  case (R_Stream c k)
  then show "rd_ok pc xs out \<Longrightarrow> ?thesis" by (auto simp: plain_def ack_of_def mixed_def)
next
  case R_Echo
  then show "rd_ok pc xs out \<Longrightarrow> ?thesis"
    using takeWhile_plain by (fastforce simp: plain_def replies_echo_all)
qed simp_all

lemma rd_pushed: "r_out pc = Some m \<Longrightarrow> rd_ok pc xs out \<Longrightarrow> rd_ok R_Echo xs (out @ [m])"
  by (cases pc) fastforce+

lemma rd_late: "rd_ok pc xs out \<Longrightarrow> rd_ok (R_Exit 3) xs out"
  using rd_ok_replies by simp

section \<open>The invariant\<close>

text \<open>The stream up to message \<open>i\<close>, the messages up to the first sentinel, and the round trips.\<close>

definition stream_upto :: "nat \<Rightarrow> Msg list" where
  "stream_upto i = map (\<lambda>j. stream_msg (of_nat j)) [0..<i]"

definition streamed :: "params \<Rightarrow> Msg list" where
  "streamed p = stream_upto (unat (stream_count p))"

definition pings :: "params \<Rightarrow> bool \<Rightarrow> nat \<Rightarrow> Msg list" where
  "pings p warm i = map ping_msg (if warm then [0..<i] else [0..<unat (warmup_iters p)] @ [0..<i])"

definition all_pings :: "params \<Rightarrow> Msg list" where
  "all_pings p = pings p False (unat (rtt_iters p))"

definition rounds :: "params \<Rightarrow> bool \<Rightarrow> nat" where
  "rounds p warm = unat (if warm then warmup_iters p else rtt_iters p)"

abbreviation ack_answer :: "params \<Rightarrow> Msg" where
  "ack_answer p \<equiv> ack_of (streamed p)"

text \<open>The state of the writer gives what it has sent and what it has received.\<close>

fun wr_ok :: "params \<Rightarrow> wpc \<Rightarrow> Msg list \<Rightarrow> Msg list \<Rightarrow> bool" where
  "wr_ok p (W_Stream i e) xs ys \<longleftrightarrow> xs = stream_upto i \<and> i < unat (stream_count p) \<and> e = mixed xs \<and> ys = []"
| "wr_ok p (W_Sentinel e) xs ys \<longleftrightarrow> xs = streamed p \<and> e = mixed xs \<and> ys = []"
| "wr_ok p (W_Ack e) xs ys \<longleftrightarrow> xs = streamed p @ [sentinel] \<and> e = mixed (streamed p) \<and> ys = []"
| "wr_ok p (W_Ping warm i) xs ys \<longleftrightarrow> xs = streamed p @ sentinel # pings p warm i \<and> ys = ack_answer p # pings p warm i \<and> i < rounds p warm"
| "wr_ok p (W_Pong warm i) xs ys \<longleftrightarrow> xs = streamed p @ sentinel # pings p warm i @ [ping_msg i] \<and> ys = ack_answer p # pings p warm i
     \<and> i < rounds p warm"
| "wr_ok p W_Stop xs ys \<longleftrightarrow> xs = streamed p @ sentinel # all_pings p \<and> ys = ack_answer p # all_pings p"
| "wr_ok p W_Wait xs ys \<longleftrightarrow> (xs = streamed p @ sentinel # all_pings p \<or> xs = streamed p @ sentinel # all_pings p @ [sentinel])
     \<and> ys = ack_answer p # all_pings p"
| "wr_ok p (W_Return rc) xs ys \<longleftrightarrow> prefix ys (ack_answer p # all_pings p)
     \<and> (rc = 0 \<and> xs = streamed p @ sentinel # all_pings p @ [sentinel] \<and> ys = ack_answer p # all_pings p \<or> rc = 1)"

lemma stream_upto_Suc: "stream_upto (Suc i) = stream_upto i @ [stream_msg (of_nat i)]"
  by (simp add: stream_upto_def)

lemma pings_Suc: "pings p warm (Suc i) = pings p warm i @ [ping_msg i]"
  by (simp add: pings_def)

lemma pings_warm: "pings p True (rounds p True) = pings p False 0"
  by (simp add: pings_def rounds_def)

lemma pings_none: "pings p True 0 = []" "rounds p True = 0 \<Longrightarrow> pings p False 0 = []"
  by (simp_all add: pings_def rounds_def)

lemma all_pings: "all_pings p = pings p False (rounds p False)"
  by (simp add: all_pings_def rounds_def)

lemma mixed_snoc: "mixed (ms @ [m]) = mixed ms XOR (body m + seq m)"
  by (simp add: mixed_def)

lemma streamed_plain: "list_all plain (streamed p)"
  by (auto simp: streamed_def stream_upto_def list_all_iff plain_def stream_msg_def dest: below_sentinel)

lemma ack_answer: "ack_answer p = \<lparr>seq = stream_count p, body = expect_checksum (stream_count p)\<rparr>"
  by (simp add: ack_of_def streamed_def stream_upto_def mixed_def expect_checksum_def fold_map comp_def)

lemma ping_plain: "i < rounds p warm \<Longrightarrow> plain (ping_msg i)"
  by (auto simp: plain_def ping_msg_def rounds_def dest: below_sentinel)

lemma pings_plain: "i \<le> rounds p warm \<Longrightarrow> list_all plain (pings p warm i)"
proof -
  assume "i \<le> rounds p warm"
  moreover have "plain (ping_msg j)" if "j < unat (warmup_iters p)" for j using ping_plain [of j p True] that by (simp add: rounds_def)
  ultimately show ?thesis using ping_plain [of _ p warm] by (auto simp: pings_def list_all_iff)
qed

lemma sentinel_not_plain: "\<not> plain sentinel"
  by (simp add: plain_def sentinel_def)

lemma wr_start: "wr_ok p (first_stream p) [] []"
  by (simp add: first_stream_def stream_upto_def streamed_def mixed_def)

lemma wr_pushed: "w_out pc = Some m \<Longrightarrow> wr_ok p pc xs ys \<Longrightarrow> wr_ok p (w_pushed p pc) (xs @ [m]) ys"
proof (cases pc)
  case (W_Stream i e)
  assume h: "w_out pc = Some m" "wr_ok p pc xs ys"
  then have m: "xs @ [m] = stream_upto (Suc i)" "e XOR (body m + seq m) = mixed (stream_upto (Suc i))"
    using W_Stream by (simp_all add: stream_upto_Suc mixed_snoc)
  show ?thesis
  proof (cases "Suc i < unat (stream_count p)")
    case True
    then show ?thesis using W_Stream h m by simp
  next
    case False
    then have "Suc i = unat (stream_count p)" using W_Stream h by simp
    then show ?thesis using W_Stream h m by (simp add: streamed_def)
  qed
qed auto

lemma pings_prefix: "i \<le> rounds p warm \<Longrightarrow> prefix (pings p warm i) (all_pings p)"
proof -
  have up: "prefix [0..<i] [0..<k]" if "i \<le> k" for i k
    using that upt_add_eq_append [of 0 i "k - i"] by (simp add: prefixI)
  assume "i \<le> rounds p warm"
  then show ?thesis using up [of i "rounds p warm"]
    by (auto simp: pings_def all_pings_def rounds_def intro!: map_mono_prefix intro: prefix_prefix split: if_splits)
qed

lemma wr_prefix: "wr_ok p pc xs ys \<Longrightarrow> prefix ys (ack_answer p # all_pings p)"
  using pings_prefix by (cases pc) (auto simp: less_imp_le)

lemma wr_late: "pc \<noteq> W_Wait \<Longrightarrow> wr_ok p pc xs ys \<Longrightarrow> wr_ok p (w_late pc) xs ys"
  using wr_prefix [of p pc xs ys] by (cases pc) auto

text \<open>The next round after message \<open>i\<close> came back, and the first after the acknowledgement.\<close>

lemma wr_round:
  assumes "i \<le> rounds p warm"
    and pc: "pc = (if i < rounds p warm then W_Ping warm i else if warm \<and> 0 < rounds p False then W_Ping False 0 else W_Stop)"
  shows "wr_ok p pc (streamed p @ sentinel # pings p warm i) (ack_answer p # pings p warm i)"
proof (cases "i < rounds p warm")
  case False
  then have "i = rounds p warm" using assms(1) by simp
  then show ?thesis using pc by (cases warm) (auto simp: pings_warm all_pings)
qed (simp add: pc)

lemma next_ping_rounds:
  "next_ping p warm i = (if Suc i < rounds p warm then W_Ping warm (Suc i) else if warm \<and> 0 < rounds p False then W_Ping False 0 else W_Stop)"
  by (simp add: next_ping_def rounds_def)

lemma first_ping_rounds:
  "first_ping p = (if 0 < rounds p True then W_Ping True 0 else if True \<and> 0 < rounds p False then W_Ping False 0 else W_Stop)"
  by (simp add: first_ping_def rounds_def)

text \<open>What the writer receives is an answer to what it sent, so it is the answer it expects.\<close>

lemma wr_got:
  assumes "w_waits pc" and ok: "wr_ok p pc xs ys" and pre: "prefix (ys @ [m]) (replies xs)"
  shows "wr_ok p (w_got p pc m) xs (ys @ [m]) \<and> (\<forall>rc. w_got p pc m \<noteq> W_Return rc)"
proof (cases pc)
  case (W_Ack e)
  have "replies xs = [ack_answer p]" using ok W_Ack replies_echo_all [OF streamed_plain sentinel_not_plain, of p "[]"] by simp
  then have m: "m = ack_answer p" "ys = []" using pre ok W_Ack by auto
  then have "w_got p pc m = first_ping p" using W_Ack ok ack_answer [of p] by (simp add: ack_of_def)
  then show ?thesis using wr_round [of 0 p True, OF _ first_ping_rounds] ok W_Ack m
    by (auto simp: pings_none first_ping_def)
next
  case (W_Pong warm i)
  have i: "i < rounds p warm" using ok W_Pong by simp
  have "list_all plain (pings p warm (Suc i))" using i by (intro pings_plain) simp
  from takeWhile_all_plain [OF this] have "replies xs = ack_answer p # pings p warm (Suc i)"
    using ok W_Pong replies_echo_all [OF streamed_plain sentinel_not_plain, of p "pings p warm (Suc i)"] by (simp add: pings_Suc)
  then have m: "m = ping_msg i" "ys @ [m] = ack_answer p # pings p warm (Suc i)" using pre ok W_Pong by (auto simp: pings_Suc)
  then have "w_got p pc m = next_ping p warm i" using W_Pong by (simp add: ping_msg_def)
  moreover have "xs = streamed p @ sentinel # pings p warm (Suc i)" using ok W_Pong by (simp add: pings_Suc)
  ultimately show ?thesis using wr_round [of "Suc i" p warm, OF _ next_ping_rounds] i m(2) by (auto simp: next_ping_def)
qed (use assms(1) in simp_all)

text \<open>A reader that has ended well has received two sentinels, so the writer has sent both.\<close>

definition sentinels :: "Msg list \<Rightarrow> nat" where
  "sentinels xs = length (filter (\<lambda>m. \<not> plain m) xs)"

lemma sentinels_simps [simp]:
  "sentinels [] = 0" "sentinels (xs @ ys) = sentinels xs + sentinels ys" "sentinels (m # xs) = (if plain m then 0 else 1) + sentinels xs"
  by (simp_all add: sentinels_def)

lemma sentinels_plain: "list_all plain xs \<Longrightarrow> sentinels xs = 0"
  by (simp add: sentinels_def list_all_iff)

lemma stopped_writer:
  assumes ok: "rd_ok (R_Exit 0) zs out" and pre: "prefix zs xs"
    and xs: "xs = streamed p @ sentinel # all_pings p \<or> xs = streamed p @ sentinel # all_pings p @ [sentinel]"
  shows "zs = xs \<and> xs = streamed p @ sentinel # all_pings p @ [sentinel]"
proof -
  have two: "2 \<le> sentinels zs" using ok by (auto simp: sentinels_plain)
  have one: "sentinels (streamed p @ sentinel # all_pings p) = 1"
    using sentinels_plain [OF streamed_plain] pings_plain [of "rounds p False" p False] sentinel_not_plain
    by (simp add: sentinels_plain all_pings)
  have less: "\<not> prefix zs (streamed p @ sentinel # all_pings p)"
  proof
    assume "prefix zs (streamed p @ sentinel # all_pings p)"
    then obtain ws where "streamed p @ sentinel # all_pings p = zs @ ws" by (auto simp: prefix_def)
    then show False using two one by (metis le_add1 numeral_le_one_iff order_trans semiring_norm(69) sentinels_simps(2))
  qed
  then have "xs = (streamed p @ sentinel # all_pings p) @ [sentinel]" using xs pre by auto
  then show ?thesis using less pre by (metis append.assoc append_Cons prefix_snoc)
qed

definition codes_ok :: "ipc \<Rightarrow> bool" where
  "codes_ok s \<longleftrightarrow> (wr s = W_Return 0 \<longrightarrow> rd s = R_Exit 0) \<and> (\<forall>rc. wr s = W_Return rc \<longrightarrow> rc \<noteq> 0 \<longrightarrow> failed s)
     \<and> (\<forall>rc. rd s = R_Exit rc \<longrightarrow> rc \<noteq> 0 \<longrightarrow> failed s)"

text \<open>The last push is given up only at a deadline.\<close>

definition stop_ok :: "params \<Rightarrow> ipc \<Rightarrow> bool" where
  "stop_ok p s \<longleftrightarrow> (wr s = W_Wait \<longrightarrow> failed s \<or> sent (to_reader s) = streamed p @ sentinel # all_pings p @ [sentinel])"

definition pushes_ok :: "Msg option \<Rightarrow> Msg threads \<Rightarrow> bool" where
  "pushes_ok out t \<longleftrightarrow> (producer t \<noteq> P_Idle \<longrightarrow> out = Some (pval (producer t)))"

definition ipc_inv :: "u64 \<Rightarrow> params \<Rightarrow> ipc \<Rightarrow> bool" where
  "ipc_inv cap p s \<longleftrightarrow> threads_inv cap (to_reader s) \<and> threads_inv cap (to_writer s)
     \<and> wr_ok p (wr s) (sent (to_reader s)) (recvd (to_writer s)) \<and> rd_ok (rd s) (recvd (to_reader s)) (sent (to_writer s))
     \<and> pushes_ok (w_out (wr s)) (to_reader s) \<and> pushes_ok (r_out (rd s)) (to_writer s) \<and> codes_ok s \<and> stop_ok p s"

lemma ipc_inv_parts:
  assumes "ipc_inv cap p s"
  shows "threads_inv cap (to_reader s)" "threads_inv cap (to_writer s)"
    "wr_ok p (wr s) (sent (to_reader s)) (recvd (to_writer s))" "rd_ok (rd s) (recvd (to_reader s)) (sent (to_writer s))"
    "pushes_ok (w_out (wr s)) (to_reader s)" "pushes_ok (r_out (rd s)) (to_writer s)" "codes_ok s" "stop_ok p s"
  using assms by (simp_all add: ipc_inv_def)

text \<open>A push that returns has stored the message it was called with.\<close>

lemma pushed_value:
  assumes "push_step cap t t'" "pushes_ok (Some m) t" "sent t' = sent t @ [v]"
  shows "v = m" "producer t' = P_Idle"
  using push_step_frame(4) [OF assms(1)] assms(2,3) by (auto simp: pushes_ok_def)

text \<open>What the writer receives are answers to what it has sent.\<close>

lemma answers_sent:
  assumes "threads_inv cap a" "threads_inv cap b" "rd_ok pc (recvd a) (sent b)"
  shows "prefix (recvd b) (replies (sent a))"
  using recvd_prefix [OF assms(2)] rd_ok_replies [OF assms(3)] replies_mono [OF recvd_prefix [OF assms(1)]]
  by (meson prefix_order.trans)

lemma w_late_returns: "w_late pc = W_Wait \<or> w_late pc = W_Return 1"
  by (cases pc) simp_all

lemma w_pushed_returns: "w_out pc = Some m \<Longrightarrow> w_pushed p pc \<noteq> W_Return rc"
  by (cases pc) (simp_all add: Let_def)

lemma stop_pushed:
  "w_out pc = Some m \<Longrightarrow> wr_ok p pc xs ys \<Longrightarrow> w_pushed p pc = W_Wait \<Longrightarrow> xs @ [m] = streamed p @ sentinel # all_pings p @ [sentinel]"
  by (cases pc) (auto simp: Let_def split: if_splits)

lemma w_out_late: "w_out (w_late pc) = None"
  by (cases pc) simp_all

lemma writer_step_inv:
  assumes cap: "spsc cap" and inv: "ipc_inv cap p s" and step: "writer_step cap p s s'"
  shows "ipc_inv cap p s'"
proof -
  note i = ipc_inv_parts [OF inv] and push = spsc.push_step_inv [OF cap] and pop = spsc.pop_step_inv [OF cap]
  show ?thesis
    using step
  proof cases
    case (w_pushing m t)
    then show ?thesis using i push [OF w_pushing(3) i(1)] push_step_frame [OF w_pushing(3)]
      by (auto simp: ipc_inv_def pushes_ok_def codes_ok_def stop_ok_def)
  next
    case (w_push_late m t)
    then have "wr s \<noteq> W_Wait" by auto
    then show ?thesis
      using w_push_late i push [OF w_push_late(3) i(1)] push_step_frame [OF w_push_late(3)] wr_late [OF _ i(3)] w_late_returns [of "wr s"]
      by (auto simp: ipc_inv_def pushes_ok_def codes_ok_def stop_ok_def)
  next
    case (w_push_done m t v)
    then have "v = m" "producer t = P_Idle" using pushed_value [OF w_push_done(3), of m] i(5) by simp_all
    then show ?thesis
      using stop_pushed [OF w_push_done(2) i(3)] w_push_done i push [OF w_push_done(3) i(1)] push_step_frame [OF w_push_done(3)] wr_pushed [OF w_push_done(2) i(3)]
        w_pushed_returns [OF w_push_done(2)]
      by (auto simp: ipc_inv_def pushes_ok_def codes_ok_def stop_ok_def)
  next
    case (w_popping t)
    then show ?thesis using i pop [OF w_popping(3) i(2)] pop_step_frame [OF w_popping(3)]
      by (auto simp: ipc_inv_def pushes_ok_def codes_ok_def stop_ok_def)
  next
    case (w_pop_late t)
    then have "wr s \<noteq> W_Wait" "w_out (wr s) = None" by (auto elim: w_waits.elims)
    then show ?thesis
      using w_pop_late i pop [OF w_pop_late(3) i(2)] pop_step_frame [OF w_pop_late(3)] wr_late [OF _ i(3)] w_late_returns [of "wr s"]
      by (auto simp: ipc_inv_def pushes_ok_def codes_ok_def stop_ok_def)
  next
    case (w_pop_done t m)
    note t = pop [OF w_pop_done(3) i(2)] pop_step_frame [OF w_pop_done(3)]
    have "prefix (recvd t) (replies (sent (to_reader s)))" using answers_sent [OF i(1) t(1)] i(4) t(2) by simp
    with wr_got [OF w_pop_done(2) i(3)] w_pop_done(4)
    have "wr_ok p (w_got p (wr s) m) (sent (to_reader s)) (recvd t)" "\<forall>rc. w_got p (wr s) m \<noteq> W_Return rc" by simp_all
    moreover have "w_got p (wr s) m \<noteq> W_Wait" using w_pop_done(2) by (cases "wr s") (auto simp: first_ping_def next_ping_def)
    moreover have "producer (to_reader s) = P_Idle" using i(5) w_pop_done(2) by (auto simp: pushes_ok_def elim: w_waits.elims)
    ultimately show ?thesis using w_pop_done i t by (auto simp: ipc_inv_def pushes_ok_def codes_ok_def stop_ok_def)
  next
    case (w_reap rc)
    have "sent (to_reader s) = streamed p @ sentinel # all_pings p @ [sentinel]" if "rc = 0"
      using stopped_writer [of "recvd (to_reader s)", OF _ recvd_prefix [OF i(1)]] i(3,4) w_reap that by auto
    then show ?thesis using w_reap i by (auto simp: ipc_inv_def pushes_ok_def codes_ok_def stop_ok_def)
  qed
qed

lemma reader_step_inv:
  assumes cap: "spsc cap" and inv: "ipc_inv cap p s" and step: "reader_step cap s s'"
  shows "ipc_inv cap p s'"
proof -
  note i = ipc_inv_parts [OF inv] and push = spsc.push_step_inv [OF cap] and pop = spsc.pop_step_inv [OF cap]
  have out: "producer (to_writer s) = P_Idle" if "r_out (rd s) = None" using i(6) that by (auto simp: pushes_ok_def)
  have run: "wr s \<noteq> W_Return 0" if "\<forall>rc. rd s \<noteq> R_Exit rc" using i(7) that by (auto simp: codes_ok_def)
  show ?thesis
    using step
  proof cases
    case r_attached
    then show ?thesis using i out run by (auto simp: ipc_inv_def pushes_ok_def codes_ok_def stop_ok_def mixed_def)
  next
    case r_refused
    then show ?thesis using i out run by (auto simp: ipc_inv_def pushes_ok_def codes_ok_def stop_ok_def)
  next
    case (r_popping t)
    then show ?thesis using i pop [OF r_popping(3) i(1)] pop_step_frame [OF r_popping(3)]
      by (auto simp: ipc_inv_def pushes_ok_def codes_ok_def stop_ok_def)
  next
    case (r_pop_late t)
    then have "r_out (rd s) = None" "\<forall>rc. rd s \<noteq> R_Exit rc" by (auto elim: r_waits.elims)
    then show ?thesis
      using r_pop_late i out run pop [OF r_pop_late(3) i(1)] pop_step_frame [OF r_pop_late(3)] rd_late [OF i(4)]
      by (auto simp: ipc_inv_def pushes_ok_def codes_ok_def stop_ok_def)
  next
    case (r_pop_done t m)
    then have r: "r_out (rd s) = None" "\<forall>rc. rd s \<noteq> R_Exit rc" by (auto elim: r_waits.elims)
    moreover have "\<forall>rc. r_got (rd s) m = R_Exit rc \<longrightarrow> rc = 0" using r_pop_done(2) by (cases "rd s") auto
    ultimately show ?thesis
      using r_pop_done i out run pop [OF r_pop_done(3) i(1)] pop_step_frame [OF r_pop_done(3)] rd_got [OF r_pop_done(2) i(4)]
      by (auto simp: ipc_inv_def pushes_ok_def codes_ok_def stop_ok_def)
  next
    case (r_pushing m t)
    then show ?thesis using i push [OF r_pushing(3) i(2)] push_step_frame [OF r_pushing(3)]
      by (auto simp: ipc_inv_def pushes_ok_def codes_ok_def stop_ok_def)
  next
    case (r_push_late m t)
    then have "\<forall>rc. rd s \<noteq> R_Exit rc" by auto
    then show ?thesis
      using r_push_late i run push [OF r_push_late(3) i(2)] push_step_frame [OF r_push_late(3)] rd_late [OF i(4)]
      by (auto simp: ipc_inv_def pushes_ok_def codes_ok_def stop_ok_def)
  next
    case (r_push_done m t v)
    then have "v = m" "producer t = P_Idle" "\<forall>rc. rd s \<noteq> R_Exit rc" using pushed_value [OF r_push_done(3), of m] i(6) by auto
    then show ?thesis
      using r_push_done i run push [OF r_push_done(3) i(2)] push_step_frame [OF r_push_done(3)] rd_pushed [OF r_push_done(2) i(4)]
      by (auto simp: ipc_inv_def pushes_ok_def codes_ok_def stop_ok_def)
  qed
qed

lemma start_ipc_inv: "spsc cap \<Longrightarrow> ipc_inv cap p (start_ipc cap p)"
  using spsc.start_threads_inv [of cap sentinel] wr_start [of p]
  by (auto simp: ipc_inv_def start_ipc_def pushes_ok_def codes_ok_def stop_ok_def first_stream_def start_threads_def)

sublocale spsc \<subseteq> ipc_run: invariant_system "\<lambda>s. s = start_ipc cap p" "ipc_step cap p" "ipc_inv cap p"
  by unfold_locales
    (auto simp: ipc_step_def intro: start_ipc_inv [OF spsc_axioms] writer_step_inv [OF spsc_axioms] reader_step_inv [OF spsc_axioms])

abbreviation ipc_reach :: "u64 \<Rightarrow> params \<Rightarrow> ipc \<Rightarrow> bool" where
  "ipc_reach cap p \<equiv> reach (\<lambda>s. s = start_ipc cap p) (ipc_step cap p)"

end
