(* ===== verification/Ipc_Runs.thy ===== *)
theory Ipc_Runs
  imports Ipc_System
begin

text \<open>
  The runs of the shared-memory demo of \<^verbatim>\<open>apps/shm_ipc_posix.cpp\<close>: what every end of it means, and
  that from every state in which no deadline has passed both processes can still end well.
\<close>

section \<open>One message at a time\<close>

abbreviation ipc_steps :: "u64 \<Rightarrow> params \<Rightarrow> ipc \<Rightarrow> ipc \<Rightarrow> bool" where
  "ipc_steps cap p \<equiv> (ipc_step cap p)\<^sup>*\<^sup>*"

lemma steps_snoc: "ipc_steps cap p s s1 \<Longrightarrow> writer_step cap p s1 s2 \<or> reader_step cap s1 s2 \<Longrightarrow> ipc_steps cap p s s2"
  by (meson ipc_step_def rtranclp.rtrancl_into_rtrancl)

lemma w_pushes: "(pushing cap m)\<^sup>*\<^sup>* (to_reader s) t \<Longrightarrow> w_out (wr s) = Some m \<Longrightarrow> ipc_steps cap p s (s\<lparr>to_reader := t\<rparr>)"
proof (induction rule: rtranclp_induct)
  case (step t t')
  have "writer_step cap p (s\<lparr>to_reader := t\<rparr>) (s\<lparr>to_reader := t'\<rparr>)"
    using writer_step.w_pushing [of "s\<lparr>to_reader := t\<rparr>" m cap t' p] step by (simp add: pushing_def)
  with step show ?case using steps_snoc by blast
qed simp

lemma r_pushes: "(pushing cap m)\<^sup>*\<^sup>* (to_writer s) t \<Longrightarrow> r_out (rd s) = Some m \<Longrightarrow> ipc_steps cap p s (s\<lparr>to_writer := t\<rparr>)"
proof (induction rule: rtranclp_induct)
  case (step t t')
  have "reader_step cap (s\<lparr>to_writer := t\<rparr>) (s\<lparr>to_writer := t'\<rparr>)"
    using reader_step.r_pushing [of "s\<lparr>to_writer := t\<rparr>" m cap t'] step by (simp add: pushing_def)
  with step show ?case using steps_snoc by blast
qed simp

lemma w_pops: "(popping cap)\<^sup>*\<^sup>* (to_writer s) t \<Longrightarrow> w_waits (wr s) \<Longrightarrow> ipc_steps cap p s (s\<lparr>to_writer := t\<rparr>)"
proof (induction rule: rtranclp_induct)
  case (step t t')
  have "writer_step cap p (s\<lparr>to_writer := t\<rparr>) (s\<lparr>to_writer := t'\<rparr>)"
    using writer_step.w_popping [of "s\<lparr>to_writer := t\<rparr>" cap t' p] step by (simp add: popping_def)
  with step show ?case using steps_snoc by blast
qed simp

lemma r_pops: "(popping cap)\<^sup>*\<^sup>* (to_reader s) t \<Longrightarrow> r_waits (rd s) \<Longrightarrow> ipc_steps cap p s (s\<lparr>to_reader := t\<rparr>)"
proof (induction rule: rtranclp_induct)
  case (step t t')
  have "reader_step cap (s\<lparr>to_reader := t\<rparr>) (s\<lparr>to_reader := t'\<rparr>)"
    using reader_step.r_popping [of "s\<lparr>to_reader := t\<rparr>" cap t'] step by (simp add: popping_def)
  with step show ?case using steps_snoc by blast
qed simp

context spsc begin

lemma w_sends:
  assumes inv: "ipc_inv cap p s" and m: "w_out (wr s) = Some m"
    and room: "length (sent (to_reader s)) < length (recvd (to_reader s)) + unat cap"
  shows "\<exists>t. ipc_steps cap p s (s\<lparr>to_reader := t, wr := w_pushed p (wr s)\<rparr>)"
proof -
  have "can_push cap m (to_reader s)"
    using push_returns [OF ipc_inv_parts(1) [OF inv] _ room] ipc_inv_parts(5) [OF inv] m by (simp add: pushes_ok_def)
  then obtain t1 t2 where t: "(pushing cap m)\<^sup>*\<^sup>* (to_reader s) t1" "push_step cap t1 t2" "sent t2 = sent (to_reader s) @ [m]"
    unfolding can_push_def by auto
  have "writer_step cap p (s\<lparr>to_reader := t1\<rparr>) (s\<lparr>to_reader := t2, wr := w_pushed p (wr s)\<rparr>)"
    using writer_step.w_push_done [of "s\<lparr>to_reader := t1\<rparr>" m cap t2 m p] t m pushing_frame [OF t(1)] by simp
  then show ?thesis using steps_snoc [OF w_pushes [OF t(1) m]] by blast
qed

lemma r_sends:
  assumes inv: "ipc_inv cap p s" and m: "r_out (rd s) = Some m"
    and room: "length (sent (to_writer s)) < length (recvd (to_writer s)) + unat cap"
  shows "\<exists>t. ipc_steps cap p s (s\<lparr>to_writer := t, rd := R_Echo\<rparr>) \<and> recvd t = recvd (to_writer s)"
proof -
  have "can_push cap m (to_writer s)"
    using push_returns [OF ipc_inv_parts(2) [OF inv] _ room] ipc_inv_parts(6) [OF inv] m by (simp add: pushes_ok_def)
  then obtain t1 t2 where t: "(pushing cap m)\<^sup>*\<^sup>* (to_writer s) t1" "push_step cap t1 t2" "sent t2 = sent (to_writer s) @ [m]"
    unfolding can_push_def by auto
  have "reader_step cap (s\<lparr>to_writer := t1\<rparr>) (s\<lparr>to_writer := t2, rd := R_Echo\<rparr>)"
    using reader_step.r_push_done [of "s\<lparr>to_writer := t1\<rparr>" m cap t2 m] t m pushing_frame [OF t(1)] by simp
  then have "ipc_steps cap p s (s\<lparr>to_writer := t2, rd := R_Echo\<rparr>)" using steps_snoc [OF r_pushes [OF t(1) m]] by blast
  then show ?thesis using pushing_recvd [OF t(1)] push_step_frame(1) [OF t(2)] by auto
qed

lemma w_receives:
  assumes inv: "ipc_inv cap p s" and w: "w_waits (wr s)" and more: "length (recvd (to_writer s)) < length (sent (to_writer s))"
  shows "\<exists>t m. ipc_steps cap p s (s\<lparr>to_writer := t, wr := w_got p (wr s) m\<rparr>)"
proof -
  obtain t1 t2 m where t: "(popping cap)\<^sup>*\<^sup>* (to_writer s) t1" "pop_step cap t1 t2" "recvd t2 = recvd (to_writer s) @ [m]"
    using pop_returns [OF ipc_inv_parts(2) [OF inv] more] unfolding can_pop_def by auto
  have "writer_step cap p (s\<lparr>to_writer := t1\<rparr>) (s\<lparr>to_writer := t2, wr := w_got p (wr s) m\<rparr>)"
    using writer_step.w_pop_done [of "s\<lparr>to_writer := t1\<rparr>" cap t2 m p] t w popping_frame [OF t(1)] by simp
  then show ?thesis using steps_snoc [OF w_pops [OF t(1) w]] by blast
qed

lemma r_receives:
  assumes inv: "ipc_inv cap p s" and w: "r_waits (rd s)" and more: "length (recvd (to_reader s)) < length (sent (to_reader s))"
  shows "\<exists>t m. ipc_steps cap p s (s\<lparr>to_reader := t, rd := r_got (rd s) m\<rparr>) \<and> sent t = sent (to_reader s)
    \<and> length (recvd t) = length (recvd (to_reader s)) + 1"
proof -
  obtain t1 t2 m where t: "(popping cap)\<^sup>*\<^sup>* (to_reader s) t1" "pop_step cap t1 t2" "recvd t2 = recvd (to_reader s) @ [m]"
    using pop_returns [OF ipc_inv_parts(1) [OF inv] more] unfolding can_pop_def by auto
  have "reader_step cap (s\<lparr>to_reader := t1\<rparr>) (s\<lparr>to_reader := t2, rd := r_got (rd s) m\<rparr>)"
    using reader_step.r_pop_done [of "s\<lparr>to_reader := t1\<rparr>" cap t2 m] t w popping_frame [OF t(1)] by simp
  then have "ipc_steps cap p s (s\<lparr>to_reader := t2, rd := r_got (rd s) m\<rparr>)" using steps_snoc [OF r_pops [OF t(1) w]] by blast
  then show ?thesis using t(3) popping_sent [OF t(1)] pop_step_frame(1) [OF t(2)]
    by (intro exI [of _ t2] exI [of _ m]) simp
qed

lemma ipc_steps_inv: "ipc_steps cap p s s' \<Longrightarrow> ipc_inv cap p s \<Longrightarrow> ipc_inv cap p s'"
  by (induction rule: rtranclp_induct)
    (auto simp: ipc_step_def intro: writer_step_inv [OF spsc_axioms] reader_step_inv [OF spsc_axioms])

end

section \<open>The reader catches up\<close>

text \<open>At most one answer is under way, so the ring to the writer never fills.\<close>

lemma replies_outstanding: "wr_ok p pc xs ys \<Longrightarrow> \<forall>rc. pc \<noteq> W_Return rc \<Longrightarrow> length (replies xs) \<le> length ys + 1"
proof -
  assume ok: "wr_ok p pc xs ys" and nr: "\<forall>rc. pc \<noteq> W_Return rc"
  have e: "length (replies (streamed p @ sentinel # es)) \<le> length es + 1" for es
    using replies_echo_all [OF streamed_plain sentinel_not_plain, of p es] length_takeWhile_le [of plain es] by simp
  have f: "length (replies (streamed p @ sentinel # all_pings p @ [sentinel])) \<le> length (all_pings p) + 1"
    using replies_echo_all [OF streamed_plain sentinel_not_plain, of p "all_pings p @ [sentinel]"]
      takeWhile_plain [of "all_pings p" "[sentinel]"] pings_plain [of "rounds p False" p False]
    by (simp add: all_pings sentinel_not_plain)
  have g: "replies (stream_upto i) = []" if "i < unat (stream_count p)" for i
  proof (intro replies_stream_all)
    have "(of_nat j :: u64) \<noteq> kSentinel" if "j < i" for j using below_sentinel [of j "stream_count p"] that \<open>i < unat (stream_count p)\<close> by simp
    then show "list_all plain (stream_upto i)" by (simp add: stream_upto_def list_all_iff plain_def stream_msg_def)
  qed
  show ?thesis
  proof (cases pc)
    case (W_Ack e)
    then show ?thesis using ok e [of "[]"] by simp
  next
    case (W_Ping warm i)
    then show ?thesis using ok e [of "pings p warm i"] by simp
  next
    case (W_Pong warm i)
    then show ?thesis using ok e [of "pings p warm i @ [ping_msg i]"] by simp
  next
    case W_Wait
    then show ?thesis using ok e [of "all_pings p"] f by auto
  qed (use ok nr g e [of "all_pings p"] replies_stream_all [OF streamed_plain [of p]] in simp_all)
qed

fun behind :: "rpc \<Rightarrow> nat" where
  "behind R_Open = 1"
| "behind (R_Ack m) = 1"
| "behind (R_Reply m) = 1"
| "behind pc = 0"

definition lag :: "ipc \<Rightarrow> nat" where
  "lag s = 2 * (length (sent (to_reader s)) - length (recvd (to_reader s))) + behind (rd s)"

definition caught_up :: "ipc \<Rightarrow> bool" where
  "caught_up s \<longleftrightarrow> r_waits (rd s) \<and> recvd (to_reader s) = sent (to_reader s) \<or> rd s = R_Exit 0"

definition same_writer :: "ipc \<Rightarrow> ipc \<Rightarrow> bool" where
  "same_writer s s' \<longleftrightarrow> wr s' = wr s \<and> failed s' = failed s \<and> sent (to_reader s') = sent (to_reader s) \<and> recvd (to_writer s') = recvd (to_writer s)"

lemma behind_le: "behind pc \<le> 1"
  by (cases pc) simp_all

context spsc begin

lemma answer_has_room:
  assumes inv: "ipc_inv cap p s" and run: "\<forall>rc. wr s \<noteq> W_Return rc" and m: "r_out (rd s) = Some m"
  shows "length (sent (to_writer s)) < length (recvd (to_writer s)) + unat cap"
proof -
  note i = ipc_inv_parts [OF inv]
  have "prefix (sent (to_writer s) @ [m]) (replies (sent (to_reader s)))"
    using rd_ok_replies [OF rd_pushed [OF m i(4)]] replies_mono [OF recvd_prefix [OF i(1)]] prefix_order.trans by blast
  then have "length (sent (to_writer s)) + 1 \<le> length (replies (sent (to_reader s)))" by (auto dest: prefix_length_le)
  then show ?thesis using replies_outstanding [OF i(3) run] cap_pos by linarith
qed

lemma reader_advances:
  assumes inv: "ipc_inv cap p s" and run: "\<forall>rc. wr s \<noteq> W_Return rc" "\<not> failed s" and more: "\<not> caught_up s"
  shows "\<exists>s'. ipc_steps cap p s s' \<and> same_writer s s' \<and> lag s' < lag s"
proof -
  note i = ipc_inv_parts [OF inv]
  consider (open_) "rd s = R_Open" | (out) m where "r_out (rd s) = Some m" "behind (rd s) = 1" | (wait) "r_waits (rd s)" | (exit) rc where "rd s = R_Exit rc"
    by (cases "rd s") auto
  then show ?thesis
  proof cases
    case open_
    then have "ipc_steps cap p s (s\<lparr>rd := R_Stream 0 0\<rparr>)" using steps_snoc [OF rtranclp.rtrancl_refl] reader_step.r_attached by blast
    then show ?thesis using open_ by (intro exI [of _ "s\<lparr>rd := R_Stream 0 0\<rparr>"]) (simp add: same_writer_def lag_def)
  next
    case (out m)
    from r_sends [OF inv out(1) answer_has_room [OF inv run(1) out(1)]] obtain t
      where "ipc_steps cap p s (s\<lparr>to_writer := t, rd := R_Echo\<rparr>)" "recvd t = recvd (to_writer s)" by blast
    then show ?thesis using out(2) by (intro exI [of _ "s\<lparr>to_writer := t, rd := R_Echo\<rparr>"]) (simp add: same_writer_def lag_def)
  next
    case wait
    then have "recvd (to_reader s) \<noteq> sent (to_reader s)" using more by (simp add: caught_up_def)
    then have l: "length (recvd (to_reader s)) < length (sent (to_reader s))"
      using recvd_prefix [OF i(1)] by (metis prefix_length_less prefix_order.le_neq_trans)
    from r_receives [OF inv wait l] obtain t m where t: "ipc_steps cap p s (s\<lparr>to_reader := t, rd := r_got (rd s) m\<rparr>)"
      "sent t = sent (to_reader s)" "length (recvd t) = length (recvd (to_reader s)) + 1" by blast
    then show ?thesis using l behind_le [of "r_got (rd s) m"]
      by (intro exI [of _ "s\<lparr>to_reader := t, rd := r_got (rd s) m\<rparr>"]) (simp add: same_writer_def lag_def)
  next
    case (exit rc)
    then show ?thesis using i(7) run more by (auto simp: codes_ok_def caught_up_def)
  qed
qed

lemma reader_catches_up:
  "ipc_inv cap p s \<Longrightarrow> \<forall>rc. wr s \<noteq> W_Return rc \<Longrightarrow> \<not> failed s \<Longrightarrow>
   \<exists>s'. ipc_steps cap p s s' \<and> same_writer s s' \<and> caught_up s'"
proof (induction "lag s" arbitrary: s rule: less_induct)
  case less
  show ?case
  proof (cases "caught_up s")
    case True
    then show ?thesis by (intro exI [of _ s]) (simp add: same_writer_def)
  next
    case False
    from reader_advances [OF less.prems False] obtain s1
      where s1: "ipc_steps cap p s s1" "same_writer s s1" "lag s1 < lag s" by blast
    from less.hyps [OF s1(3) ipc_steps_inv [OF s1(1) less.prems(1)]] less.prems s1(2) obtain s2
      where "ipc_steps cap p s1 s2" "same_writer s1 s2" "caught_up s2" by (auto simp: same_writer_def)
    then show ?thesis using s1 by (intro exI [of _ s2]) (auto simp: same_writer_def intro: rtranclp_trans)
  qed
qed

end

section \<open>The writer comes to its end\<close>

text \<open>What is still to do.\<close>

fun to_do :: "params \<Rightarrow> wpc \<Rightarrow> nat" where
  "to_do p (W_Stream i e) = unat (stream_count p) - i + 2 * (rounds p True + rounds p False) + 4"
| "to_do p (W_Sentinel e) = 2 * (rounds p True + rounds p False) + 4"
| "to_do p (W_Ack e) = 2 * (rounds p True + rounds p False) + 3"
| "to_do p (W_Ping warm i) = 2 * (if warm then rounds p True - i + rounds p False else rounds p False - i) + 2"
| "to_do p (W_Pong warm i) = 2 * (if warm then rounds p True - i + rounds p False else rounds p False - i) + 1"
| "to_do p W_Stop = 2"
| "to_do p W_Wait = 1"
| "to_do p (W_Return rc) = 0"

lemma to_do_pushed: "w_out pc = Some m \<Longrightarrow> wr_ok p pc xs ys \<Longrightarrow> to_do p (w_pushed p pc) < to_do p pc"
  by (cases pc) (auto simp: Let_def)

lemma to_do_got: "w_waits pc \<Longrightarrow> wr_ok p pc xs ys \<Longrightarrow> to_do p (w_got p pc m) < to_do p pc"
  by (cases pc) (auto simp: first_ping_rounds next_ping_rounds)

text \<open>The reader ends only after the second sentinel, which is the last message.\<close>

lemma sentinels_sent: "wr_ok p pc xs ys \<Longrightarrow> pc \<noteq> W_Wait \<Longrightarrow> \<forall>rc. pc \<noteq> W_Return rc \<Longrightarrow> sentinels xs \<le> 1"
proof -
  have s: "sentinels (stream_upto i) = 0" if "i \<le> unat (stream_count p)" for i
    using streamed_plain [of p] that
    by (intro sentinels_plain) (auto simp: list_all_iff streamed_def stream_upto_def)
  note t = s [OF order.refl, folded streamed_def] and q = sentinels_plain [OF pings_plain]
  assume "wr_ok p pc xs ys" "pc \<noteq> W_Wait" "\<forall>rc. pc \<noteq> W_Return rc"
  then show ?thesis using s t q ping_plain sentinel_not_plain
    by (cases pc) (auto simp: all_pings)
qed

lemma reader_still_there:
  assumes "rd_ok (R_Exit 0) zs out" "prefix zs xs" "sentinels xs \<le> 1"
  shows False
proof -
  have "2 \<le> sentinels zs" using assms(1) by (auto simp: sentinels_plain)
  moreover obtain ws where "xs = zs @ ws" using assms(2) by (auto simp: prefix_def)
  ultimately show False using assms(3) by simp
qed

lemma answered:
  "w_waits pc \<Longrightarrow> wr_ok p pc xs ys \<Longrightarrow> r_waits rpc \<Longrightarrow> rd_ok rpc xs out \<Longrightarrow> length ys < length out"
proof -
  assume h: "w_waits pc" "wr_ok p pc xs ys" "r_waits rpc" "rd_ok rpc xs out"
  then have one: "sentinels xs \<noteq> 0" using sentinel_not_plain by (cases pc) auto
  then obtain ms s es where xs: "xs = ms @ s # es" "list_all plain ms" "\<not> plain s" "out = ack_of ms # es" "list_all plain es"
    using h(3,4) sentinels_plain [of xs] by (cases rpc) auto
  have "replies xs = out" using replies_echo_all [OF xs(2,3), of es] takeWhile_all_plain [OF xs(5)] xs(1,4) by simp
  moreover have "length (pings p warm i) < length (pings p warm (Suc i))" for warm i by (simp add: pings_def)
  then have "length ys < length (replies xs)"
    using h(1,2) replies_echo_all [OF streamed_plain sentinel_not_plain, of p] pings_Suc [symmetric, of p]
    by (cases pc) (auto simp: pings_Suc [symmetric] takeWhile_all_plain pings_plain)
  ultimately show ?thesis by simp
qed

lemma stopped_reader: "r_waits pc \<Longrightarrow> rd_ok pc (streamed p @ sentinel # all_pings p @ [sentinel]) out \<Longrightarrow> False"
proof -
  assume h: "r_waits pc" "rd_ok pc (streamed p @ sentinel # all_pings p @ [sentinel]) out"
  have two: "sentinels (streamed p @ sentinel # all_pings p @ [sentinel]) \<ge> 2" using sentinel_not_plain by simp
  have "sentinels xs \<le> 1" if "rd_ok pc xs out" for xs using that h(1) by (cases pc) (auto simp: sentinels_plain)
  then show False using h(2) two by force
qed

context spsc begin

text \<open>When the reader has caught up, the writer's next call returns.\<close>

lemma writer_advances:
  assumes inv: "ipc_inv cap p s" and run: "\<forall>rc. wr s \<noteq> W_Return rc" "\<not> failed s" and up: "caught_up s"
  shows "\<exists>s'. ipc_steps cap p s s' \<and> to_do p (wr s') < to_do p (wr s) \<and> \<not> failed s'"
proof -
  note i = ipc_inv_parts [OF inv]
  have up': "r_waits (rd s) \<and> recvd (to_reader s) = sent (to_reader s)" if "wr s \<noteq> W_Wait"
  proof -
    have "rd s \<noteq> R_Exit 0" using reader_still_there [OF _ recvd_prefix [OF i(1)] sentinels_sent [OF i(3) that run(1)]] i(4) by metis
    then show ?thesis using up by (simp add: caught_up_def)
  qed
  consider (out) m where "w_out (wr s) = Some m" "wr s \<noteq> W_Wait" | (wait) "w_waits (wr s)" "wr s \<noteq> W_Wait" | (reap) "wr s = W_Wait"
    using run(1) by (cases "wr s") auto
  then show ?thesis
  proof cases
    case (out m)
    then have "length (sent (to_reader s)) < length (recvd (to_reader s)) + unat cap" using up' cap_pos by simp
    from w_sends [OF inv out(1) this] obtain t where "ipc_steps cap p s (s\<lparr>to_reader := t, wr := w_pushed p (wr s)\<rparr>)" by blast
    then show ?thesis using to_do_pushed [OF out(1) i(3)] run(2)
      by (intro exI [of _ "s\<lparr>to_reader := t, wr := w_pushed p (wr s)\<rparr>"]) simp
  next
    case wait
    then have "length (recvd (to_writer s)) < length (sent (to_writer s))" using up' answered [OF wait(1) i(3)] i(4) by metis
    from w_receives [OF inv wait(1) this] obtain t m where "ipc_steps cap p s (s\<lparr>to_writer := t, wr := w_got p (wr s) m\<rparr>)" by blast
    then show ?thesis using to_do_got [OF wait(1) i(3)] run(2)
      by (intro exI [of _ "s\<lparr>to_writer := t, wr := w_got p (wr s) m\<rparr>"]) simp
  next
    case reap
    then have "sent (to_reader s) = streamed p @ sentinel # all_pings p @ [sentinel]" using i(8) run(2) by (simp add: stop_ok_def)
    then have "rd s = R_Exit 0" using up i(4) stopped_reader [of "rd s" p "sent (to_writer s)"] by (auto simp: caught_up_def)
    with writer_step.w_reap [OF reap this, of cap p] have "ipc_steps cap p s (s\<lparr>wr := W_Return 0\<rparr>)"
      using steps_snoc [OF rtranclp.rtrancl_refl] by simp
    then show ?thesis using reap run(2) by (intro exI [of _ "s\<lparr>wr := W_Return 0\<rparr>"]) simp
  qed
qed

lemma ipc_reach_inv: "ipc_reach cap p s \<Longrightarrow> ipc_inv cap p s"
  by (rule ipc_run.reach_inv)

lemma ipc_completes:
  "ipc_inv cap p s \<Longrightarrow> \<not> failed s \<Longrightarrow> \<exists>s'. ipc_steps cap p s s' \<and> wr s' = W_Return 0 \<and> \<not> failed s'"
proof (induction "to_do p (wr s)" arbitrary: s rule: less_induct)
  case less
  show ?case
  proof (cases "\<exists>rc. wr s = W_Return rc")
    case True
    then have "wr s = W_Return 0" using ipc_inv_parts(7) [OF less.prems(1)] less.prems(2) by (auto simp: codes_ok_def)
    then show ?thesis using less.prems(2) by blast
  next
    case False
    then obtain s1 where s1: "ipc_steps cap p s s1" "same_writer s s1" "caught_up s1"
      using reader_catches_up [OF less.prems(1) _ less.prems(2)] by auto
    note i1 = ipc_steps_inv [OF s1(1) less.prems(1)]
    obtain s2 where s2: "ipc_steps cap p s1 s2" "to_do p (wr s2) < to_do p (wr s)" "\<not> failed s2"
      using writer_advances [OF i1 _ _ s1(3)] s1(2) False less.prems(2) by (auto simp: same_writer_def)
    from less.hyps [OF s2(2) ipc_steps_inv [OF s2(1) i1] s2(3)] s1(1) s2(1) show ?thesis by (meson rtranclp_trans)
  qed
qed

end

text \<open>What the invariant says of the answers that the writer has and of its exit status.\<close>

lemma ipc_inv_result:
  assumes "ipc_inv cap p s"
  shows "prefix (recvd (to_writer s)) (\<lparr>seq = stream_count p, body = expect_checksum (stream_count p)\<rparr> # all_pings p)
    \<and> (\<forall>rc. wr s = W_Return rc \<longrightarrow>
        (if rc = 0 then rd s = R_Exit 0 \<and> recvd (to_reader s) = streamed p @ [sentinel] @ all_pings p @ [sentinel]
           \<and> recvd (to_writer s) = \<lparr>seq = stream_count p, body = expect_checksum (stream_count p)\<rparr> # all_pings p
         else rc = 1 \<and> failed s))"
proof -
  note i = ipc_inv_parts [OF assms]
  have z: "rd s = R_Exit 0 \<and> recvd (to_reader s) = streamed p @ [sentinel] @ all_pings p @ [sentinel]
      \<and> recvd (to_writer s) = ack_answer p # all_pings p" if "wr s = W_Return 0"
  proof -
    have r: "rd s = R_Exit 0" using i(7) that by (simp add: codes_ok_def)
    then have e: "rd_ok (R_Exit 0) (recvd (to_reader s)) (sent (to_writer s))" using i(4) by simp
    have w: "sent (to_reader s) = streamed p @ sentinel # all_pings p @ [sentinel]" "recvd (to_writer s) = ack_answer p # all_pings p"
      using i(3) that by simp_all
    from stopped_writer [OF e recvd_prefix [OF i(1)], of p] w r show ?thesis by simp
  qed
  have o: "rc = 1 \<and> failed s" if "wr s = W_Return rc" "rc \<noteq> 0" for rc using i(3,7) that by (auto simp: codes_ok_def)
  show ?thesis using wr_prefix [OF i(3)] z o by (simp add: ack_answer)
qed

section \<open>Properties\<close>

text \<open>
  (C9) The shared-memory demo, over every interleaving of its two processes, with stale loads of the
  ring indices and with deadlines that may pass in any failed attempt.  What the writer gets back is
  always a beginning of: the acknowledgement with the stream's own count and checksum, then the pings
  in order, so neither the integrity check nor the echo check can fail.  If the writer returns 0, the reader has
  ended with 0, has received every message and both sentinels, and the writer every answer.
  It returns 1 only if a deadline has passed or the reader could not attach, and returns nothing else.
\<close>

theorem ipc_demo_correct:
  assumes "capacity_ok cap" "ipc_reach cap p s"
  shows "prefix (recvd (to_writer s)) (\<lparr>seq = stream_count p, body = expect_checksum (stream_count p)\<rparr> # all_pings p)
    \<and> (\<forall>rc. wr s = W_Return rc \<longrightarrow>
        (if rc = 0 then rd s = R_Exit 0 \<and> recvd (to_reader s) = streamed p @ [sentinel] @ all_pings p @ [sentinel]
           \<and> recvd (to_writer s) = \<lparr>seq = stream_count p, body = expect_checksum (stream_count p)\<rparr> # all_pings p
         else rc = 1 \<and> failed s))"
proof -
  have cap: "spsc cap" by (rule spsc.intro [OF assms(1)])
  show ?thesis by (rule ipc_inv_result [OF spsc.ipc_reach_inv [OF cap assms(2)]])
qed

theorem ipc_demo_correct_witness:
  "\<exists>s. ipc_reach 4096 \<lparr>stream_count = 5, rtt_iters = 2\<rparr> s \<and> wr s = W_Return 0 \<and> rd s = R_Exit 0
     \<and> recvd (to_reader s) = map (\<lambda>i. stream_msg (of_nat i)) [0..<5] @ [sentinel] @ map ping_msg ([0..<1000] @ [0..<2]) @ [sentinel]"
proof -
  let ?p = "\<lparr>stream_count = 5, rtt_iters = 2\<rparr>"
  have cap: "capacity_ok 4096" by (simp add: capacity_ok_def)
  have r0: "ipc_reach 4096 ?p (start_ipc 4096 ?p)" by (rule reach.start) simp
  obtain s where s: "ipc_steps 4096 ?p (start_ipc 4096 ?p) s" "wr s = W_Return 0"
    using spsc.ipc_completes [OF spsc.intro [OF cap] start_ipc_inv [OF spsc.intro [OF cap]], of ?p] by (auto simp: start_ipc_def)
  from reach_steps [OF s(1) r0] have r: "ipc_reach 4096 ?p s" .
  from ipc_demo_correct [OF cap r] r s(2) show ?thesis
    by (auto simp: all_pings_def pings_def warmup_iters_def streamed_def stream_upto_def)
qed

text \<open>
  (C28) The two processes cannot block each other: from every state that they can get into before a
  deadline passes, whatever is in the rings, there is a continuation without a timeout in which the writer returns 0.
\<close>

theorem ipc_can_finish:
  assumes "capacity_ok cap" "ipc_reach cap p s" "\<not> failed s"
  shows "\<exists>s'. (ipc_step cap p)\<^sup>*\<^sup>* s s' \<and> wr s' = W_Return 0 \<and> \<not> failed s'"
proof -
  have cap: "spsc cap" by (rule spsc.intro [OF assms(1)])
  show ?thesis by (rule spsc.ipc_completes [OF cap spsc.ipc_reach_inv [OF cap assms(2)] assms(3)])
qed

theorem ipc_can_finish_witness:
  "\<exists>s'. (ipc_step 2 \<lparr>stream_count = 9, rtt_iters = 3\<rparr>)\<^sup>*\<^sup>* (start_ipc 2 \<lparr>stream_count = 9, rtt_iters = 3\<rparr>) s' \<and> wr s' = W_Return 0"
proof -
  let ?p = "\<lparr>stream_count = 9, rtt_iters = 3\<rparr>"
  have "capacity_ok 2" by (simp add: capacity_ok_def)
  moreover have "ipc_reach 2 ?p (start_ipc 2 ?p)" by (rule reach.start) simp
  ultimately show ?thesis using ipc_can_finish [of 2 ?p] by (fastforce simp: start_ipc_def)
qed

end
