(* ===== verification/Shm_Threads.thy ===== *)
theory Shm_Threads
  imports Shm_Ring Ring_Threads
begin

text \<open>
  The ring of \<^verbatim>\<open>include/lloms/shm_ring.hpp\<close> under its two processes: every access of \<^verbatim>\<open>push\<close> and \<^verbatim>\<open>pop\<close>
  to the segment is a step, each process has a handle of its own, and a load of the other process's
  index may be stale, as in \<open>Ring_Threads\<close>.  Every step is a step of the in-process ring on the
  abstraction of the segment.
\<close>

section \<open>The processes\<close>

record shm_threads =
  seg :: segment
  writer :: ShmSpscRing
  reader :: ShmSpscRing
  sh_producer :: "u8 list producer"
  sh_consumer :: "u8 list consumer"
  sh_tail_seen :: nat
  sh_head_seen :: nat
  sh_sent :: "u8 list list"
  sh_recvd :: "u8 list list"

definition start_shm :: "segment \<Rightarrow> ShmSpscRing \<Rightarrow> ShmSpscRing \<Rightarrow> shm_threads" where
  "start_shm sg w r = \<lparr>seg = sg, writer = w, reader = r, sh_producer = P_Idle, sh_consumer = C_Idle,
     sh_tail_seen = 0, sh_head_seen = 0, sh_sent = [], sh_recvd = []\<rparr>"

abbreviation seg_cap :: "shm_threads \<Rightarrow> u64" where
  "seg_cap s \<equiv> ucast (capacity (hdr (seg s)))"

inductive shm_push_step :: "nat \<Rightarrow> shm_threads \<Rightarrow> shm_threads \<Rightarrow> bool" for esz where
  sp_load: "sh_producer s = P_Idle \<Longrightarrow> length v = esz \<Longrightarrow>
    shm_push_step esz s (s\<lparr>sh_producer := P_Loaded v (sh_head (hdr (seg s)))\<rparr>)"
| sp_full: "sh_producer s = P_Loaded v head \<Longrightarrow> sh_tail_seen s \<le> t \<Longrightarrow> t \<le> length (sh_recvd s) \<Longrightarrow>
    head - of_nat t \<ge> seg_cap s \<Longrightarrow>
    shm_push_step esz s (s\<lparr>sh_producer := P_Idle, sh_tail_seen := t\<rparr>)"
| sp_room: "sh_producer s = P_Loaded v head \<Longrightarrow> sh_tail_seen s \<le> t \<Longrightarrow> t \<le> length (sh_recvd s) \<Longrightarrow>
    \<not> head - of_nat t \<ge> seg_cap s \<Longrightarrow>
    shm_push_step esz s (s\<lparr>sh_producer := P_Room v head, sh_tail_seen := t\<rparr>)"
| sp_write: "sh_producer s = P_Room v head \<Longrightarrow>
    shm_push_step esz s (s\<lparr>sh_producer := P_Written v head,
      seg := (seg s)\<lparr>payload := patch (shm_slot esz (writer s) head) v (payload (seg s))\<rparr>\<rparr>)"
| sp_store: "sh_producer s = P_Written v head \<Longrightarrow>
    shm_push_step esz s (s\<lparr>sh_producer := P_Idle, seg := (seg s)\<lparr>hdr := (hdr (seg s))\<lparr>sh_head := head + 1\<rparr>\<rparr>,
      sh_sent := sh_sent s @ [v]\<rparr>)"

inductive shm_pop_step :: "nat \<Rightarrow> shm_threads \<Rightarrow> shm_threads \<Rightarrow> bool" for esz where
  sc_load: "sh_consumer s = C_Idle \<Longrightarrow>
    shm_pop_step esz s (s\<lparr>sh_consumer := C_Loaded (sh_tail (hdr (seg s)))\<rparr>)"
| sc_empty: "sh_consumer s = C_Loaded tail \<Longrightarrow> sh_head_seen s \<le> h \<Longrightarrow> h \<le> length (sh_sent s) \<Longrightarrow>
    tail = of_nat h \<Longrightarrow>
    shm_pop_step esz s (s\<lparr>sh_consumer := C_Idle, sh_head_seen := h\<rparr>)"
| sc_corrupt: "sh_consumer s = C_Loaded tail \<Longrightarrow> sh_head_seen s \<le> h \<Longrightarrow> h \<le> length (sh_sent s) \<Longrightarrow>
    tail \<noteq> of_nat h \<Longrightarrow> of_nat h - tail > seg_cap s \<Longrightarrow>
    shm_pop_step esz s (s\<lparr>sh_consumer := C_Idle, sh_head_seen := h,
      reader := (reader s)\<lparr>corruption := corruption (reader s) + 1\<rparr>\<rparr>)"
| sc_avail: "sh_consumer s = C_Loaded tail \<Longrightarrow> sh_head_seen s \<le> h \<Longrightarrow> h \<le> length (sh_sent s) \<Longrightarrow>
    tail \<noteq> of_nat h \<Longrightarrow> \<not> of_nat h - tail > seg_cap s \<Longrightarrow>
    shm_pop_step esz s (s\<lparr>sh_consumer := C_Avail tail, sh_head_seen := h\<rparr>)"
| sc_read: "sh_consumer s = C_Avail tail \<Longrightarrow>
    shm_pop_step esz s (s\<lparr>sh_consumer := C_Read tail (slice (shm_slot esz (reader s) tail) esz (payload (seg s)))\<rparr>)"
| sc_store: "sh_consumer s = C_Read tail v \<Longrightarrow>
    shm_pop_step esz s (s\<lparr>sh_consumer := C_Idle, seg := (seg s)\<lparr>hdr := (hdr (seg s))\<lparr>sh_tail := tail + 1\<rparr>\<rparr>,
      sh_recvd := sh_recvd s @ [v]\<rparr>)"

definition shm_thread_step :: "nat \<Rightarrow> shm_threads \<Rightarrow> shm_threads \<Rightarrow> bool" where
  "shm_thread_step esz s s' \<longleftrightarrow> shm_push_step esz s s' \<or> shm_pop_step esz s s'"

section \<open>The abstraction\<close>

definition abs_threads :: "nat \<Rightarrow> u32 \<Rightarrow> shm_threads \<Rightarrow> u8 list threads" where
  "abs_threads esz cap s = \<lparr>ring = shm_abs esz cap (writer s, seg s), producer = sh_producer s, consumer = sh_consumer s,
     tail_seen = sh_tail_seen s, head_seen = sh_head_seen s, sent = sh_sent s, recvd = sh_recvd s\<rparr>"

definition handles_ok :: "nat \<Rightarrow> u32 \<Rightarrow> shm_threads \<Rightarrow> bool" where
  "handles_ok esz cap s \<longleftrightarrow> handle_ok esz cap (writer s) (length (payload (seg s)))
     \<and> handle_ok esz cap (reader s) (length (payload (seg s))) \<and> capacity (hdr (seg s)) = cap
     \<and> (sh_producer s \<noteq> P_Idle \<longrightarrow> length (pval (sh_producer s)) = esz)"

definition shm_system_inv :: "nat \<Rightarrow> u32 \<Rightarrow> u64 \<Rightarrow> shm_threads \<Rightarrow> bool" where
  "shm_system_inv esz cap n s \<longleftrightarrow> handles_ok esz cap s \<and> threads_inv (ucast cap) (abs_threads esz cap s)
     \<and> corruption (reader s) = n"

lemma abs_threads_simps [simp]:
  "producer (abs_threads esz cap s) = sh_producer s" "consumer (abs_threads esz cap s) = sh_consumer s"
  "tail_seen (abs_threads esz cap s) = sh_tail_seen s" "head_seen (abs_threads esz cap s) = sh_head_seen s"
  "sent (abs_threads esz cap s) = sh_sent s" "recvd (abs_threads esz cap s) = sh_recvd s"
  "ring (abs_threads esz cap s) = shm_abs esz cap (writer s, seg s)"
  by (simp_all add: abs_threads_def)

lemma inv_counts:
  assumes "threads_inv cp (abs_threads esz cap s)"
  shows "sh_tail_seen s \<le> length (sh_recvd s)" "length (sh_recvd s) \<le> sh_head_seen s"
    "sh_head_seen s \<le> length (sh_sent s)" "length (sh_sent s) \<le> sh_tail_seen s + unat cp"
    "sh_producer s = P_Loaded v h \<Longrightarrow> h = of_nat (length (sh_sent s))"
    "sh_consumer s = C_Loaded t \<Longrightarrow> t = of_nat (length (sh_recvd s))"
  using assms by (simp_all add: threads_inv_defs)

text \<open>A load of the head, however stale, is never taken for corruption.\<close>

lemma stale_head_sane:
  assumes "spsc cp" "threads_inv cp (abs_threads esz cap s)" "sh_head_seen s \<le> h" "h \<le> length (sh_sent s)"
    and "sh_consumer s = C_Loaded t"
  shows "\<not> of_nat h - t > cp"
proof -
  note c = inv_counts [OF assms(2)]
  have "(of_nat h :: u64) - of_nat (length (sh_recvd s)) \<le> cp"
    using c(1-4) assms(3,4) by (intro spsc.of_nat_diff_small(1) [OF assms(1)]) simp_all
  then show ?thesis using c(6) [OF assms(5)] by simp
qed

lemma push_simulates:
  assumes "handles_ok esz cap s" and ti: "threads_inv (ucast cap) (abs_threads esz cap s)" and "shm_push_step esz s s'"
  shows "push_step (ucast cap) (abs_threads esz cap s) (abs_threads esz cap s')" "handles_ok esz cap s'" "reader s' = reader s"
proof -
  have hw: "handle_ok esz cap (writer s) (length (payload (seg s)))" and cp: "capacity (hdr (seg s)) = cap"
    using assms(1) by (simp_all add: handles_ok_def)
  have good: "\<not> bad_capacity cap" "unat cap * esz \<le> length (payload (seg s))" using hw by (simp_all add: handle_ok_def)
  have sp: "spsc (ucast cap)" by (rule spsc.intro [OF good_capacity(1) [OF good(1)]])
  note c = inv_counts [OF ti]
  have small: "(of_nat (length (sh_sent s)) :: u64) - of_nat t \<le> ucast cap"
    if "sh_tail_seen s \<le> t" "t \<le> length (sh_recvd s)" for t
    using c(1-4) that by (intro spsc.of_nat_diff_small(1) [OF sp]) simp_all
  show "push_step (ucast cap) (abs_threads esz cap s) (abs_threads esz cap s')"
    using assms(3)
  proof cases
    case (sp_load v)
    then show ?thesis using push_step.push_load [of "abs_threads esz cap s" "ucast cap" v]
      by (simp add: abs_threads_def shm_abs_def)
  next
    case (sp_full v head t)
    then have "head + 1 - of_nat t > ucast cap"
      using full_tests_agree [OF good(1) small [OF sp_full(3,4)]] c(5) cp by simp
    then show ?thesis using sp_full push_step.push_full [of "abs_threads esz cap s" v head t "ucast cap"]
      by (simp add: abs_threads_def)
  next
    case (sp_room v head t)
    then have "\<not> head + 1 - of_nat t > ucast cap"
      using full_tests_agree [OF good(1) small [OF sp_room(3,4)]] c(5) cp by simp
    then show ?thesis using sp_room push_step.push_room [of "abs_threads esz cap s" v head t "ucast cap"]
      by (simp add: abs_threads_def)
  next
    case (sp_write v head)
    have "length v = esz" using assms(1) sp_write(2) by (simp add: handles_ok_def)
    then show ?thesis
      using sp_write push_step.push_write [of "abs_threads esz cap s" v head "ucast cap"]
        slices_patch [OF shm_slot_eq(2) [OF hw, of head] good(2)] shm_slot_eq(1) [OF hw, of head]
      by (simp add: abs_threads_def shm_abs_def)
  next
    case (sp_store v head)
    then show ?thesis using push_step.push_store [of "abs_threads esz cap s" v head "ucast cap"]
      by (simp add: abs_threads_def shm_abs_def)
  qed
  show "handles_ok esz cap s'" using assms(3)
  proof cases
    case (sp_write v head)
    have "shm_slot esz (writer s) head + length v \<le> length (payload (seg s))"
      using assms(1) sp_write(2) shm_slot_in_bounds [OF hw, of head] by (simp add: handles_ok_def)
    then show ?thesis using assms(1) sp_write by (simp add: handles_ok_def)
  qed (use assms(1) in \<open>auto simp: handles_ok_def\<close>)
  show "reader s' = reader s" using assms(3) by cases simp_all
qed

lemma pop_simulates:
  assumes "handles_ok esz cap s" and ti: "threads_inv (ucast cap) (abs_threads esz cap s)" and "shm_pop_step esz s s'"
  shows "pop_step (ucast cap) (abs_threads esz cap s) (abs_threads esz cap s')" "handles_ok esz cap s'"
    "corruption (reader s') = corruption (reader s)"
proof -
  have hr: "handle_ok esz cap (reader s) (length (payload (seg s)))" and cp: "capacity (hdr (seg s)) = cap"
    using assms(1) by (simp_all add: handles_ok_def)
  have sp: "spsc (ucast cap)" using hr by (intro spsc.intro good_capacity(1)) (simp add: handle_ok_def)
  have sane: False if "sh_consumer s = C_Loaded tail" "sh_head_seen s \<le> h" "h \<le> length (sh_sent s)" "of_nat h - tail > seg_cap s" for tail h
    using stale_head_sane [OF sp ti that(2,3,1)] that(4) cp by simp
  show "pop_step (ucast cap) (abs_threads esz cap s) (abs_threads esz cap s')"
    using assms(3)
  proof cases
    case sc_load
    then show ?thesis using pop_step.pop_load [of "abs_threads esz cap s" "ucast cap"] by (simp add: abs_threads_def shm_abs_def)
  next
    case (sc_empty tail h)
    then show ?thesis using pop_step.pop_empty [of "abs_threads esz cap s" tail h "ucast cap"] by (simp add: abs_threads_def)
  next
    case (sc_corrupt tail h)
    then show ?thesis using sane by blast
  next
    case (sc_avail tail h)
    then show ?thesis using pop_step.pop_avail [of "abs_threads esz cap s" tail h "ucast cap"] by (simp add: abs_threads_def)
  next
    case (sc_read tail)
    then show ?thesis using pop_step.pop_read [of "abs_threads esz cap s" tail "ucast cap"] shm_slot_eq [OF hr, of tail]
      by (simp add: abs_threads_def shm_abs_def)
  next
    case (sc_store tail v)
    then show ?thesis using pop_step.pop_store [of "abs_threads esz cap s" tail v "ucast cap"] by (simp add: abs_threads_def shm_abs_def)
  qed
  show "handles_ok esz cap s'" using assms(3) by cases (use assms(1) in \<open>auto simp: handles_ok_def handle_ok_def\<close>)
  show "corruption (reader s') = corruption (reader s)" using assms(3) by cases (use sane in auto)
qed

section \<open>Two processes on one segment\<close>

lemma shm_thread_step_inv:
  assumes "\<not> bad_capacity cap" "shm_system_inv esz cap n s" "shm_thread_step esz s s'"
  shows "shm_system_inv esz cap n s'" "thread_step (ucast cap) (abs_threads esz cap s) (abs_threads esz cap s')"
proof -
  have sp: "spsc (ucast cap)" by (rule spsc.intro [OF good_capacity(1) [OF assms(1)]])
  have h: "handles_ok esz cap s" and ti: "threads_inv (ucast cap) (abs_threads esz cap s)" and n: "corruption (reader s) = n"
    using assms(2) by (simp_all add: shm_system_inv_def)
  note push = push_simulates [OF h ti] and pop = pop_simulates [OF h ti]
  show "thread_step (ucast cap) (abs_threads esz cap s) (abs_threads esz cap s')"
    using assms(3) push(1) pop(1) by (auto simp: shm_thread_step_def thread_step_def)
  show "shm_system_inv esz cap n s'"
    using assms(3) push pop n spsc.push_step_inv [OF sp _ ti] spsc.pop_step_inv [OF sp _ ti]
    unfolding shm_thread_step_def shm_system_inv_def by metis
qed

definition shm_started :: "nat \<Rightarrow> u32 \<Rightarrow> u64 \<Rightarrow> shm_threads \<Rightarrow> bool" where
  "shm_started esz cap n s \<longleftrightarrow> (\<exists>sg w r. s = start_shm sg w r \<and> handle_ok esz cap w (length (payload sg))
     \<and> handle_ok esz cap r (length (payload sg)) \<and> capacity (hdr sg) = cap \<and> sh_head (hdr sg) = 0 \<and> sh_tail (hdr sg) = 0
     \<and> corruption r = n)"

lemma shm_started_inv: "shm_started esz cap n s \<Longrightarrow> shm_system_inv esz cap n s"
  by (auto simp: shm_started_def shm_system_inv_def handles_ok_def start_shm_def abs_threads_def shm_abs_def threads_inv_defs)

context shm_ring begin

lemma system_step_inv: "shm_system_inv esz cap n s \<Longrightarrow> shm_thread_step esz s s' \<Longrightarrow> shm_system_inv esz cap n s'"
  by (rule shm_thread_step_inv(1) [OF cap_good])

end

sublocale shm_ring \<subseteq> system: invariant_system "shm_started esz cap n" "shm_thread_step esz" "shm_system_inv esz cap n" for n
  by unfold_locales (auto intro: shm_started_inv system_step_inv)

context shm_ring begin

lemmas reach_system = system.reach_inv

end

lemma slots_apart:
  assumes "handle_ok esz cap w n" "handle_ok esz cap r m" "slot_of (ucast cap) x \<noteq> slot_of (ucast cap) y"
  shows "shm_slot esz w x + esz \<le> shm_slot esz r y \<or> shm_slot esz r y + esz \<le> shm_slot esz w x"
  using assms(3) shm_slot_eq(1) [OF assms(1), of x] shm_slot_eq(1) [OF assms(2), of y]
    mult_le_mono1 [of "Suc (slot_of (ucast cap) x)" "slot_of (ucast cap) y" esz]
    mult_le_mono1 [of "Suc (slot_of (ucast cap) y)" "slot_of (ucast cap) x" esz]
  by (cases "slot_of (ucast cap) x < slot_of (ucast cap) y") (simp_all add: Suc_le_eq add.commute)

text \<open>
  (C10) One process creates the segment and writes, another attaches to it and reads, and their accesses
  to the segment interleave in any way, with stale loads of the other's index.  Every access is an
  access of the in-process ring, so the messages received are a beginning of those sent, whole and
  in order, and the rest is in the segment; no write leaves the mapping or touches the bytes that
  the reader is about to copy; and the reader never counts a corruption that did not happen.
\<close>

theorem shm_two_processes:
  assumes "create esz mem bytes cap w0 sg0 = (Ok, w, sg)" "attach esz mem' bytes sg sg r0 = (Ok, r)"
    and "mapped bytes sg0" "esz < 2 ^ 32" "reach (\<lambda>s. s = start_shm sg w r) (shm_thread_step esz) s"
  shows "prefix (sh_recvd s) (sh_sent s) \<and> length (sh_sent s) \<le> length (sh_recvd s) + unat cap
    \<and> contents (ucast cap) (shm_abs esz cap (writer s, seg s)) = drop (length (sh_recvd s)) (sh_sent s)
    \<and> corruption (reader s) = corruption r
    \<and> (\<forall>v h. sh_producer s = P_Room v h \<longrightarrow> shm_slot esz (writer s) h + length v \<le> length (payload (seg s))
        \<and> (\<forall>t. sh_consumer s = C_Avail t \<longrightarrow> shm_slot esz (writer s) h + esz \<le> shm_slot esz (reader s) t
             \<or> shm_slot esz (reader s) t + esz \<le> shm_slot esz (writer s) h))
    \<and> (\<forall>s'. shm_thread_step esz s s' \<longrightarrow> thread_step (ucast cap) (abs_threads esz cap s) (abs_threads esz cap s'))"
proof -
  have m: "mapped bytes sg" using create_handle_ok(2) [OF assms(1,3,4)] assms(3) by (simp add: mapped_def)
  note hw = create_handle_ok [OF assms(1,3,4)]
  have hr: "handle_ok esz cap r (length (payload sg))" using attach_handle_ok [OF assms(2) m assms(4)] hw(3) by simp
  have good: "\<not> bad_capacity cap" using hw(1) by (simp add: handle_ok_def)
  have l: "shm_ring esz cap" by (rule shm_ring.intro [OF assms(4) good])
  have sp: "spsc (ucast cap)" by (rule spsc.intro [OF good_capacity(1) [OF good]])
  have idx: "sh_head (hdr sg) = 0" "sh_tail (hdr sg) = 0" using assms(1) by (auto simp: create_def Let_def split: if_splits)
  have "shm_started esz cap (corruption r) (start_shm sg w r)"
    unfolding shm_started_def using hw hr idx by (intro exI conjI) (auto simp: start_shm_def)
  then have "reach (shm_started esz cap (corruption r)) (shm_thread_step esz) s"
    using reach_init_mono [OF assms(5)] by blast
  from shm_ring.reach_system [OF l this] have inv: "shm_system_inv esz cap (corruption r) s" .
  then have h: "handles_ok esz cap s" and ti: "threads_inv (ucast cap) (abs_threads esz cap s)" and n: "corruption (reader s) = corruption r"
    by (simp_all add: shm_system_inv_def)
  have a: "handle_ok esz cap (writer s) (length (payload (seg s)))" "handle_ok esz cap (reader s) (length (payload (seg s)))"
    using h by (simp_all add: handles_ok_def)
  have "shm_slot esz (writer s) x + esz \<le> shm_slot esz (reader s) y \<or> shm_slot esz (reader s) y + esz \<le> shm_slot esz (writer s) x"
    if "sh_producer s = P_Room v x" "sh_consumer s = C_Avail y" for v x y
    by (rule slots_apart [OF a]) (use spsc.writer_not_reader [OF sp ti] that in simp)
  moreover have "shm_slot esz (writer s) x + length v \<le> length (payload (seg s))" if "sh_producer s = P_Room v x" for v x
    using shm_slot_in_bounds [OF a(1), of x] that h by (simp add: handles_ok_def)
  moreover have "prefix (sh_recvd s) (sh_sent s)" using ti by (metis abs_threads_simps(5,6) threads_inv_def data_ok_def take_is_prefix)
  moreover have "length (sh_sent s) \<le> length (sh_recvd s) + unat cap" using inv_counts(1,4) [OF ti] by simp
  moreover have "contents (ucast cap) (shm_abs esz cap (writer s, seg s)) = drop (length (sh_recvd s)) (sh_sent s)"
    using spsc.inv_contents [OF sp ti] by simp
  ultimately show ?thesis using n shm_thread_step_inv(2) [OF good inv] by blast
qed

text \<open>A run on the concrete segment of two slots of two bytes: one message is sent and waits.\<close>

definition made_reader :: ShmSpscRing where
  "made_reader = bind_ring made_seg fresh_handle"

definition made_run :: "shm_threads \<Rightarrow> bool" where
  "made_run = reach (\<lambda>s. s = start_shm made_seg made_ring made_reader) (shm_thread_step 2)"

lemma made_run_push: "made_run s \<Longrightarrow> shm_push_step 2 s s' \<Longrightarrow> made_run s'"
  unfolding made_run_def by (erule reach.more) (simp add: shm_thread_step_def)

lemma made_run_start: "made_run \<lparr>seg = made_seg, writer = made_ring, reader = made_reader, sh_producer = P_Idle,
    sh_consumer = C_Idle, sh_tail_seen = 0, sh_head_seen = 0, sh_sent = [], sh_recvd = []\<rparr>"
  unfolding made_run_def by (rule reach.start) (simp add: start_shm_def)

lemma made_reader_attached: "attach 2 64 196 made_seg made_seg fresh_handle = (Ok, made_reader)"
  by (simp add: attach_def made_seg_def made_reader_def kHeaderSize_def kHeaderAlign_def bad_capacity_def bytes_needed_def Let_def)

lemma made_hdr [simp]: "sh_head (hdr made_seg) = 0" "capacity (hdr made_seg) = 2"
  by (simp_all add: made_seg_def)

lemma made_one_sent: "\<exists>s. made_run s \<and> sh_sent s = [[8, 9]] \<and> sh_recvd s = []"
proof -
  note a1 = made_run_push [OF made_run_start shm_push_step.sp_load [where v = "[8, 9]"], simplified]
  note a2 = made_run_push [OF a1 shm_push_step.sp_room [where t = 0 and v = "[8, 9]" and head = 0], simplified]
  note a3 = made_run_push [OF a2 shm_push_step.sp_write [where v = "[8, 9]" and head = 0], simplified]
  note a4 = made_run_push [OF a3 shm_push_step.sp_store [where v = "[8, 9]" and head = 0], simplified]
  show ?thesis by (rule exI, rule conjI, rule a4) simp
qed

theorem shm_two_processes_witness:
  "\<exists>s. made_run s \<and> sh_sent s = [[8, 9]] \<and> contents (ucast (2 :: u32)) (shm_abs 2 2 (writer s, seg s)) = [[8, 9]]"
proof -
  obtain s where s: "made_run s" "sh_sent s = [[8, 9]]" "sh_recvd s = []" using made_one_sent by blast
  from shm_two_processes [OF made made_reader_attached made_mapped _ s(1) [unfolded made_run_def]] s show ?thesis by auto
qed

end
