(* ===== verification/Ipc_Bytes.thy ===== *)
theory Ipc_Bytes
  imports Ipc_Runs Shm_Threads Feed_Handler
begin

text \<open>
  The two processes of \<^verbatim>\<open>apps/shm_ipc_posix.cpp\<close> on the bytes of their segment: the messages are copied into
  and out of the slots of the two halves as the representation of \<^verbatim>\<open>Msg\<close> on a little-endian host, and
  every access to the segment is a step (\<open>Shm_Threads\<close>).  Every step is a step of \<open>Ipc_System\<close>.  What
  the reader's \<^verbatim>\<open>attach\<close> reads is never written after \<^verbatim>\<open>create\<close>, so its result does not depend on when it runs.
\<close>

section \<open>Messages as bytes\<close>

definition msg_bytes :: "Msg \<Rightarrow> u8 list" where
  "msg_bytes m = le_bytes 8 (unat (seq m)) @ le_bytes 8 (unat (body m))"

definition bytes_msg :: "u8 list \<Rightarrow> Msg" where
  "bytes_msg bs = \<lparr>seq = of_nat (le_value (slice 0 8 bs)), body = of_nat (le_value (slice 8 8 bs))\<rparr>"

lemma bytes_msg_bytes [simp]: "bytes_msg (msg_bytes m) = m"
  by (simp add: bytes_msg_def msg_bytes_def slice_def le_value_word)

lemma length_msg_bytes: "length (msg_bytes m) = kMsgSize"
  by (simp add: msg_bytes_def kMsgSize_def)

section \<open>The processes\<close>

record ipc_bytes =
  to_reader_b :: shm_threads
  to_writer_b :: shm_threads
  wr_b :: wpc
  rd_b :: rpc
  failed_b :: bool

definition start_bytes :: "params \<Rightarrow> shm_threads \<Rightarrow> shm_threads \<Rightarrow> ipc_bytes" where
  "start_bytes p a b = \<lparr>to_reader_b = a, to_writer_b = b, wr_b = first_stream p, rd_b = R_Open, failed_b = False\<rparr>"

inductive writer_byte_step :: "params \<Rightarrow> ipc_bytes \<Rightarrow> ipc_bytes \<Rightarrow> bool" for p where
  bw_pushing: "w_out (wr_b s) = Some m \<Longrightarrow> shm_push_step kMsgSize (to_reader_b s) t \<Longrightarrow> sh_sent t = sh_sent (to_reader_b s) \<Longrightarrow>
    sh_producer t = P_Idle \<or> pval (sh_producer t) = msg_bytes m \<Longrightarrow> writer_byte_step p s (s\<lparr>to_reader_b := t\<rparr>)"
| bw_push_late: "w_out (wr_b s) = Some m \<Longrightarrow> shm_push_step kMsgSize (to_reader_b s) t \<Longrightarrow> sh_sent t = sh_sent (to_reader_b s) \<Longrightarrow>
    sh_producer t = P_Idle \<Longrightarrow> writer_byte_step p s (s\<lparr>to_reader_b := t, wr_b := w_late (wr_b s), failed_b := True\<rparr>)"
| bw_push_done: "w_out (wr_b s) = Some m \<Longrightarrow> shm_push_step kMsgSize (to_reader_b s) t \<Longrightarrow> sh_sent t = sh_sent (to_reader_b s) @ [v] \<Longrightarrow>
    writer_byte_step p s (s\<lparr>to_reader_b := t, wr_b := w_pushed p (wr_b s)\<rparr>)"
| bw_popping: "w_waits (wr_b s) \<Longrightarrow> shm_pop_step kMsgSize (to_writer_b s) t \<Longrightarrow> sh_recvd t = sh_recvd (to_writer_b s) \<Longrightarrow>
    writer_byte_step p s (s\<lparr>to_writer_b := t\<rparr>)"
| bw_pop_late: "w_waits (wr_b s) \<Longrightarrow> shm_pop_step kMsgSize (to_writer_b s) t \<Longrightarrow> sh_recvd t = sh_recvd (to_writer_b s) \<Longrightarrow>
    sh_consumer t = C_Idle \<Longrightarrow> writer_byte_step p s (s\<lparr>to_writer_b := t, wr_b := w_late (wr_b s), failed_b := True\<rparr>)"
| bw_pop_done: "w_waits (wr_b s) \<Longrightarrow> shm_pop_step kMsgSize (to_writer_b s) t \<Longrightarrow> sh_recvd t = sh_recvd (to_writer_b s) @ [v] \<Longrightarrow>
    writer_byte_step p s (s\<lparr>to_writer_b := t, wr_b := w_got p (wr_b s) (bytes_msg v)\<rparr>)"
| bw_reap: "wr_b s = W_Wait \<Longrightarrow> rd_b s = R_Exit rc \<Longrightarrow> writer_byte_step p s (s\<lparr>wr_b := W_Return (if rc = 0 then 0 else 1)\<rparr>)"

inductive reader_byte_step :: "ipc_bytes \<Rightarrow> ipc_bytes \<Rightarrow> bool" where
  br_attached: "rd_b s = R_Open \<Longrightarrow> reader_byte_step s (s\<lparr>rd_b := R_Stream 0 0\<rparr>)"
| br_refused: "rd_b s = R_Open \<Longrightarrow> reader_byte_step s (s\<lparr>rd_b := R_Exit 2, failed_b := True\<rparr>)"
| br_popping: "r_waits (rd_b s) \<Longrightarrow> shm_pop_step kMsgSize (to_reader_b s) t \<Longrightarrow> sh_recvd t = sh_recvd (to_reader_b s) \<Longrightarrow>
    reader_byte_step s (s\<lparr>to_reader_b := t\<rparr>)"
| br_pop_late: "r_waits (rd_b s) \<Longrightarrow> shm_pop_step kMsgSize (to_reader_b s) t \<Longrightarrow> sh_recvd t = sh_recvd (to_reader_b s) \<Longrightarrow>
    sh_consumer t = C_Idle \<Longrightarrow> reader_byte_step s (s\<lparr>to_reader_b := t, rd_b := R_Exit 3, failed_b := True\<rparr>)"
| br_pop_done: "r_waits (rd_b s) \<Longrightarrow> shm_pop_step kMsgSize (to_reader_b s) t \<Longrightarrow> sh_recvd t = sh_recvd (to_reader_b s) @ [v] \<Longrightarrow>
    reader_byte_step s (s\<lparr>to_reader_b := t, rd_b := r_got (rd_b s) (bytes_msg v)\<rparr>)"
| br_pushing: "r_out (rd_b s) = Some m \<Longrightarrow> shm_push_step kMsgSize (to_writer_b s) t \<Longrightarrow> sh_sent t = sh_sent (to_writer_b s) \<Longrightarrow>
    sh_producer t = P_Idle \<or> pval (sh_producer t) = msg_bytes m \<Longrightarrow> reader_byte_step s (s\<lparr>to_writer_b := t\<rparr>)"
| br_push_late: "r_out (rd_b s) = Some m \<Longrightarrow> shm_push_step kMsgSize (to_writer_b s) t \<Longrightarrow> sh_sent t = sh_sent (to_writer_b s) \<Longrightarrow>
    sh_producer t = P_Idle \<Longrightarrow> reader_byte_step s (s\<lparr>to_writer_b := t, rd_b := R_Exit 3, failed_b := True\<rparr>)"
| br_push_done: "r_out (rd_b s) = Some m \<Longrightarrow> shm_push_step kMsgSize (to_writer_b s) t \<Longrightarrow> sh_sent t = sh_sent (to_writer_b s) @ [v] \<Longrightarrow>
    reader_byte_step s (s\<lparr>to_writer_b := t, rd_b := R_Echo\<rparr>)"

definition byte_step :: "params \<Rightarrow> ipc_bytes \<Rightarrow> ipc_bytes \<Rightarrow> bool" where
  "byte_step p s s' \<longleftrightarrow> writer_byte_step p s s' \<or> reader_byte_step s s'"

section \<open>The abstraction\<close>

text \<open>A ring of one type of values is a ring of another, value by value.\<close>

definition map_threads :: "('a \<Rightarrow> 'b) \<Rightarrow> 'a threads \<Rightarrow> 'b threads" where
  "map_threads f t = \<lparr>ring = \<lparr>head_ix = head_ix (ring t), tail_ix = tail_ix (ring t), slots = map f (slots (ring t))\<rparr>,
     producer = map_producer f (producer t), consumer = map_consumer f (consumer t),
     tail_seen = tail_seen t, head_seen = head_seen t, sent = map f (sent t), recvd = map f (recvd t)\<rparr>"

lemma push_step_map:
  assumes "push_step cap t t'"
  shows "push_step cap (map_threads f t) (map_threads f t')"
  using assms
proof cases
  case (push_load v)
  then show ?thesis using push_step.push_load [of "map_threads f t" cap "f v"] by (simp add: map_threads_def)
next
  case (push_full v head u)
  then show ?thesis using push_step.push_full [of "map_threads f t" "f v" head u cap] by (simp add: map_threads_def)
next
  case (push_room v head u)
  then show ?thesis using push_step.push_room [of "map_threads f t" "f v" head u cap] by (simp add: map_threads_def)
next
  case (push_write v head)
  then show ?thesis using push_step.push_write [of "map_threads f t" "f v" head cap] by (simp add: map_threads_def map_update)
next
  case (push_store v head)
  then show ?thesis using push_step.push_store [of "map_threads f t" "f v" head cap] by (simp add: map_threads_def)
qed

lemma pop_step_map:
  assumes "capacity_ok cap" "length (slots (ring t)) = unat cap" "pop_step cap t t'"
  shows "pop_step cap (map_threads f t) (map_threads f t')"
  using assms(3)
proof cases
  case pop_load
  then show ?thesis using pop_step.pop_load [of "map_threads f t" cap] by (simp add: map_threads_def)
next
  case (pop_empty tail h)
  then show ?thesis using pop_step.pop_empty [of "map_threads f t" tail h cap] by (simp add: map_threads_def)
next
  case (pop_avail tail h)
  then show ?thesis using pop_step.pop_avail [of "map_threads f t" tail h cap] by (simp add: map_threads_def)
next
  case (pop_read tail)
  have "0 < unat cap" using assms(1) by (simp add: capacity_ok_def word_le_nat_alt)
  then have "slot_of cap tail < length (slots (ring t))" using slot_of_mod [OF assms(1)] assms(2) by simp
  then show ?thesis using pop_read pop_step.pop_read [of "map_threads f t" tail cap] by (simp add: map_threads_def)
next
  case (pop_store tail v)
  then show ?thesis using pop_step.pop_store [of "map_threads f t" tail "f v" cap] by (simp add: map_threads_def)
qed

text \<open>One ring of the segment as a ring of messages.\<close>

definition msgs :: "u32 \<Rightarrow> shm_threads \<Rightarrow> Msg threads" where
  "msgs cap t = map_threads bytes_msg (abs_threads kMsgSize cap t)"

lemma msgs_simps [simp]:
  "sent (msgs cap t) = map bytes_msg (sh_sent t)" "recvd (msgs cap t) = map bytes_msg (sh_recvd t)"
  "producer (msgs cap t) = map_producer bytes_msg (sh_producer t)" "consumer (msgs cap t) = map_consumer bytes_msg (sh_consumer t)"
  by (simp_all add: msgs_def map_threads_def)

lemma map_pc_simps [simp]:
  "map_producer f x = P_Idle \<longleftrightarrow> x = P_Idle" "map_consumer f y = C_Idle \<longleftrightarrow> y = C_Idle" "x \<noteq> P_Idle \<Longrightarrow> pval (map_producer f x) = f (pval x)"
  by (cases x; cases y; simp)+

lemma msgs_pval:
  "sh_producer t = P_Idle \<or> pval (sh_producer t) = msg_bytes m \<Longrightarrow> producer (msgs cap t) = P_Idle \<or> pval (producer (msgs cap t)) = m"
  by (cases "sh_producer t = P_Idle") auto

abbreviation ring_ok :: "u32 \<Rightarrow> u64 \<Rightarrow> shm_threads \<Rightarrow> bool" where
  "ring_ok \<equiv> shm_system_inv kMsgSize"

lemma msgs_push:
  assumes "\<not> bad_capacity cap" "ring_ok cap n t" "shm_push_step kMsgSize t t'"
  shows "push_step (ucast cap) (msgs cap t) (msgs cap t')" "ring_ok cap n t'"
  using shm_thread_step_inv(1) [OF assms(1,2)] push_simulates(1) [OF _ _ assms(3)] assms(2,3)
  by (auto simp: shm_thread_step_def shm_system_inv_def msgs_def intro: push_step_map)

lemma msgs_pop:
  assumes "\<not> bad_capacity cap" "ring_ok cap n t" "shm_pop_step kMsgSize t t'"
  shows "pop_step (ucast cap) (msgs cap t) (msgs cap t')" "ring_ok cap n t'"
proof -
  have h: "handles_ok kMsgSize cap t" and i: "threads_inv (ucast cap) (abs_threads kMsgSize cap t)"
    using assms(2) by (simp_all add: shm_system_inv_def)
  have "length (slots (ring (abs_threads kMsgSize cap t))) = unat (ucast cap :: u64)" using i by (simp only: threads_inv_def counts_ok_def)
  from pop_step_map [OF good_capacity(1) [OF assms(1)] this pop_simulates(1) [OF h i assms(3)]]
  show "pop_step (ucast cap) (msgs cap t) (msgs cap t')" by (simp add: msgs_def)
  show "ring_ok cap n t'" using shm_thread_step_inv(1) [OF assms(1,2)] assms(3) by (simp add: shm_thread_step_def)
qed

definition abs_ipc :: "u32 \<Rightarrow> ipc_bytes \<Rightarrow> ipc" where
  "abs_ipc cap s = \<lparr>to_reader = msgs cap (to_reader_b s), to_writer = msgs cap (to_writer_b s), wr = wr_b s, rd = rd_b s,
     failed = failed_b s\<rparr>"

lemma abs_ipc_simps [simp]:
  "to_reader (abs_ipc cap s) = msgs cap (to_reader_b s)" "to_writer (abs_ipc cap s) = msgs cap (to_writer_b s)"
  "wr (abs_ipc cap s) = wr_b s" "rd (abs_ipc cap s) = rd_b s" "failed (abs_ipc cap s) = failed_b s"
  by (simp_all add: abs_ipc_def)

definition rings_ok :: "u32 \<Rightarrow> u64 \<Rightarrow> u64 \<Rightarrow> ipc_bytes \<Rightarrow> bool" where
  "rings_ok cap n m s \<longleftrightarrow> ring_ok cap n (to_reader_b s) \<and> ring_ok cap m (to_writer_b s)"

section \<open>The simulation\<close>

lemma writer_simulates:
  assumes cap: "\<not> bad_capacity cap" and ok: "rings_ok cap n m s" and step: "writer_byte_step p s s'"
  shows "writer_step (ucast cap) p (abs_ipc cap s) (abs_ipc cap s')" "rings_ok cap n m s'"
proof -
  have a: "ring_ok cap n (to_reader_b s)" and b: "ring_ok cap m (to_writer_b s)" using ok by (simp_all add: rings_ok_def)
  note push = msgs_push [OF cap a] and pop = msgs_pop [OF cap b]
  show "writer_step (ucast cap) p (abs_ipc cap s) (abs_ipc cap s')"
    using step
  proof cases
    case (bw_pushing m t)
    then show ?thesis using writer_step.w_pushing [of "abs_ipc cap s" m "ucast cap" "msgs cap t" p] push(1) msgs_pval [OF bw_pushing(5)] by (simp add: abs_ipc_def)
  next
    case (bw_push_late m t)
    then show ?thesis using writer_step.w_push_late [of "abs_ipc cap s" m "ucast cap" "msgs cap t" p] push(1) by (simp add: abs_ipc_def)
  next
    case (bw_push_done m t v)
    then show ?thesis using writer_step.w_push_done [of "abs_ipc cap s" m "ucast cap" "msgs cap t" "bytes_msg v" p] push(1) by (simp add: abs_ipc_def)
  next
    case (bw_popping t)
    then show ?thesis using writer_step.w_popping [of "abs_ipc cap s" "ucast cap" "msgs cap t" p] pop(1) by (simp add: abs_ipc_def)
  next
    case (bw_pop_late t)
    then show ?thesis using writer_step.w_pop_late [of "abs_ipc cap s" "ucast cap" "msgs cap t" p] pop(1) by (simp add: abs_ipc_def)
  next
    case (bw_pop_done t v)
    then show ?thesis using writer_step.w_pop_done [of "abs_ipc cap s" "ucast cap" "msgs cap t" "bytes_msg v" p] pop(1) by (simp add: abs_ipc_def)
  next
    case (bw_reap rc)
    then show ?thesis using writer_step.w_reap [of "abs_ipc cap s" rc "ucast cap" p] by (simp add: abs_ipc_def)
  qed
  show "rings_ok cap n m s'" using step push(2) pop(2) a b by cases (auto simp: rings_ok_def)
qed

lemma reader_simulates:
  assumes cap: "\<not> bad_capacity cap" and ok: "rings_ok cap n m s" and step: "reader_byte_step s s'"
  shows "reader_step (ucast cap) (abs_ipc cap s) (abs_ipc cap s')" "rings_ok cap n m s'"
proof -
  have a: "ring_ok cap n (to_reader_b s)" and b: "ring_ok cap m (to_writer_b s)" using ok by (simp_all add: rings_ok_def)
  note push = msgs_push [OF cap b] and pop = msgs_pop [OF cap a]
  show "reader_step (ucast cap) (abs_ipc cap s) (abs_ipc cap s')"
    using step
  proof cases
    case br_attached
    then show ?thesis using reader_step.r_attached [of "abs_ipc cap s" "ucast cap"] by (simp add: abs_ipc_def)
  next
    case br_refused
    then show ?thesis using reader_step.r_refused [of "abs_ipc cap s" "ucast cap"] by (simp add: abs_ipc_def)
  next
    case (br_popping t)
    then show ?thesis using reader_step.r_popping [of "abs_ipc cap s" "ucast cap" "msgs cap t"] pop(1) by (simp add: abs_ipc_def)
  next
    case (br_pop_late t)
    then show ?thesis using reader_step.r_pop_late [of "abs_ipc cap s" "ucast cap" "msgs cap t"] pop(1) by (simp add: abs_ipc_def)
  next
    case (br_pop_done t v)
    then show ?thesis using reader_step.r_pop_done [of "abs_ipc cap s" "ucast cap" "msgs cap t" "bytes_msg v"] pop(1) by (simp add: abs_ipc_def)
  next
    case (br_pushing m t)
    then show ?thesis using reader_step.r_pushing [of "abs_ipc cap s" m "ucast cap" "msgs cap t"] push(1) msgs_pval [OF br_pushing(5)] by (simp add: abs_ipc_def)
  next
    case (br_push_late m t)
    then show ?thesis using reader_step.r_push_late [of "abs_ipc cap s" m "ucast cap" "msgs cap t"] push(1) by (simp add: abs_ipc_def)
  next
    case (br_push_done m t v)
    then show ?thesis using reader_step.r_push_done [of "abs_ipc cap s" m "ucast cap" "msgs cap t" "bytes_msg v"] push(1) by (simp add: abs_ipc_def)
  qed
  show "rings_ok cap n m s'" using step push(2) pop(2) a b by cases (auto simp: rings_ok_def)
qed

section \<open>The invariant\<close>

definition bytes_inv :: "u32 \<Rightarrow> u64 \<Rightarrow> u64 \<Rightarrow> params \<Rightarrow> ipc_bytes \<Rightarrow> bool" where
  "bytes_inv cap n m p s \<longleftrightarrow> rings_ok cap n m s \<and> ipc_inv (ucast cap) p (abs_ipc cap s)"

definition bytes_started :: "u32 \<Rightarrow> u64 \<Rightarrow> u64 \<Rightarrow> params \<Rightarrow> ipc_bytes \<Rightarrow> bool" where
  "bytes_started cap n m p s \<longleftrightarrow> (\<exists>a b. s = start_bytes p a b \<and> shm_started kMsgSize cap n a \<and> shm_started kMsgSize cap m b)"

lemma started_msgs:
  assumes "shm_started kMsgSize cap n t"
  shows "sh_sent t = []" "sh_recvd t = []" "sh_producer t = P_Idle" "threads_inv (ucast cap) (msgs cap t)"
proof -
  show e: "sh_sent t = []" "sh_recvd t = []" "sh_producer t = P_Idle" using assms by (auto simp: shm_started_def start_shm_def)
  have c: "sh_consumer t = C_Idle" using assms by (auto simp: shm_started_def start_shm_def)
  have "threads_inv (ucast cap) (abs_threads kMsgSize cap t)" using shm_started_inv [OF assms] by (simp add: shm_system_inv_def)
  then show "threads_inv (ucast cap) (msgs cap t)" using e c by (simp add: threads_inv_defs msgs_def map_threads_def)
qed

lemma bytes_started_inv:
  assumes "bytes_started cap n m p s"
  shows "bytes_inv cap n m p s"
proof -
  obtain a b where s: "s = start_bytes p a b" "shm_started kMsgSize cap n a" "shm_started kMsgSize cap m b"
    using assms by (auto simp: bytes_started_def)
  have "first_stream p \<noteq> W_Return rc" "first_stream p \<noteq> W_Wait" for rc by (simp_all add: first_stream_def)
  then show ?thesis
    using s shm_started_inv [OF s(2)] shm_started_inv [OF s(3)] started_msgs [OF s(2)] started_msgs [OF s(3)] wr_start [of p]
    by (simp add: bytes_inv_def rings_ok_def start_bytes_def ipc_inv_def pushes_ok_def codes_ok_def stop_ok_def)
qed

lemma byte_step_inv:
  assumes "\<not> bad_capacity cap" "bytes_inv cap n m p s" "byte_step p s s'"
  shows "bytes_inv cap n m p s'" "ipc_step (ucast cap) p (abs_ipc cap s) (abs_ipc cap s')"
proof -
  have sp: "spsc (ucast cap)" by (rule spsc.intro [OF good_capacity(1) [OF assms(1)]])
  have ok: "rings_ok cap n m s" and inv: "ipc_inv (ucast cap) p (abs_ipc cap s)" using assms(2) by (simp_all add: bytes_inv_def)
  note w = writer_simulates [OF assms(1) ok] and r = reader_simulates [OF assms(1) ok]
  show "ipc_step (ucast cap) p (abs_ipc cap s) (abs_ipc cap s')"
    using assms(3) w(1) r(1) by (auto simp: byte_step_def ipc_step_def)
  show "bytes_inv cap n m p s'"
    using assms(3) w r writer_step_inv [OF sp inv] reader_step_inv [OF sp inv] unfolding byte_step_def bytes_inv_def by blast
qed

context shm_ring begin

lemma ipc_byte_step_inv: "bytes_inv cap n m p s \<Longrightarrow> byte_step p s s' \<Longrightarrow> bytes_inv cap n m p s'"
  by (rule byte_step_inv(1) [OF cap_good])

end

sublocale shm_ring \<subseteq> ipc_bytes: invariant_system "bytes_started cap n m p" "byte_step p" "bytes_inv cap n m p" for n m p
  by unfold_locales (auto intro: bytes_started_inv ipc_byte_step_inv)

context shm_ring begin

lemmas reach_ipc_bytes = ipc_bytes.reach_inv

end

text \<open>A ring that one process has created and the other has attached to.\<close>

lemma created_started:
  assumes "create kMsgSize mem bytes cap w0 sg0 = (Ok, w, sg)" "attach kMsgSize mem' bytes sg sg r0 = (Ok, r)" "Shm_Ring.mapped bytes sg0"
  shows "shm_started kMsgSize cap (corruption r) (start_shm sg w r)" "shm_started kMsgSize cap (corruption w) (start_shm sg r w)"
proof -
  have e: "kMsgSize < 2 ^ 32" by (simp add: kMsgSize_def)
  note hw = create_handle_ok [OF assms(1,3) e]
  have m: "Shm_Ring.mapped bytes sg" using hw(2) assms(3) by (simp add: Shm_Ring.mapped_def)
  have hr: "handle_ok kMsgSize cap r (length (payload sg))" using attach_handle_ok [OF assms(2) m e] hw(3) by simp
  have "sh_head (hdr sg) = 0" "sh_tail (hdr sg) = 0" using assms(1) by (auto simp: create_def Let_def split: if_splits)
  with hw hr show "shm_started kMsgSize cap (corruption r) (start_shm sg w r)" "shm_started kMsgSize cap (corruption w) (start_shm sg r w)"
    unfolding shm_started_def by (auto simp: start_shm_def)
qed

section \<open>Properties\<close>

text \<open>
  (C11) The shared-memory demo on the bytes of its segment, from its set-up: when the parent has set the two rings
  up and the child has attached to them, then in every interleaving of the accesses of the two
  processes to the segment, with stale loads and passing deadlines, each access is a step of the
  system on messages; the bytes that the parent has taken out
  of the second ring are those of a beginning of the acknowledgement and the pings; it returns 0 only if every
  message has gone both ways, and 1 only if a deadline passed or the child gave up; and neither side
  counts a corruption.
\<close>

theorem ipc_bytes_correct:
  assumes "ipc_setup cap True base sg1 sg2 pid = Inr (w1, r2, s1, s2)"
    and "Shm_Ring.mapped (ring_bytes cap) sg1" "Shm_Ring.mapped (ring_bytes cap) sg2"
    and "attach kMsgSize base' (ring_bytes cap) s1 s1 h1 = (Ok, r1)"
    and "attach kMsgSize (base' + ring_bytes cap) (ring_bytes cap) s2 s2 h2 = (Ok, w2)"
    and "reach (\<lambda>s. s = start_bytes p (start_shm s1 w1 r1) (start_shm s2 w2 r2)) (byte_step p) s"
  shows "prefix (map bytes_msg (sh_recvd (to_writer_b s))) (\<lparr>seq = stream_count p, body = expect_checksum (stream_count p)\<rparr> # all_pings p)
    \<and> (\<forall>rc. wr_b s = W_Return rc \<longrightarrow>
        (if rc = 0 then rd_b s = R_Exit 0
           \<and> map bytes_msg (sh_recvd (to_reader_b s)) = streamed p @ [sentinel] @ all_pings p @ [sentinel]
           \<and> map bytes_msg (sh_recvd (to_writer_b s)) = \<lparr>seq = stream_count p, body = expect_checksum (stream_count p)\<rparr> # all_pings p
         else rc = 1 \<and> failed_b s))
    \<and> corruption (reader (to_reader_b s)) = corruption r1 \<and> corruption (reader (to_writer_b s)) = corruption r2
    \<and> (\<forall>s'. byte_step p s s' \<longrightarrow> ipc_step (ucast cap) p (abs_ipc cap s) (abs_ipc cap s'))"
proof -
  have c: "create kMsgSize base (ring_bytes cap) cap fresh_handle sg1 = (Ok, w1, s1)"
    "create kMsgSize (base + ring_bytes cap) (ring_bytes cap) cap fresh_handle sg2 = (Ok, r2, s2)" "capacity_usable cap"
    using assms(1) by (auto simp: ipc_setup_def split: if_splits prod.splits)
  have good: "\<not> bad_capacity cap" using c(3) by (simp add: capacity_usable_def bad_capacity_def)
  have l: "shm_ring kMsgSize cap" by (rule shm_ring.intro [OF _ good]) (simp add: kMsgSize_def)
  have "bytes_started cap (corruption r1) (corruption r2) p (start_bytes p (start_shm s1 w1 r1) (start_shm s2 w2 r2))"
    unfolding bytes_started_def using created_started(1) [OF c(1) assms(4,2)] created_started(2) [OF c(2) assms(5,3)] by blast
  then have "reach (bytes_started cap (corruption r1) (corruption r2) p) (byte_step p) s"
    using reach_init_mono [OF assms(6)] by blast
  from shm_ring.reach_ipc_bytes [OF l this] have inv: "bytes_inv cap (corruption r1) (corruption r2) p s" .
  then have "ipc_inv (ucast cap) p (abs_ipc cap s)" by (simp add: bytes_inv_def)
  note result = ipc_inv_result [OF this, unfolded abs_ipc_simps msgs_simps]
  have "corruption (reader (to_reader_b s)) = corruption r1" "corruption (reader (to_writer_b s)) = corruption r2"
    using inv by (simp_all add: bytes_inv_def rings_ok_def shm_system_inv_def)
  moreover have "\<forall>s'. byte_step p s s' \<longrightarrow> ipc_step (ucast cap) p (abs_ipc cap s) (abs_ipc cap s')"
    using byte_step_inv(2) [OF good inv] by blast
  ultimately show ?thesis by (intro conjI) (rule conjunct1 [OF result], rule conjunct2 [OF result], assumption+)
qed

text \<open>
  Two rings of two slots in a segment of 512 bytes: the parent has set them up, the child has attached, and the
  first message of the stream is in the first ring.
\<close>

definition half_seg :: segment where
  "half_seg = raw_seg\<lparr>payload := replicate 64 0\<rparr>"

definition made_half :: segment where
  "made_half = half_seg\<lparr>hdr := \<lparr>magic = kMagic, version = kVersion, capacity = 2, elem_size = 16, reserved = replicate 6 0,
     sh_head = 0, sh_tail = 0\<rparr>\<rparr>"

definition half_ring :: ShmSpscRing where
  "half_ring = bind_ring made_half fresh_handle"

definition one_each :: params where
  "one_each = \<lparr>stream_count = 1, rtt_iters = 1\<rparr>"

abbreviation half_reach :: "ipc_bytes \<Rightarrow> bool" where
  "half_reach \<equiv> reach (\<lambda>s. s = start_bytes one_each (start_shm made_half half_ring half_ring) (start_shm made_half half_ring half_ring))
     (byte_step one_each)"

lemma half_bytes: "ring_bytes 2 = 256"
  by (simp add: ring_bytes_def round_up_64_def bytes_needed_def kMsgSize_def kHeaderSize_def)

lemma half_setup: "ipc_setup 2 True 4096 half_seg half_seg 7 = Inr (half_ring, half_ring, made_half, made_half)"
  by (simp add: ipc_setup_def half_bytes create_def precheck_def capacity_usable_def bad_capacity_def bytes_needed_def kMsgSize_def
      kHeaderSize_def kHeaderAlign_def half_ring_def made_half_def Let_def)

lemma half_attached: "attach kMsgSize 8192 256 made_half made_half fresh_handle = (Ok, half_ring)"
    "attach kMsgSize (8192 + 256) 256 made_half made_half fresh_handle = (Ok, half_ring)"
  by (simp_all add: attach_def made_half_def half_ring_def kHeaderSize_def kHeaderAlign_def bad_capacity_def bytes_needed_def kMsgSize_def Let_def)

lemma half_hdr [simp]: "sh_head (hdr made_half) = 0" "capacity (hdr made_half) = 2"
  by (simp_all add: made_half_def)

lemma half_more: "half_reach s \<Longrightarrow> writer_byte_step one_each s s' \<Longrightarrow> half_reach s'"
  by (erule reach.more) (simp add: byte_step_def)

lemma half_sent: "\<exists>s. half_reach s \<and> sh_sent (to_reader_b s) = [msg_bytes (stream_msg 0)]"
proof -
  let ?v = "msg_bytes (stream_msg 0)"
  have f: "first_stream one_each = W_Stream 0 0" by (simp add: first_stream_def one_each_def)
  have a0: "half_reach \<lparr>to_reader_b = \<lparr>seg = made_half, writer = half_ring, reader = half_ring, sh_producer = P_Idle,
        sh_consumer = C_Idle, sh_tail_seen = 0, sh_head_seen = 0, sh_sent = [], sh_recvd = []\<rparr>,
      to_writer_b = start_shm made_half half_ring half_ring, wr_b = W_Stream 0 0, rd_b = R_Open, failed_b = False\<rparr>"
    by (rule reach.start) (simp add: start_bytes_def f start_shm_def)
  note a1 = half_more [OF a0
      writer_byte_step.bw_pushing [where m = "stream_msg 0", OF _ shm_push_step.sp_load [where v = ?v]], simplified length_msg_bytes, simplified]
  note a2 = half_more [OF a1 writer_byte_step.bw_pushing [where m = "stream_msg 0", OF _
        shm_push_step.sp_room [where t = 0 and v = ?v and head = 0]], simplified]
  note a3 = half_more [OF a2 writer_byte_step.bw_pushing [where m = "stream_msg 0", OF _
        shm_push_step.sp_write [where v = ?v and head = 0]], simplified]
  note a4 = half_more [OF a3 writer_byte_step.bw_push_done [where m = "stream_msg 0" and v = ?v, OF _
        shm_push_step.sp_store [where v = ?v and head = 0]], simplified]
  show ?thesis by (rule exI, rule conjI, rule a4) simp
qed

theorem ipc_bytes_correct_witness:
  "\<exists>s. half_reach s \<and> sh_sent (to_reader_b s) = [msg_bytes (stream_msg 0)] \<and> corruption (reader (to_reader_b s)) = 0
     \<and> prefix (map bytes_msg (sh_recvd (to_writer_b s))) (\<lparr>seq = 1, body = expect_checksum 1\<rparr> # all_pings one_each)"
proof -
  obtain s where s: "half_reach s" "sh_sent (to_reader_b s) = [msg_bytes (stream_msg 0)]" using half_sent by blast
  have m: "Shm_Ring.mapped (ring_bytes 2) half_seg" by (simp add: half_bytes Shm_Ring.mapped_def half_seg_def)
  have c: "corruption half_ring = 0" by (simp add: half_ring_def bind_ring_def fresh_handle_def)
  from ipc_bytes_correct [OF half_setup m m half_attached [folded half_bytes] s(1)] s c show ?thesis
    by (auto simp: one_each_def)
qed

end
