(* ===== verification/Pingpong_Runs.thy ===== *)
theory Pingpong_Runs
  imports Pingpong
begin

text \<open>
  What \<^verbatim>\<open>bench/bench_pingpong.cpp\<close> guarantees: every round trip gives back what was sent, and from
  every state it can get into the program can still be run to its end.
\<close>

section \<open>Runs that continue\<close>

abbreviation pp_steps :: "nat \<Rightarrow> nat \<Rightarrow> pp \<Rightarrow> pp \<Rightarrow> bool" where
  "pp_steps warmup iters \<equiv> (pp_step warmup iters)\<^sup>*\<^sup>*"

lemma pp_steps_inv:
  assumes "0 < warmup" "0 < iters" "pp_steps warmup iters s s'" "pp_inv warmup iters s"
  shows "pp_inv warmup iters s'"
  using assms(3,4)
  by (induction rule: rtranclp_induct) (auto simp: pp_step_def intro: ini_step_inv [OF assms(1,2)] rsp_step_inv)

lemma ini_pushes:
  "(pushing kDepth (of_nat i))\<^sup>*\<^sup>* (ping s) t \<Longrightarrow> ini s = I_Push warm i \<Longrightarrow> pp_steps warmup iters s (s\<lparr>ping := t\<rparr>)"
proof (induction rule: rtranclp_induct)
  case (step t t')
  have "pp_step warmup iters (s\<lparr>ping := t\<rparr>) (s\<lparr>ping := t'\<rparr>)"
    using ini_step.i_pushing [of "s\<lparr>ping := t\<rparr>" warm i t' warmup iters] step by (simp add: pp_step_def pushing_def)
  with step show ?case by (meson rtranclp.rtrancl_into_rtrancl)
qed simp

lemma ini_pops:
  "(popping kDepth)\<^sup>*\<^sup>* (pong s) t \<Longrightarrow> ini s = I_Pop warm i \<Longrightarrow> pp_steps warmup iters s (s\<lparr>pong := t\<rparr>)"
proof (induction rule: rtranclp_induct)
  case (step t t')
  have "pp_step warmup iters (s\<lparr>pong := t\<rparr>) (s\<lparr>pong := t'\<rparr>)"
    using ini_step.i_popping [of "s\<lparr>pong := t\<rparr>" warm i t' warmup iters] step by (simp add: pp_step_def popping_def)
  with step show ?case by (meson rtranclp.rtrancl_into_rtrancl)
qed simp

lemma rsp_pops:
  "(popping kDepth)\<^sup>*\<^sup>* (ping s) t \<Longrightarrow> rsp s = R_Pop \<or> rsp s = R_Drain \<Longrightarrow> pp_steps warmup iters s (s\<lparr>ping := t\<rparr>)"
proof (induction rule: rtranclp_induct)
  case (step t t')
  have "rsp_step (s\<lparr>ping := t\<rparr>) (s\<lparr>ping := t'\<rparr>)"
  proof (cases "rsp s = R_Pop")
    case True
    then have eq: "s\<lparr>ping := t', rsp := R_Pop\<rparr> = s\<lparr>ping := t'\<rparr>" by (cases s) simp
    have "rsp_step (s\<lparr>ping := t\<rparr>) (s\<lparr>ping := t', rsp := R_Pop\<rparr>)"
      using rsp_step.r_popping [of "s\<lparr>ping := t\<rparr>" t'] step(2) True by (simp add: popping_def)
    then show ?thesis unfolding eq .
  next
    case False
    then show ?thesis using rsp_step.r_draining [of "s\<lparr>ping := t\<rparr>" t'] step(2,4) by (simp add: popping_def)
  qed
  with step show ?case by (meson pp_step_def rtranclp.rtrancl_into_rtrancl)
qed simp

lemma rsp_pushes:
  "(pushing kDepth m)\<^sup>*\<^sup>* (pong s) t \<Longrightarrow> rsp s = R_Push m \<Longrightarrow> pp_steps warmup iters s (s\<lparr>pong := t\<rparr>)"
proof (induction rule: rtranclp_induct)
  case (step t t')
  have "pp_step warmup iters (s\<lparr>pong := t\<rparr>) (s\<lparr>pong := t'\<rparr>)"
    using rsp_step.r_pushing [of "s\<lparr>pong := t\<rparr>" m t'] step by (simp add: pp_step_def pushing_def)
  with step show ?case by (meson rtranclp.rtrancl_into_rtrancl)
qed simp

section \<open>One round\<close>

lemmas ring_returns = spsc.push_returns [OF kDepth_spsc] spsc.pop_returns [OF kDepth_spsc] spsc.pop_gives_up [OF kDepth_spsc]

lemma kDepth_unat: "unat kDepth = 2"
  by (simp add: kDepth_def)

lemma invs: "pp_inv warmup iters s \<Longrightarrow> threads_inv kDepth (ping s)" "pp_inv warmup iters s \<Longrightarrow> threads_inv kDepth (pong s)"
  "pp_inv warmup iters s \<Longrightarrow> rsp_ok (rsp s) (ping s) (pong s)" "pp_inv warmup iters s \<Longrightarrow> flags_ok s"
  "pp_inv warmup iters s \<Longrightarrow> ini_ok warmup iters (ini s) (ping s) (pong s)"
  by (simp_all add: pp_inv_def)

text \<open>How much is under way.\<close>

lemma relay_lengths:
  assumes "pp_inv warmup iters s"
  shows "length (recvd (pong s)) \<le> length (sent (pong s))" "length (recvd (ping s)) = length (sent (pong s)) + length (in_hand (rsp s))"
    "length (recvd (ping s)) \<le> length (sent (ping s))"
  using prefix_length_le [OF recvd_prefix [OF invs(1) [OF assms]]] prefix_length_le [OF recvd_prefix [OF invs(2) [OF assms]]]
    invs(3) [OF assms] by (simp_all add: rsp_ok_def)

lemma ini_sends:
  assumes inv: "pp_inv warmup iters s" and p: "ini s = I_Push warm i"
  shows "\<exists>s'. pp_steps warmup iters s s' \<and> ini s' = I_Pop warm i"
proof -
  have "length (recvd (pong s)) = length (sent (ping s))" using invs(5) [OF inv] p by simp
  then have "length (sent (ping s)) < length (recvd (ping s)) + unat kDepth"
    using relay_lengths [OF inv] by (simp add: kDepth_unat)
  with ring_returns(1) [OF invs(1) [OF inv], of "of_nat i"] invs(5) [OF inv] p
  obtain t1 t2 where t: "(pushing kDepth (of_nat i))\<^sup>*\<^sup>* (ping s) t1" "push_step kDepth t1 t2" "sent t2 = sent (ping s) @ [of_nat i]"
    unfolding can_push_def by auto
  have "ini_step warmup iters (s\<lparr>ping := t1\<rparr>) (s\<lparr>ping := t1, ping := t2, ini := I_Pop warm i\<rparr>)"
    using t p pushing_frame [OF t(1)] by (intro ini_step.i_pushed) simp_all
  then have "pp_steps warmup iters s (s\<lparr>ping := t2, ini := I_Pop warm i\<rparr>)"
    using ini_pushes [OF t(1) p, of warmup iters] by (auto simp: pp_step_def intro: rtranclp.rtrancl_into_rtrancl)
  then show ?thesis by (intro exI [of _ "s\<lparr>ping := t2, ini := I_Pop warm i\<rparr>"]) simp
qed

lemma rsp_sends:
  assumes inv: "pp_inv warmup iters s" and r: "rsp s = R_Push m"
    and room: "length (sent (pong s)) < length (recvd (pong s)) + 2"
  shows "\<exists>s'. pp_steps warmup iters s s' \<and> ini s' = ini s \<and> recvd (pong s') = recvd (pong s)
    \<and> length (sent (pong s')) = length (sent (pong s)) + 1"
proof -
  from ring_returns(1) [OF invs(2) [OF inv], of m] invs(3) [OF inv] r room
  obtain t1 t2 where t: "(pushing kDepth m)\<^sup>*\<^sup>* (pong s) t1" "push_step kDepth t1 t2" "sent t2 = sent (pong s) @ [m]"
    unfolding can_push_def by (auto simp: rsp_ok_def kDepth_unat)
  have rv: "recvd t1 = recvd (pong s)" by (rule pushing_recvd [OF t(1)])
  have "rsp_step (s\<lparr>pong := t1\<rparr>) (s\<lparr>pong := t1, pong := t2, rsp := R_Test\<rparr>)"
    using t r pushing_frame [OF t(1)] by (intro rsp_step.r_pushed) simp_all
  then have "pp_steps warmup iters s (s\<lparr>pong := t2, rsp := R_Test\<rparr>)"
    using rsp_pushes [OF t(1) r, of warmup iters] by (auto simp: pp_step_def intro: rtranclp.rtrancl_into_rtrancl)
  then show ?thesis using t(3) push_step_frame(1) [OF t(2)] rv by (intro exI [of _ "s\<lparr>pong := t2, rsp := R_Test\<rparr>"]) simp
qed

text \<open>With a message on its ring, the responder can take it and send it back.\<close>

lemma rsp_takes:
  assumes inv: "pp_inv warmup iters s" and "rsp s = R_Spin \<or> rsp s = R_Test \<or> rsp s = R_Pop" "started s"
    and more: "length (recvd (ping s)) < length (sent (ping s))"
  shows "\<exists>s' m. pp_steps warmup iters s s' \<and> ini s' = ini s \<and> rsp s' = R_Push m \<and> pong s' = pong s"
proof -
  let ?p = "s\<lparr>rsp := R_Pop\<rparr>"
  have go: "rsp_step s' (s'\<lparr>rsp := R_Pop\<rparr>)" if "rsp s' = R_Test" for s' using that by (rule rsp_step.r_go)
  have "pp_steps warmup iters s ?p"
    using assms(2)
  proof (elim disjE)
    assume "rsp s = R_Spin"
    then have "rsp_step s (s\<lparr>rsp := R_Test\<rparr>)" "rsp_step (s\<lparr>rsp := R_Test\<rparr>) ?p"
      using rsp_step.r_start [OF _ assms(3)] go [of "s\<lparr>rsp := R_Test\<rparr>"] by simp_all
    then show ?thesis by (meson pp_step_def r_into_rtranclp rtranclp.rtrancl_into_rtrancl)
  next
    assume "rsp s = R_Test"
    from go [OF this] show ?thesis by (meson pp_step_def r_into_rtranclp)
  next
    assume "rsp s = R_Pop"
    then have "?p = s" by (cases s) simp
    then show ?thesis by simp
  qed
  moreover
  from ring_returns(2) [OF invs(1) [OF inv] more]
  obtain t1 t2 m where t: "(popping kDepth)\<^sup>*\<^sup>* (ping s) t1" "pop_step kDepth t1 t2" "recvd t2 = recvd (ping s) @ [m]"
    unfolding can_pop_def by blast
  have "rsp_step (?p\<lparr>ping := t1\<rparr>) (?p\<lparr>ping := t1, ping := t2, rsp := R_Push m\<rparr>)"
    using t popping_frame [OF t(1)] by (intro rsp_step.r_popped) simp_all
  then have "pp_steps warmup iters ?p (s\<lparr>ping := t2, rsp := R_Push m\<rparr>)"
    using rsp_pops [of ?p t1 warmup iters] t(1) by (auto simp: pp_step_def intro: rtranclp.rtrancl_into_rtrancl)
  ultimately have "pp_steps warmup iters s (s\<lparr>ping := t2, rsp := R_Push m\<rparr>)" by (rule rtranclp_trans)
  then show ?thesis by (intro exI [of _ "s\<lparr>ping := t2, rsp := R_Push m\<rparr>"] exI [of _ m]) simp
qed

lemma rsp_answers:
  assumes pos: "0 < warmup" "0 < iters" and inv: "pp_inv warmup iters s" and p: "ini s = I_Pop warm i"
  shows "\<exists>s'. pp_steps warmup iters s s' \<and> ini s' = I_Pop warm i \<and> length (recvd (pong s')) < length (sent (pong s'))"
proof -
  have one: "length (recvd (pong s)) + 1 = length (sent (ping s))" using invs(5) [OF inv] p by simp
  note l = relay_lengths [OF inv]
  have st: "started s" "rsp s \<noteq> R_Drain" "rsp s \<noteq> R_Exit" using invs(4) [OF inv] p by (auto simp: flags_ok_def)
  consider "length (recvd (pong s)) < length (sent (pong s))"
    | m where "rsp s = R_Push m" "length (sent (pong s)) = length (recvd (pong s))"
    | "rsp s = R_Spin \<or> rsp s = R_Test \<or> rsp s = R_Pop" "length (sent (pong s)) = length (recvd (pong s))"
    using l(1) st(2,3) by (cases "rsp s") (auto simp: le_eq_less_or_eq)
  then show ?thesis
  proof cases
    case 1
    then show ?thesis using p by blast
  next
    case (2 m)
    then show ?thesis using rsp_sends [OF inv, of m] p by fastforce
  next
    case 3
    then have "length (recvd (ping s)) < length (sent (ping s))" using l(2) one by (elim conjE disjE) auto
    from rsp_takes [OF inv 3(1) st(1) this] obtain s1 m where
      s1: "pp_steps warmup iters s s1" "ini s1 = ini s" "rsp s1 = R_Push m" "pong s1 = pong s" by blast
    from rsp_sends [OF pp_steps_inv [OF pos s1(1) inv] s1(3)] s1(4) 3(2) obtain s2 where
      "pp_steps warmup iters s1 s2" "ini s2 = ini s1" "recvd (pong s2) = recvd (pong s1)"
      "length (sent (pong s2)) = length (sent (pong s1)) + 1" by auto
    with s1 3(2) p show ?thesis by (intro exI [of _ s2]) (auto intro: rtranclp_trans)
  qed
qed

lemma ini_receives:
  assumes pos: "0 < warmup" "0 < iters" and inv: "pp_inv warmup iters s" and p: "ini s = I_Pop warm i"
    and more: "length (recvd (pong s)) < length (sent (pong s))"
  shows "\<exists>s'. pp_steps warmup iters s s' \<and> ini s' = next_round warmup iters warm i"
proof -
  from ring_returns(2) [OF invs(2) [OF inv] more]
  obtain t1 t2 m where t: "(popping kDepth)\<^sup>*\<^sup>* (pong s) t1" "pop_step kDepth t1 t2" "recvd t2 = recvd (pong s) @ [m]"
    unfolding can_pop_def by blast
  let ?i = "if \<not> warm \<and> m \<noteq> of_nat i then I_Corrupt else next_round warmup iters warm i"
  have "ini_step warmup iters (s\<lparr>pong := t1\<rparr>) (s\<lparr>pong := t1, pong := t2, ini := ?i\<rparr>)"
    using t p popping_frame [OF t(1)] by (intro ini_step.i_popped) simp_all
  then have st: "pp_steps warmup iters s (s\<lparr>pong := t2, ini := ?i\<rparr>)"
    using ini_pops [OF t(1) p, of warmup iters] by (auto simp: pp_step_def intro: rtranclp.rtrancl_into_rtrancl)
  have "pp_inv warmup iters (s\<lparr>pong := t2, ini := ?i\<rparr>)" by (rule pp_steps_inv [OF pos st inv])
  then have "?i = next_round warmup iters warm i" using invs(5) by (fastforce split: if_splits)
  with st show ?thesis by (intro exI [of _ "s\<lparr>pong := t2, ini := ?i\<rparr>"]) simp
qed

text \<open>So every round can be completed, from wherever it is.\<close>

lemma round_completes:
  assumes pos: "0 < warmup" "0 < iters" and inv: "pp_inv warmup iters s" and p: "ini s = I_Push warm i \<or> ini s = I_Pop warm i"
  shows "\<exists>s'. pp_steps warmup iters s s' \<and> ini s' = next_round warmup iters warm i"
proof -
  obtain s1 where s1: "pp_steps warmup iters s s1" "ini s1 = I_Pop warm i"
    using p ini_sends [OF inv] by (metis rtranclp.rtrancl_refl)
  note i1 = pp_steps_inv [OF pos s1(1) inv]
  from rsp_answers [OF pos i1 s1(2)] obtain s2 where s2: "pp_steps warmup iters s1 s2" "ini s2 = I_Pop warm i"
    "length (recvd (pong s2)) < length (sent (pong s2))" by blast
  from ini_receives [OF pos pp_steps_inv [OF pos s2(1) i1] s2(2,3)] s1(1) s2(1) show ?thesis by (meson rtranclp_trans)
qed

lemma rounds_complete:
  assumes pos: "0 < warmup" "0 < iters"
  shows "pp_inv warmup iters s \<Longrightarrow> ini s = I_Push warm i \<or> ini s = I_Pop warm i \<Longrightarrow>
    \<exists>s'. pp_steps warmup iters s s' \<and> ini s' = I_Finished"
proof (induction "if warm then warmup - i + iters else iters - i" arbitrary: s warm i rule: less_induct)
  case less
  have i: "i < (if warm then warmup else iters)" using invs(5) [OF less.prems(1)] less.prems(2) by auto
  obtain s1 where s1: "pp_steps warmup iters s s1" "ini s1 = next_round warmup iters warm i"
    using round_completes [OF pos less.prems] by blast
  note i1 = pp_steps_inv [OF pos s1(1) less.prems(1)]
  show ?case
  proof (cases "next_round warmup iters warm i = I_Finished")
    case True
    then show ?thesis using s1 by metis
  next
    case False
    then obtain warm' i' where n: "next_round warmup iters warm i = I_Push warm' i'"
      "(if warm' then warmup - i' + iters else iters - i') < (if warm then warmup - i + iters else iters - i)"
      using i by (auto simp: next_round_def split: if_splits)
    then have "\<exists>s'. pp_steps warmup iters s1 s' \<and> ini s' = I_Finished" using s1(2) by (intro less.hyps [OF _ i1]) auto
    then show ?thesis using s1(1) by (meson rtranclp_trans)
  qed
qed

section \<open>The end of the program\<close>

lemma rsp_gives_up:
  assumes inv: "pp_inv warmup iters s" and r: "rsp s = R_Pop \<or> rsp s = R_Drain" and none: "recvd (ping s) = sent (ping s)"
  shows "\<exists>s'. pp_steps warmup iters s s' \<and> ini s' = ini s \<and> rsp s' = (if rsp s = R_Pop then R_Test else R_Exit)
    \<and> stopped s' = stopped s"
proof -
  from ring_returns(3) [OF invs(1) [OF inv] none]
  obtain t1 t2 where t: "(popping kDepth)\<^sup>*\<^sup>* (ping s) t1" "pop_step kDepth t1 t2" "recvd t2 = recvd (ping s)" "consumer t2 = C_Idle"
    unfolding can_give_up_def by blast
  let ?r = "if rsp s = R_Pop then R_Test else R_Exit"
  have "rsp_step (s\<lparr>ping := t1\<rparr>) (s\<lparr>ping := t2, rsp := ?r\<rparr>)"
    using rsp_step.r_popping [of "s\<lparr>ping := t1\<rparr>" t2] rsp_step.r_drained [of "s\<lparr>ping := t1\<rparr>" t2] r t popping_frame [OF t(1)]
    by auto
  then have "pp_steps warmup iters s (s\<lparr>ping := t2, rsp := ?r\<rparr>)"
    using rsp_pops [OF t(1) r, of warmup iters] by (auto simp: pp_step_def intro: rtranclp.rtrancl_into_rtrancl)
  then show ?thesis by (intro exI [of _ "s\<lparr>ping := t2, rsp := ?r\<rparr>"]) simp
qed

lemma joined_empty:
  assumes "pp_inv warmup iters s" "ini s = I_Join rc"
  shows "recvd (ping s) = sent (ping s)" "in_hand (rsp s) = []" "started s" "stopped s"
proof -
  have "length (recvd (pong s)) = length (sent (ping s))" using invs(5) [OF assms(1)] assms(2) by simp
  with relay_lengths [OF assms(1)] have l: "length (recvd (ping s)) = length (sent (ping s))" "length (in_hand (rsp s)) = 0" by linarith+
  then show "recvd (ping s) = sent (ping s)" "in_hand (rsp s) = []"
    using prefix_same_length [OF recvd_prefix [OF invs(1) [OF assms(1)]]] by simp_all
  show "started s" "stopped s" using invs(4) [OF assms(1)] assms(2) by (auto simp: flags_ok_def)
qed

lemma rsp_exits:
  assumes pos: "0 < warmup" "0 < iters" and inv: "pp_inv warmup iters s" and p: "ini s = I_Join rc"
  shows "\<exists>s'. pp_steps warmup iters s s' \<and> ini s' = I_Join rc \<and> rsp s' = R_Exit"
proof -
  have drain: "\<exists>s'. pp_steps warmup iters s s' \<and> ini s' = I_Join rc \<and> rsp s' = R_Exit"
    if "pp_inv warmup iters s" "ini s = I_Join rc" "rsp s = R_Drain" for s
    using rsp_gives_up [OF that(1) disjI2 [OF that(3)] joined_empty(1) [OF that(1,2)]] that by auto
  have test: "\<exists>s'. pp_steps warmup iters s s' \<and> ini s' = I_Join rc \<and> rsp s' = R_Exit"
    if i: "pp_inv warmup iters s" and j: "ini s = I_Join rc" and r: "rsp s = R_Test" for s
  proof -
    have "pp_step warmup iters s (s\<lparr>rsp := R_Drain\<rparr>)"
      using rsp_step.r_stop [OF r joined_empty(4) [OF i j]] by (simp add: pp_step_def)
    then have st: "pp_steps warmup iters s (s\<lparr>rsp := R_Drain\<rparr>)" by (rule r_into_rtranclp)
    have "\<exists>s'. pp_steps warmup iters (s\<lparr>rsp := R_Drain\<rparr>) s' \<and> ini s' = I_Join rc \<and> rsp s' = R_Exit"
      using j by (intro drain pp_steps_inv [OF pos st i]) simp_all
    then show ?thesis using st by (meson rtranclp_trans)
  qed
  note e = joined_empty [OF inv p]
  show ?thesis
  proof (cases "rsp s")
    case R_Spin
    then have "pp_step warmup iters s (s\<lparr>rsp := R_Test\<rparr>)" using rsp_step.r_start e(3) by (simp add: pp_step_def)
    then have st: "pp_steps warmup iters s (s\<lparr>rsp := R_Test\<rparr>)" by (rule r_into_rtranclp)
    have "\<exists>s'. pp_steps warmup iters (s\<lparr>rsp := R_Test\<rparr>) s' \<and> ini s' = I_Join rc \<and> rsp s' = R_Exit"
      using p by (intro test pp_steps_inv [OF pos st inv]) simp_all
    then show ?thesis using st by (meson rtranclp_trans)
  next
    case R_Test
    then show ?thesis by (rule test [OF inv p])
  next
    case R_Pop
    from rsp_gives_up [OF inv disjI1 [OF R_Pop] e(1)] R_Pop p obtain s1 where
      s1: "pp_steps warmup iters s s1" "ini s1 = I_Join rc" "rsp s1 = R_Test" by auto
    from test [OF pp_steps_inv [OF pos s1(1) inv] s1(2,3)] s1(1) show ?thesis by (meson rtranclp_trans)
  next
    case (R_Push m)
    then show ?thesis using e(2) by simp
  next
    case R_Drain
    then show ?thesis by (rule drain [OF inv p])
  next
    case R_Exit
    then show ?thesis using p by blast
  qed
qed

lemma finished_returns:
  assumes pos: "0 < warmup" "0 < iters" and inv: "pp_inv warmup iters s" and p: "ini s = I_Finished \<or> (\<exists>rc. ini s = I_Join rc)"
  shows "\<exists>s'. pp_steps warmup iters s s' \<and> ini s' = I_Return 0"
proof -
  have "ini s = I_Finished \<Longrightarrow> pp_step warmup iters s (s\<lparr>stopped := True, ini := I_Join 0\<rparr>)"
    unfolding pp_step_def by (intro disjI1 ini_step.i_finished)
  then obtain s1 rc where s1: "pp_steps warmup iters s s1" "ini s1 = I_Join rc"
    using p by (metis pp.select_convs(3) pp.surjective pp.update_convs(3) r_into_rtranclp rtranclp.rtrancl_refl)
  note i1 = pp_steps_inv [OF pos s1(1) inv]
  obtain s2 where s2: "pp_steps warmup iters s1 s2" "ini s2 = I_Join rc" "rsp s2 = R_Exit"
    using rsp_exits [OF pos i1 s1(2)] by blast
  have "rc = 0" using invs(5) [OF i1] s1(2) by simp
  moreover have "pp_step warmup iters s2 (s2\<lparr>ini := I_Return rc\<rparr>)"
    unfolding pp_step_def by (intro disjI1 ini_step.i_join s2)
  ultimately show ?thesis using s1(1) s2(1)
    by (intro exI [of _ "s2\<lparr>ini := I_Return 0\<rparr>"]) (auto intro: rtranclp_trans rtranclp.rtrancl_into_rtrancl)
qed

section \<open>Properties\<close>

lemma pp_reach_inv:
  assumes "0 < warmup" "0 < iters" "pp_reach warmup iters s"
  shows "pp_inv warmup iters s"
  using pp_sys.reach_inv [of "warmup - 1" "iters - 1" s] assms by simp

lemma pp_completes:
  assumes pos: "0 < warmup" "0 < iters" and "pp_reach warmup iters s"
  shows "\<exists>s'. pp_steps warmup iters s s' \<and> ini s' = I_Return 0"
proof -
  have inv: "pp_inv warmup iters s" by (rule pp_reach_inv [OF assms])
  have finish: "\<exists>s'. pp_steps warmup iters s s' \<and> ini s' = I_Return 0"
    if h: "pp_inv warmup iters s" "ini s = I_Push warm i \<or> ini s = I_Pop warm i" for s warm i
  proof -
    obtain s1 where s1: "pp_steps warmup iters s s1" "ini s1 = I_Finished" using rounds_complete [OF pos h] by blast
    from finished_returns [OF pos pp_steps_inv [OF pos s1(1) h(1)]] s1 show ?thesis by (meson rtranclp_trans)
  qed
  show ?thesis
  proof (cases "ini s")
    case I_Start
    then have st: "pp_steps warmup iters s (s\<lparr>started := True, ini := I_Push True 0\<rparr>)"
      using ini_step.i_start by (auto simp: pp_step_def)
    have "\<exists>s'. pp_steps warmup iters (s\<lparr>started := True, ini := I_Push True 0\<rparr>) s' \<and> ini s' = I_Return 0"
      by (rule finish [OF pp_steps_inv [OF pos st inv], of True 0]) simp
    then show ?thesis using st by (meson rtranclp_trans)
  next
    case I_Finished
    then show ?thesis using finished_returns [OF pos inv] by blast
  next
    case I_Corrupt
    then show ?thesis using invs(5) [OF inv] by simp
  next
    case (I_Join rc)
    then show ?thesis using finished_returns [OF pos inv] by blast
  next
    case (I_Return rc)
    then have "rc = 0" using invs(5) [OF inv] by simp
    then show ?thesis using I_Return by blast
  qed (use finish [OF inv] in blast)+
qed

lemma warmup_positive: "0 < warmup_rounds iters"
  by (simp add: warmup_rounds_def)

lemma ini_ok_prefix:
  "ini_ok warmup iters p a b \<Longrightarrow> prefix (sent a) (all_msgs warmup iters) \<and> length (sent a) \<le> length (recvd b) + 1"
proof -
  have up: "prefix [0..<i] [0..<k]" if "i \<le> k" for i k
    using that upt_add_eq_append [of 0 i "k - i"] by (simp add: prefixI)
  have "prefix (msgs warmup warm i) (all_msgs warmup iters)" if "i \<le> (if warm then warmup else iters)" for warm i
    using up [of i warmup] up [of i iters] that
    by (auto simp: msgs_def all_msgs_def intro!: map_mono_prefix intro: prefix_prefix split: if_splits)
  then show "ini_ok warmup iters p a b \<Longrightarrow> ?thesis"
    by (cases p) (auto simp: msgs_Suc [symmetric] Suc_le_eq)
qed

text \<open>
  (C27) In every interleaving of the two threads of the round-trip benchmark, with stale loads of the
  ring indices and of the flags: the corruption branch is never taken; at most one message is under
  way, as the measurement needs; what has come back is a beginning of the numbers of the warm-up
  and the timed rounds, in order; and when the program returns it returns 0, has every answer, the
  responder has ended and has thrown nothing away.
\<close>

theorem pingpong_exact:
  assumes "0 < iters" "pp_reach (warmup_rounds iters) iters s"
  shows "ini s \<noteq> I_Corrupt \<and> length (sent (ping s)) \<le> length (recvd (pong s)) + 1
    \<and> prefix (recvd (pong s)) (sent (ping s)) \<and> prefix (sent (ping s)) (all_msgs (warmup_rounds iters) iters)
    \<and> (\<forall>rc. ini s = I_Return rc \<longrightarrow> rc = 0 \<and> rsp s = R_Exit
        \<and> recvd (pong s) = all_msgs (warmup_rounds iters) iters \<and> recvd (ping s) = all_msgs (warmup_rounds iters) iters)"
proof -
  have inv: "pp_inv (warmup_rounds iters) iters s" by (rule pp_reach_inv [OF warmup_positive assms])
  note pre = rsp_relays [OF invs(3) [OF inv] invs(1) [OF inv] invs(2) [OF inv]] and l = relay_lengths [OF inv]
  have "ini s \<noteq> I_Corrupt" using invs(5) [OF inv] by auto
  moreover have "rc = 0 \<and> rsp s = R_Exit \<and> recvd (pong s) = all_msgs (warmup_rounds iters) iters
      \<and> recvd (ping s) = all_msgs (warmup_rounds iters) iters" if r: "ini s = I_Return rc" for rc
  proof -
    have a: "rc = 0" "sent (ping s) = all_msgs (warmup_rounds iters) iters" "length (recvd (pong s)) = length (sent (ping s))"
      using invs(5) [OF inv] r by simp_all
    then have "recvd (pong s) = sent (ping s)" using pre by (intro prefix_same_length) simp_all
    moreover have "recvd (ping s) = sent (ping s)"
      using recvd_prefix [OF invs(1) [OF inv]] l a(3) by (intro prefix_same_length) simp_all
    ultimately show ?thesis using a invs(4) [OF inv] r by (simp add: flags_ok_def)
  qed
  ultimately show ?thesis using ini_ok_prefix [OF invs(5) [OF inv]] pre by blast
qed

theorem pingpong_exact_witness:
  "\<exists>s. pp_reach 1000 3 s \<and> ini s = I_Return 0 \<and> recvd (pong s) = all_msgs 1000 3"
proof -
  have w: "warmup_rounds 3 = 1000" by (simp add: warmup_rounds_def)
  have "pp_reach 1000 3 start_pp" by (rule reach.start) simp
  with pp_completes [of 1000 3 start_pp] obtain s where s: "pp_steps 1000 3 start_pp s" "ini s = I_Return 0" by auto
  have r: "pp_reach 1000 3 s" by (rule reach_steps [OF s(1)]) (rule reach.start, simp)
  from pingpong_exact [of 3 s] r s(2) w show ?thesis by auto
qed

text \<open>
  The benchmark is never trapped: from every state that the two threads can get into, however
  stale their loads were, there is a continuation in which the program ends and returns 0.
\<close>

theorem pingpong_can_finish:
  assumes "0 < iters" "pp_reach (warmup_rounds iters) iters s"
  shows "\<exists>s'. (pp_step (warmup_rounds iters) iters)\<^sup>*\<^sup>* s s' \<and> ini s' = I_Return 0"
  by (rule pp_completes [OF warmup_positive assms])

theorem pingpong_can_finish_witness:
  "\<exists>s'. (pp_step 1000 7)\<^sup>*\<^sup>* start_pp s' \<and> ini s' = I_Return 0"
proof -
  have w: "warmup_rounds 7 = 1000" by (simp add: warmup_rounds_def)
  have "pp_reach (warmup_rounds 7) 7 start_pp" by (rule reach.start) simp
  from pingpong_can_finish [OF _ this] w show ?thesis by simp
qed

end
