(* ===== verification/Bench_Loops.thy ===== *)
theory Bench_Loops
  imports Feed_Handler Latency_Histogram Ring_Threads
begin

text \<open>
  The loops of the other benchmarks: the risk-and-match path of \<^verbatim>\<open>bench/bench_matching.cpp\<close>, the
  producer and consumer of \<^verbatim>\<open>bench/bench_ring_buffer.cpp\<close>, and the clock calibration of
  \<^verbatim>\<open>bench/bench_pingpong.cpp\<close>.  The random draws and the readings of the clock are arguments, and so
  are the floating-point operations of the histogram.
\<close>

section \<open>Matching\<close>

text \<open>One draw: the side as 0 or 1, the price, the quantity, and the nanoseconds that the order takes.\<close>

record draw =
  d_side :: int
  d_price :: int
  d_qty :: int
  d_ns :: u64

record 'f matching_bench =
  m_eng :: OrderBook
  m_hist :: "'f LatencyHistogram"
  m_accepted :: nat

definition matching_limits :: RiskLimits where
  "matching_limits = \<lparr>max_order_qty = 1000, max_position = 0, reference_price = 1000, price_band = 0\<rparr>"

definition drawn_order :: "nat \<Rightarrow> draw \<Rightarrow> Order" where
  "drawn_order i d = \<lparr>o_id = of_nat (i + 1), o_symbol = 1, o_side = (if d_side d \<noteq> 0 then Buy else Sell), o_type = Limit,
     o_price = d_price d, o_qty = d_qty d\<rparr>"

fun matching_loop :: "('f \<Rightarrow> u64 \<Rightarrow> 'f) \<Rightarrow> nat \<Rightarrow> draw list \<Rightarrow> 'f matching_bench \<Rightarrow> 'f matching_bench option" where
  "matching_loop fadd i [] b = Some b"
| "matching_loop fadd i (d # ds) b = do {
     let ord = drawn_order i d;
     dec \<leftarrow> check matching_limits ord 0;
     b1 \<leftarrow> (if dec = Accept then do {
              (filled, fills, bk) \<leftarrow> submit (m_eng b) ord [];
              Some (b\<lparr>m_eng := bk, m_accepted := m_accepted b + 1\<rparr>) }
            else Some b);
     matching_loop fadd (i + 1) ds (b1\<lparr>m_hist := record_value fadd (d_ns d) (m_hist b1)\<rparr>)
   }"

definition matching_main :: "('f \<Rightarrow> u64 \<Rightarrow> 'f) \<Rightarrow> 'f \<Rightarrow> draw list \<Rightarrow> 'f matching_bench option" where
  "matching_main fadd fzero ds =
     matching_loop fadd 0 ds \<lparr>m_eng = new_book 1, m_hist = new_histogram fzero 6, m_accepted = 0\<rparr>"

text \<open>What the two distributions of the source give: a quantity from 1 to 20 and a 64-bit price.\<close>

definition draw_ok :: "draw \<Rightarrow> bool" where
  "draw_ok d \<longleftrightarrow> 1 \<le> d_qty d \<and> d_qty d \<le> 20 \<and> i64_ok (d_price d)"

lemma drawn_order_accepted:
  assumes "draw_ok d"
  shows "check matching_limits (drawn_order i d) 0 = Some Accept" "i64_ok (o_qty (drawn_order i d))"
proof -
  have ty: "order_typed (drawn_order i d)" using assms by (simp add: draw_ok_def drawn_order_def order_typed_def i64_ok_def)
  then show "i64_ok (o_qty (drawn_order i d))" by (simp add: order_typed_def)
  have "limits_ok matching_limits" by (simp add: limits_ok_def matching_limits_def)
  moreover have "admissible matching_limits (drawn_order i d)"
    using assms by (simp add: draw_ok_def admissible_def matching_limits_def drawn_order_def size_ok_def position_ok_def collar_ok_def)
  ultimately show "check matching_limits (drawn_order i d) 0 = Some Accept" using check_flat [OF _ ty] by force
qed

lemma matching_loop_total:
  assumes "\<forall>d\<in>set ds. draw_ok d" "live_book (m_eng b)" "uncrossed (m_eng b)"
  shows "\<exists>b'. matching_loop fadd i ds b = Some b' \<and> live_book (m_eng b') \<and> uncrossed (m_eng b')
    \<and> m_accepted b' = m_accepted b + length ds \<and> m_hist b' = fold (record_value fadd) (map d_ns ds) (m_hist b)"
  using assms
proof (induction ds arbitrary: i b)
  case (Cons d ds)
  have "draw_ok d" using Cons.prems(1) by simp
  note a = drawn_order_accepted [OF this, of i]
  obtain filled fills bk where s: "submit (m_eng b) (drawn_order i d) [] = Some (filled, fills, bk)"
    using submit_defined [OF Cons.prems(2) a(2), of "[]"] by (metis prod_cases3)
  note inv = submit_live [OF Cons.prems(2) a(2) s] submit_uncrossed [OF Cons.prems(2,3) a(2) s]
  let ?b = "b\<lparr>m_eng := bk, m_accepted := m_accepted b + 1, m_hist := record_value fadd (d_ns d) (m_hist b)\<rparr>"
  from Cons.IH [of ?b "i + 1"] Cons.prems(1) inv a(1) s show ?case by (auto simp: Let_def)
qed simp

section \<open>Streaming through the ring\<close>

text \<open>A message is its number and the time it was made.\<close>

record 'f stream_bench =
  s_thr :: "(u64 \<times> int) threads"
  s_next :: nat
  s_msg :: "(u64 \<times> int) option"
  s_samples :: "u64 list"
  s_hist :: "'f LatencyHistogram"
  s_got :: nat

definition kStreamDepth :: u64 where
  "kStreamDepth = 4096"

definition start_stream :: "'f \<Rightarrow> 'f stream_bench" where
  "start_stream fzero = \<lparr>s_thr = start_threads kStreamDepth (0, 0), s_next = 0, s_msg = None, s_samples = [],
     s_hist = new_histogram fzero 6, s_got = 0\<rparr>"

definition latency_sample :: "int \<Rightarrow> u64" where
  "latency_sample lat = (if lat < 0 then 0 else word_of_int lat)"

inductive stream_step :: "('f \<Rightarrow> u64 \<Rightarrow> 'f) \<Rightarrow> nat \<Rightarrow> 'f stream_bench \<Rightarrow> 'f stream_bench \<Rightarrow> bool" for fadd n where
  s_stamp: "s_msg s = None \<Longrightarrow> s_next s < n \<Longrightarrow> stream_step fadd n s (s\<lparr>s_msg := Some (of_nat (s_next s), ts)\<rparr>)"
| s_pushing: "s_msg s = Some m \<Longrightarrow> push_step kStreamDepth (s_thr s) t \<Longrightarrow> sent t = sent (s_thr s) \<Longrightarrow>
    producer t = P_Idle \<or> pval (producer t) = m \<Longrightarrow> stream_step fadd n s (s\<lparr>s_thr := t\<rparr>)"
| s_pushed: "s_msg s = Some m \<Longrightarrow> push_step kStreamDepth (s_thr s) t \<Longrightarrow> sent t = sent (s_thr s) @ [v] \<Longrightarrow>
    stream_step fadd n s (s\<lparr>s_thr := t, s_msg := None, s_next := s_next s + 1\<rparr>)"
| s_popping: "s_got s < n \<Longrightarrow> pop_step kStreamDepth (s_thr s) t \<Longrightarrow> recvd t = recvd (s_thr s) \<Longrightarrow>
    stream_step fadd n s (s\<lparr>s_thr := t\<rparr>)"
| s_popped: "s_got s < n \<Longrightarrow> pop_step kStreamDepth (s_thr s) t \<Longrightarrow> recvd t = recvd (s_thr s) @ [m] \<Longrightarrow>
    chk64 (now - snd m) = Some lat \<Longrightarrow>
    stream_step fadd n s (s\<lparr>s_thr := t, s_got := s_got s + 1, s_samples := s_samples s @ [latency_sample lat],
      s_hist := record_value fadd (latency_sample lat) (s_hist s)\<rparr>)"

definition stream_inv :: "('f \<Rightarrow> u64 \<Rightarrow> 'f) \<Rightarrow> 'f \<Rightarrow> nat \<Rightarrow> 'f stream_bench \<Rightarrow> bool" where
  "stream_inv fadd fzero n s \<longleftrightarrow> threads_inv kStreamDepth (s_thr s)
     \<and> map fst (sent (s_thr s)) = map of_nat [0..<s_next s] \<and> s_next s \<le> n
     \<and> (case s_msg s of None \<Rightarrow> producer (s_thr s) = P_Idle
        | Some m \<Rightarrow> fst m = of_nat (s_next s) \<and> s_next s < n \<and> (producer (s_thr s) \<noteq> P_Idle \<longrightarrow> pval (producer (s_thr s)) = m))
     \<and> s_got s = length (recvd (s_thr s)) \<and> length (s_samples s) = s_got s
     \<and> s_hist s = recorded fadd fzero 6 (s_samples s)"

lemma stream_spsc: "spsc kStreamDepth"
  by (rule spsc.intro) (simp add: capacity_ok_def kStreamDepth_def)

lemma stream_step_inv:
  assumes inv: "stream_inv fadd fzero n s" and "stream_step fadd n s s'"
  shows "stream_inv fadd fzero n s'"
proof -
  have ti: "threads_inv kStreamDepth (s_thr s)" using inv by (simp add: stream_inv_def)
  note push = spsc.push_step_inv [OF stream_spsc _ ti] and pop = spsc.pop_step_inv [OF stream_spsc _ ti]
  show ?thesis
    using assms(2)
  proof cases
    case (s_stamp ts)
    then show ?thesis using inv by (simp add: stream_inv_def)
  next
    case (s_pushing m t)
    then show ?thesis using inv push [OF s_pushing(3)] push_step_frame(1) [OF s_pushing(3)] by (auto simp: stream_inv_def)
  next
    case (s_pushed m t v)
    note f = push_step_frame [OF s_pushed(3)]
    have "pval (producer (s_thr s)) = v" "producer (s_thr s) \<noteq> P_Idle" "producer t = P_Idle" using f(4) s_pushed(4) by auto
    then show ?thesis using inv s_pushed push [OF s_pushed(3)] f(1) by (auto simp: stream_inv_def)
  next
    case (s_popping t)
    then show ?thesis
      using inv pop [OF s_popping(3)] pop_step_frame [OF s_popping(3)] by (auto simp: stream_inv_def split: option.splits)
  next
    case (s_popped t m now lat)
    then show ?thesis
      using inv pop [OF s_popped(3)] pop_step_frame [OF s_popped(3)]
      by (auto simp: stream_inv_def recorded_def split: option.splits)
  qed
qed

lemma start_stream_inv: "stream_inv fadd fzero n (start_stream fzero)"
  using spsc.start_threads_inv [OF stream_spsc, of "(0, 0)"]
  by (simp add: stream_inv_def start_stream_def recorded_def) (simp add: start_threads_def)

interpretation stream_sys: invariant_system "\<lambda>s. s = start_stream fzero" "stream_step fadd n" "stream_inv fadd fzero n"
  for fadd :: "'f \<Rightarrow> u64 \<Rightarrow> 'f" and fzero :: 'f and n
  by unfold_locales (auto simp: start_stream_inv intro: stream_step_inv)

section \<open>The clock\<close>

text \<open>Two readings after one another, for every sample; the result is the median.\<close>

fun calibrate_loop :: "('f \<Rightarrow> u64 \<Rightarrow> 'f) \<Rightarrow> (int \<times> int) list \<Rightarrow> 'f LatencyHistogram \<Rightarrow> 'f LatencyHistogram option" where
  "calibrate_loop fadd [] h = Some h"
| "calibrate_loop fadd ((a, b) # rs) h = do {
     d \<leftarrow> (if b > a then chk64 (b - a) else Some 0);
     calibrate_loop fadd rs (record_value fadd (word_of_int d) h)
   }"

definition calibrate_clock_ns :: "('f \<Rightarrow> u64 \<Rightarrow> 'f) \<Rightarrow> 'f \<Rightarrow> (u64 \<Rightarrow> u64) \<Rightarrow> (int \<times> int) list \<Rightarrow> u64 option" where
  "calibrate_clock_ns fadd fzero rank rs = map_option (percentile rank) (calibrate_loop fadd rs (new_histogram fzero 6))"

text \<open>The first reading that differs from \<open>a\<close>; \<open>None\<close> while the clock stands.\<close>

fun first_change :: "int \<Rightarrow> int list \<Rightarrow> int option" where
  "first_change a [] = None"
| "first_change a (b # bs) = (if b = a then first_change a bs else Some b)"

fun tick_loop :: "(int \<times> int list) list \<Rightarrow> u64 \<Rightarrow> u64 option" where
  "tick_loop [] smallest = Some smallest"
| "tick_loop ((a, bs) # xs) smallest = do {
     b \<leftarrow> first_change a bs;
     d \<leftarrow> chk64 (b - a);
     let delta = word_of_int d;
     tick_loop xs (if delta < smallest then delta else smallest)
   }"

definition clock_tick_ns :: "(int \<times> int list) list \<Rightarrow> u64 option" where
  "clock_tick_ns xs = do { smallest \<leftarrow> tick_loop xs (- 1); Some (if smallest = - 1 then 0 else smallest) }"

definition clock_advances :: "int \<times> int list \<Rightarrow> bool" where
  "clock_advances x \<longleftrightarrow> (case first_change (fst x) (snd x) of None \<Rightarrow> False | Some b \<Rightarrow> fst x < b \<and> b - fst x < 2 ^ 63)"

definition tick_of :: "int \<times> int list \<Rightarrow> u64" where
  "tick_of x = word_of_int (the (first_change (fst x) (snd x)) - fst x)"

lemma tick_loop_min:
  "\<forall>x\<in>set xs. clock_advances x \<Longrightarrow> tick_loop xs m = Some (fold min (map tick_of xs) m)"
proof (induction xs arbitrary: m)
  case (Cons x xs)
  obtain a bs b where x: "x = (a, bs)" "first_change a bs = Some b" "a < b" "b - a < 2 ^ 63"
    using Cons.prems by (cases x) (auto simp: clock_advances_def split: option.splits)
  then have "chk64 (b - a) = Some (b - a)" by (simp add: chk64_def i64_ok_def)
  moreover have "(if v < m then v else m) = min v m" for v m :: u64 by (auto simp: min_def)
  moreover have "tick_of x = word_of_int (b - a)" using x(1,2) by (simp add: tick_of_def)
  ultimately show ?case using Cons x(1,2) by simp
qed simp

lemma tick_of_bound:
  assumes "clock_advances x"
  shows "tick_of x \<noteq> - 1"
proof -
  obtain b where b: "first_change (fst x) (snd x) = Some b" "fst x < b" "b - fst x < 2 ^ 63"
    using assms by (auto simp: clock_advances_def split: option.splits)
  have "uint (tick_of x) = b - fst x"
    unfolding tick_of_def b(1) option.sel uint_word_of_int using b(2,3) by (intro mod_pos_pos_trivial) simp_all
  moreover have "uint (- 1 :: u64) = 2 ^ 64 - 1" by (simp add: unsigned_minus_1_eq_mask mask_eq_exp_minus_1)
  ultimately show ?thesis using b(3) by auto
qed

section \<open>What the benchmarks measure\<close>

text \<open>The tick that is printed is the smallest change of the clock among the samples.\<close>

lemma clock_tick_smallest:
  assumes "xs \<noteq> []" "\<forall>x\<in>set xs. clock_advances x"
  shows "clock_tick_ns xs = Some (Min (tick_of ` set xs))"
proof -
  have m: "fold min (map tick_of xs) (- 1) = Min (tick_of ` set xs)" using fold_min_word [of "map tick_of xs"] assms(1) by simp
  have "Min (tick_of ` set xs) \<in> tick_of ` set xs" using assms(1) by (intro Min_in) simp_all
  then have "Min (tick_of ` set xs) \<noteq> - 1" using assms(2) tick_of_bound by force
  then show ?thesis using tick_loop_min [OF assms(2), of "- 1"] m by (simp add: clock_tick_ns_def)
qed

text \<open>
  The matching benchmark measures the path it names: for every draw of its distributions the gate
  accepts, the engine runs without undefined behaviour and its book stays uncrossed, and the
  histogram holds one sample for every order.
\<close>

theorem matching_bench_runs:
  assumes "\<forall>d\<in>set ds. draw_ok d"
  shows "\<exists>b. matching_main fadd fzero ds = Some b \<and> m_accepted b = length ds \<and> live_book (m_eng b) \<and> uncrossed (m_eng b)
    \<and> m_hist b = recorded fadd fzero 6 (map d_ns ds) \<and> count_hist (m_hist b) = of_nat (length ds)"
proof -
  have "live_book (new_book 1)" "uncrossed (new_book 1)" using start_consumer_ok by (simp_all add: start_consumer_def)
  with matching_loop_total [OF assms, of "\<lparr>m_eng = new_book 1, m_hist = new_histogram fzero 6, m_accepted = 0\<rparr>" fadd 0]
  obtain b where b: "matching_main fadd fzero ds = Some b" "m_accepted b = length ds" "live_book (m_eng b)" "uncrossed (m_eng b)"
    "m_hist b = recorded fadd fzero 6 (map d_ns ds)" by (auto simp: matching_main_def recorded_def)
  moreover have "hist_inv (recorded fadd fzero 6 (map d_ns ds)) (map d_ns ds)" by (simp add: recorded_inv)
  ultimately show ?thesis by (simp add: count_hist_def hist_inv_def)
qed

text \<open>
  The streaming benchmark: in every interleaving of its two threads the consumer receives the
  messages in the order of their numbers, without a gap and none twice, one sample is recorded for
  each, and the loop of the consumer ends only when all have arrived.
\<close>

theorem ring_stream_complete:
  fixes fadd :: "'f \<Rightarrow> u64 \<Rightarrow> 'f" and fzero :: 'f
  assumes "reach (\<lambda>s. s = start_stream fzero) (stream_step fadd n) s"
  shows "map fst (recvd (s_thr s)) = map of_nat [0..<s_got s] \<and> s_got s \<le> s_next s \<and> s_next s \<le> n
    \<and> s_hist s = recorded fadd fzero 6 (s_samples s) \<and> length (s_samples s) = s_got s
    \<and> (s_got s = n \<longrightarrow> recvd (s_thr s) = sent (s_thr s) \<and> s_next s = n)"
proof -
  have inv: "stream_inv fadd fzero n s" by (rule stream_sys.reach_inv [OF assms])
  let ?t = "s_thr s"
  have r: "recvd ?t = take (s_got s) (sent ?t)" "map fst (sent ?t) = map of_nat [0..<s_next s]" "s_next s \<le> n"
    "s_got s = length (recvd ?t)" "length (s_samples s) = s_got s" "s_hist s = recorded fadd fzero 6 (s_samples s)"
    using inv by (simp_all add: stream_inv_def threads_inv_def data_ok_def)
  have len: "length (sent ?t) = s_next s" using arg_cong [OF r(2), of length] by simp
  have le: "s_got s \<le> s_next s" using r(1,4) len by (metis length_take min.cobounded1 min_def)
  have "map fst (recvd ?t) = take (s_got s) (map fst (sent ?t))" using r(1) by (metis take_map)
  also have "\<dots> = map of_nat [0..<s_got s]" using le by (simp add: r(2) take_map)
  finally have "map fst (recvd ?t) = map of_nat [0..<s_got s]" .
  moreover have "recvd ?t = sent ?t \<and> s_next s = n" if "s_got s = n" using that r(1,3) le len by simp
  ultimately show ?thesis using le r by blast
qed

end
