(* ===== verification/Cpu.thy ===== *)
theory Cpu
  imports Prelude
begin

text \<open>
  Thread placement and huge pages, \<^verbatim>\<open>include/lloms/cpu.hpp\<close> and \<^verbatim>\<open>src/cpu.cpp\<close>, in the Linux build
  with \<^verbatim>\<open>MAP_HUGETLB\<close>, the Windows build and the fallback.  The answers of the operating system are arguments.
\<close>

section \<open>Operations\<close>

datatype AffinityStatus = AffOk | Unsupported | Failed

definition to_string_affinity :: "AffinityStatus \<Rightarrow> string" where
  "to_string_affinity s =
     (case s of AffOk \<Rightarrow> ''ok'' | Unsupported \<Rightarrow> ''unsupported-on-this-platform'' | Failed \<Rightarrow> ''failed'')"

text \<open>\<open>setaffinity\<close> is the result of \<^verbatim>\<open>pthread_setaffinity_np\<close> for the set of that core alone.\<close>

definition pin_this_thread_to_core :: "(u32 \<Rightarrow> int) \<Rightarrow> u32 \<Rightarrow> AffinityStatus" where
  "pin_this_thread_to_core setaffinity core = (if setaffinity core = 0 then AffOk else Failed)"

definition hugepages_supported :: bool where
  "hugepages_supported = True"

definition kHugePage :: u64 where
  "kHugePage = 2 * 1024 * 1024"

definition round_up_huge :: "u64 \<Rightarrow> u64" where
  "round_up_huge bytes = ((bytes + kHugePage - 1) div kHugePage) * kHugePage"

text \<open>
  The mappings the process holds, by address with their length.  \<open>mmap\<close> gives the address of a new
  mapping of that length, or \<open>None\<close> for \<^verbatim>\<open>MAP_FAILED\<close>.
\<close>

type_synonym mappings = "nat \<rightharpoonup> u64"

definition alloc_hugepages :: "(u64 \<Rightarrow> nat option) \<Rightarrow> u64 \<Rightarrow> mappings \<Rightarrow> nat option \<times> mappings" where
  "alloc_hugepages mmap bytes held =
     (if bytes = 0 then (None, held)
      else
        let len = round_up_huge bytes in
        case mmap len of None \<Rightarrow> (None, held) | Some p \<Rightarrow> (Some p, held(p \<mapsto> len)))"

text \<open>\<^verbatim>\<open>munmap\<close> of a whole mapping; any other range is \<open>None\<close>.\<close>

definition free_hugepages :: "nat option \<Rightarrow> u64 \<Rightarrow> mappings \<Rightarrow> mappings option" where
  "free_hugepages p bytes held =
     (case p of
        None \<Rightarrow> Some held
      | Some a \<Rightarrow> if held a = Some (round_up_huge bytes) then Some (held(a := None)) else None)"

section \<open>The other builds\<close>

text \<open>
  The Windows build pins through a mask of one bit per core; \<open>setmask\<close> is the previous mask that
  \<^verbatim>\<open>SetThreadAffinityMask\<close> returns, or zero.  A shift by the width or more is undefined: \<open>None\<close>.
\<close>

definition core_mask :: "u32 \<Rightarrow> u64 option" where
  "core_mask core = (if unat core < 64 then Some (push_bit (unat core) 1) else None)"

definition pin_windows :: "(u64 \<Rightarrow> u64) \<Rightarrow> u32 \<Rightarrow> AffinityStatus option" where
  "pin_windows setmask core =
     (if core \<ge> 8 * 8 then Some Failed
      else do { mask \<leftarrow> core_mask core; Some (if setmask mask \<noteq> 0 then AffOk else Failed) })"

text \<open>Without either: nothing is pinned and no huge page is handed out.\<close>

definition pin_other :: "u32 \<Rightarrow> AffinityStatus" where
  "pin_other core = Unsupported"

definition alloc_other :: "u64 \<Rightarrow> mappings \<Rightarrow> nat option \<times> mappings" where
  "alloc_other bytes held = (None, held)"

definition free_other :: "nat option \<Rightarrow> u64 \<Rightarrow> mappings \<Rightarrow> mappings option" where
  "free_other p bytes held = Some held"

text \<open>\<^verbatim>\<open>hardware_cores\<close> passes on what the library says, which is zero when it does not know.\<close>

definition hardware_cores :: "u32 \<Rightarrow> u32" where
  "hardware_cores concurrency = concurrency"

section \<open>What they guarantee\<close>

text \<open>
  The mask is of that core alone, a core that it cannot express is refused before the shift, and a
  thread counts as pinned only if the system took the mask.
\<close>

lemma pin_windows_exact:
  "pin_windows setmask core = Some (if unat core < 64 \<and> setmask (push_bit (unat core) 1) \<noteq> 0 then AffOk else Failed)"
  by (auto simp: pin_windows_def core_mask_def word_le_nat_alt)

lemma core_mask_single: "core_mask core = Some m \<Longrightarrow> bit m i \<longleftrightarrow> i = unat core"
  by (auto simp: core_mask_def bit_simps split: if_splits)

lemma unat_kHugePage: "unat kHugePage = 2097152"
  by (simp add: kHugePage_def)

text \<open>Without overflow, rounding up gives the least multiple of the page size that is large enough.\<close>

lemma round_up_huge_least:
  assumes "unat bytes + 2097151 < 2 ^ 64"
  shows "unat (round_up_huge bytes) mod 2097152 = 0" "unat bytes \<le> unat (round_up_huge bytes)"
    "unat (round_up_huge bytes) < unat bytes + 2097152"
proof -
  let ?H = "2097152 :: nat" and ?n = "unat bytes + 2097151"
  have "bytes + kHugePage - 1 = bytes + (kHugePage - 1)" by simp
  moreover have "unat (kHugePage - 1) = 2097151" by (simp add: kHugePage_def)
  moreover have "unat (bytes + (kHugePage - 1)) = unat bytes + unat (kHugePage - 1)"
    using assms calculation(2) by (subst unat_plus_if') simp
  ultimately have "unat (bytes + kHugePage - 1) = ?n" by (simp only:)
  then have q: "unat ((bytes + kHugePage - 1) div kHugePage) = ?n div ?H" by (simp add: unat_div_distrib unat_kHugePage)
  have le: "?n div ?H * ?H \<le> ?n" by simp
  then have r: "unat (round_up_huge bytes) = ?n div ?H * ?H"
    unfolding round_up_huge_def using q assms
    by (subst unat_mult_lem [THEN iffD1]) (simp_all add: unat_kHugePage)
  show "unat (round_up_huge bytes) mod 2097152 = 0" unfolding r by simp
  have "?n div ?H * ?H + ?n mod ?H = ?n" "?n mod ?H < ?H" by simp_all
  then show "unat bytes \<le> unat (round_up_huge bytes)" "unat (round_up_huge bytes) < unat bytes + 2097152"
    unfolding r by linarith+
qed

text \<open>What was allocated is released as it was mapped; a null pointer is released by doing nothing.\<close>

lemma hugepages_balanced:
  assumes "alloc_hugepages mmap bytes held = (p, held')" "\<And>len a. mmap len = Some a \<Longrightarrow> held a = None"
  shows "free_hugepages p bytes held' = Some held"
proof (cases p)
  case None
  then show ?thesis using assms(1) by (auto simp: alloc_hugepages_def free_hugepages_def Let_def split: if_splits option.splits)
next
  case (Some a)
  then have "held' = held(a \<mapsto> round_up_huge bytes)" "held a = None"
    using assms by (auto simp: alloc_hugepages_def Let_def split: if_splits option.splits)
  moreover from this(2) have "held(a := None) = held" by (auto simp: fun_eq_iff)
  ultimately show ?thesis using Some by (simp add: free_hugepages_def)
qed

text \<open>Near the top of the address range the sum wraps around and the length becomes zero.\<close>

lemma round_up_huge_wraps: "round_up_huge (- 1) = 0"
  by (simp add: round_up_huge_def kHugePage_def)

end
