(* ===== verification/Spec2Isabelle.thy ===== *)
theory Spec2Isabelle
  imports Matching_Engine Risk_Gate Session Frame_Stream Router_Config Latency_Histogram
    Feed_System Uring_Main Settings Ipc_Bytes Pingpong_Runs Bench_Loops Cpu
begin

text \<open>
  Verification of the low-latency order-matching core (\<^verbatim>\<open>lowlat-oms-core\<close>, C++17).

  \<^bold>\<open>The program.\<close>  Orders arrive as bytes on TCP connections.  A feed handler cuts the bytes into
  frames and pushes the orders into a lock-free ring; a consumer thread pops them, asks the
  pre-trade risk gate and submits what it accepts to the matching engine, which trades it against a
  price-time priority book.  Towards the exchanges, a router chooses a venue by symbol, issues the
  client order identifier and numbers the message; the wire codec encodes it; what comes back goes
  through an incremental frame decoder into a session, which decides what may be acted on.  A second
  ring lives in memory shared by two processes.  A latency histogram and a flat configuration file
  serve all of them.

  \<^bold>\<open>The theories\<close>, each over the ones before it that it calls:

  \<^item> \<open>Prelude\<close>: integer widths, checked signed arithmetic, \<^verbatim>\<open>std::map\<close>, and the reachable states of a
    step relation with the locale \<open>invariant_system\<close> that carries an invariant over them.  Every
    state machine below interprets that locale on its own steps.
  \<^item> \<open>Order_Types\<close> (\<^verbatim>\<open>include/lloms/order.hpp\<close>), \<open>Order_Book\<close> and \<open>Book_Priority\<close>
    (\<^verbatim>\<open>order_book.hpp\<close>, \<^verbatim>\<open>src/order_book.cpp\<close>): the levels with the addresses of their list nodes, the
    index of iterators, and add, cancel, best, reduce_front, qty_at and the other queries.  The book
    is read as one queue per side; add inserts behind its equals, cancel removes exactly the order
    with the identifier and never follows a dangling iterator, also with repeated identifiers.  The
    locale \<open>maker_queue\<close> is what the engine needs of one side; both sides interpret it.
  \<^item> \<open>Matching_Engine\<close> (\<^verbatim>\<open>src/matching_engine.cpp\<close>): crosses and submit.  The abstract specification is
    \<open>match_queue\<close>, the matching of a taker against a list of makers; submit ends, overflows nowhere,
    and refines it.  Quantities are conserved, fills come in priority order at the makers' prices,
    and no sequence of submits and cancels leaves the book crossed.
  \<^item> \<open>Risk_Gate\<close> (\<^verbatim>\<open>src/risk_gate.cpp\<close>): soundness and completeness of the checks, and the input on
    which the position sum overflows.
  \<^item> \<open>Ring_Buffer\<close> and \<open>Ring_Threads\<close> (\<^verbatim>\<open>spsc_ring_buffer.hpp\<close>): the sequential operations implement the
    locale \<open>bounded_fifo\<close>; the two threads, with every access a step, keep the order of the values
    and never touch the same slot at once; a call with room, or with something to take, can return.
  \<^item> \<open>Shm_Ring\<close> (\<^verbatim>\<open>shm_ring.hpp\<close>): create, attach, push and pop on the bytes of a segment; memory safety
    whatever the peer writes once the ring is bound (and what it can do while \<^verbatim>\<open>attach\<close> runs), refinement of the in-process ring, the same locale \<open>bounded_fifo\<close>.
    \<open>Shm_Threads\<close>: two processes on one segment, every access a step, refine the two threads of
    \<open>Ring_Threads\<close>.  \<open>Posix_Shm\<close> (\<^verbatim>\<open>src/posix_shm.cpp\<close>): the owner of the segment; descriptors
    and mappings are released exactly once, and every name that was created is removed by exactly one object.
  \<^item> \<open>Shm_Ipc\<close>, \<open>Ipc_System\<close>, \<open>Ipc_Runs\<close>, \<open>Ipc_Bytes\<close> (\<^verbatim>\<open>apps/shm_ipc_posix.cpp\<close>): the set-up and layout, then
    writer and reader as one system over two rings: what each exit status means, and that no state before a
    deadline is a deadlock; and the same system on the bytes of the segment, which refines it.
  \<^item> \<open>Checksum\<close>, \<open>Wire_Codec\<close>, \<open>Frame_Decoder\<close>, \<open>Frame_Stream\<close> (\<^verbatim>\<open>wire.hpp\<close>, \<^verbatim>\<open>src/wire.cpp\<close>): field
    access (locale \<open>wire_field\<close>, interpreted for each width), Fletcher-16 against the textbook sums,
    the encoder, and the decoder against the reference parser \<open>parse\<close>: independence of the cut into
    reads, round trip, recovery after damage, accounting.
  \<^item> \<open>Session\<close> (\<^verbatim>\<open>session.hpp\<close>, \<^verbatim>\<open>src/session.cpp\<close>): the whole state machine; order without repetition over
    every run in which the number \<open>2 ^ 64 - 1\<close> does not come in (with it the counter wraps and a message
    is delivered twice), recovery of a gap, detection of a silent peer, and the cases in which a held or
    repeated message is treated otherwise than documented.
  \<^item> \<open>Flat_Config\<close> (\<^verbatim>\<open>config.hpp\<close>), \<open>Order_Router\<close>, \<open>Router_Runs\<close>, \<open>Router_Config\<close> (\<^verbatim>\<open>src/order_router.cpp\<close>):
    parser and typed access, venues, routing, identifiers, construction from a configuration.
  \<^item> \<open>Latency_Histogram\<close> (\<^verbatim>\<open>src/latency_histogram.cpp\<close>): bucket bounds, percentiles as order statistics.
  \<^item> \<open>Feed_Handler\<close>, \<open>Feed_Shutdown\<close>, \<open>Feed_Sockets\<close>, \<open>Feed_System\<close> (\<^verbatim>\<open>apps/feed_handler_linux.cpp\<close>): from the
    bytes of the connections to the fills of the reference market, the flags and the shutdown of the two
    threads, the whole main thread over the answers of its system calls, and reader, ring and
    consumer as one system, which is right at every moment and can always stop.  \<open>Uring_Handler\<close>, \<open>Uring_Main\<close>
    (\<^verbatim>\<open>apps/feed_handler_iouring_linux.cpp\<close>): the lifetime of connections under completions, the waits,
    batches and the drain, and the equivalence of the two handlers.  \<open>Feed_Client\<close>
    (\<^verbatim>\<open>bench/bench_feed_client.cpp\<close>): sending in pieces ends, and what is sent is what the handler pushes.
  \<^item> \<open>Settings\<close>: what the programs take from their command lines and configuration files, down to the widths of
    their variables, and which configurations they start with.
  \<^item> \<open>Pingpong\<close>, \<open>Pingpong_Runs\<close> (\<^verbatim>\<open>bench/bench_pingpong.cpp\<close>), \<open>Bench_Loops\<close> (\<^verbatim>\<open>bench_matching.cpp\<close>,
    \<^verbatim>\<open>bench_ring_buffer.cpp\<close> and the clock calibration): the benchmarks measure what they name, lose
    nothing, never report corruption and can end.  \<open>Cpu\<close> (\<^verbatim>\<open>src/cpu.cpp\<close>): thread placement and huge
    pages.

  \<^item> This theory: the properties that span the components.  The epoll process and the io_uring process, each
    from the answers of its system calls through the main thread, the ring and the consumer thread to the
    book and the fills; and two sessions with the codec between them: what one numbers and encodes the other
    decodes and delivers.  The last theorem shows where the numbers of router and session do not fit together.

  \<^bold>\<open>How code becomes definitions.\<close>  A class is a record, a member function a function from the record
  and the arguments to the result and the new record.  Unsigned integers are words and wrap; signed
  64-bit integers are \<open>int\<close> and every operation on them goes through \<open>chk64\<close>.  \<open>None\<close> as the value of
  an operation is undefined behaviour (signed overflow, a dangling iterator, a null or freed object,
  an access outside a mapping), and the theorems show where it cannot occur.  Sizes and positions of
  byte buffers are natural numbers.  Threads and the kernel are step relations; a thread's load of
  the other thread's index may be stale, bounded only by coherence.

  \<^bold>\<open>Loops and parameters.\<close>  No definition has fuel.  The loop of submit is a
  \<^verbatim>\<open>partial_function\<close> in the option type, and that it returns is part of its theorem; all other
  loops are total with their termination proofs, those that wait for the operating system by
  recursion on the list of its answers.  Parameters stand for what is not in the sources: these
  answers, the draws and clock readings of the benchmarks, the file system of the configuration
  loader, the floating-point operations of the histogram, the size of the messages of a shared ring, and in
  \<open>Feed_Shutdown\<close> whether the load of the flag synchronises (the code as written: it does not).
  The capacities of the rings are arbitrary powers of two in the locales \<open>spsc\<close> and \<open>shm_ring\<close> and
  those that the repository instantiates in the interpretations.  The host is little-endian where
  the feed handlers copy integers out of a frame.

  \<^bold>\<open>Not modelled.\<close>  What the operating system does inside a call (its answers are arguments: descriptors,
  bytes read and sent, events, completions, mappings); signals, which end the loops of the handlers;
  the values of clocks, the times and percentiles that the programs print, and printing itself;
  the build of \<^verbatim>\<open>src/posix_shm.cpp\<close> for platforms without shared memory, which only reports that;
  the one-line accessors of the classes, which are the fields of the records; tests, build files
  and continuous integration.  \<open>epoll_main\<close> of \<open>Feed_Sockets\<close> and \<open>uring_main\<close> of \<open>Uring_Main\<close> are the main threads
  alone, whose pushes go to a list; ring, consumer thread and flag are in \<open>Feed_System\<close>, where every access is
  a step, and this theory puts the two together.  The epoll handler does not close the connections that are
  left at its end.  With the flag as the code loads it (\<open>acq\<close> false) the consumer may stop before it has all
  orders, as \<open>Feed_Shutdown\<close> shows; what is proved then is that it processed a beginning of them.  The quantile
  given to the histogram is a rank function, so a NaN is not represented; a shift by 64 in the last slot
  at one bit of precision, undefined in the code, is 0 here and is never reached, since that slot stays empty.
  The memory order of the flags is that of \<open>Feed_Shutdown\<close> and \<open>Pingpong\<close>.  No code of the repository connects
  router, codec and session: the last section takes what passes between them as given by its sequence numbers.
\<close>

section \<open>The feed handlers as processes\<close>

text \<open>
  The threads of a process while and after its main thread takes in the events \<open>evs\<close>, which describe the
  orders \<open>os\<close>: the consumer has run into no undefined behaviour, its book is well-formed and not crossed,
  and book and fills are those of the reference market on the orders it received.  These are a beginning
  of \<open>os\<close>, and all of them once it has stopped, if seeing the flag makes the reader's stores visible
  (\<open>acq\<close>; the load in the code is relaxed and promises only the beginning).
\<close>

definition follows_market :: "RiskLimits \<Rightarrow> bool \<Rightarrow> Feed_Handler.event list \<Rightarrow> Order list \<Rightarrow> handler \<Rightarrow> bool" where
  "follows_market lim acq evs os h \<longleftrightarrow> (\<exists>c. cst h = Some c \<and> live_book (eng c) \<and> uncrossed (eng c)
     \<and> shows_market c (market_run lim (recvd (thr (flow h)))) \<and> prefix (recvd (thr (flow h))) os
     \<and> (acq \<and> seen h = evs \<and> loop (flow h) = L_Exit \<longrightarrow> recvd (thr (flow h)) = os))"

lemma pushed_prefix: "prefix (pushed (reader_run xs)) (pushed (reader_run (xs @ ys)))"
proof (induction ys rule: rev_induct)
  case (snoc y ys)
  have "prefix (pushed (reader_run (xs @ ys))) (pushed (reader_run ((xs @ ys) @ [y])))"
    using pushed_extends [of y "reader_run (xs @ ys)"] unfolding reader_run_snoc by (metis prefixI)
  with snoc show ?case by (metis append_assoc prefix_order.trans)
qed simp

lemma system_follows:
  assumes "limits_ok lim" "handler_reach lim acq 65536 blank h" "prefix (seen h) evs"
  shows "follows_market lim acq evs (map snd (pushed (reader_run evs))) h"
proof -
  have inv: "handler_inv lim acq 65536 h" by (rule feed_ring.handler_reach_inv [OF assms(2)])
  have "prefix (map snd (pushed (reader_run (seen h)))) (map snd (pushed (reader_run evs)))"
    using pushed_prefix assms(3) by (metis map_mono_prefix prefixE)
  with feed_ring.handler_received [OF inv] have "prefix (recvd (thr (flow h))) (map snd (pushed (reader_run evs)))"
    by (metis prefix_order.trans)
  with feed_ring.handler_market [OF assms(1) inv] feed_ring.handler_received(2) [OF inv] show ?thesis
    unfolding follows_market_def by blast
qed

text \<open>A run of both threads to their end.\<close>

lemma system_completes: "\<exists>h. handler_reach lim acq 65536 blank h \<and> seen h = evs \<and> loop (flow h) = L_Exit"
  using handler_can_complete [OF feed_capacity_ok] by blast

text \<open>
  (C8) The epoll process, both threads: whatever its system calls answer, no descriptor is closed twice and
  its listening and epoll descriptors are closed; the connections it still has at the end it leaves
  open.  If it cannot listen it returns 1 and has taken in nothing; otherwise it returns 0, and the
  orders its main thread hands to the ring are those of the bytes it read, in the order of the reads,
  the backlog and the last pass included.  At every moment of every interleaving with the consumer
  the book and the fills are those of the reference market on a beginning of these orders; on all of
  them at the end, if the flag synchronises.  And for every such input a run to the end exists.
\<close>

theorem epoll_process_correct:
  assumes "Feed_Sockets.answers_ok q" "limits_ok lim" "evs = (if listens q then main_trace q else [])"
  shows "\<exists>s. epoll_main q = Some (if listens q then 0 else 1, s) \<and> rdr s = reader_run evs
    \<and> Feed_Sockets.fds s = int ` dom (partial (rdr s))
    \<and> (\<forall>acq h. handler_reach lim acq 65536 blank h \<and> prefix (seen h) evs \<longrightarrow>
         follows_market lim acq evs (map snd (pushed (rdr s))) h)
    \<and> (\<forall>acq. \<exists>h. handler_reach lim acq 65536 blank h \<and> seen h = evs \<and> loop (flow h) = L_Exit)"
proof -
  obtain s where s: "epoll_main q = Some (if listens q then 0 else 1, s)"
    "if listens q then rdr s = reader_run (main_trace q) \<and> Feed_Sockets.fds s = int ` dom (partial (rdr s))
     else Feed_Sockets.fds s = {} \<and> rdr s = start_reader"
    using epoll_main_spec [OF assms(1)] by blast
  have r: "rdr s = reader_run evs" "Feed_Sockets.fds s = int ` dom (partial (rdr s))"
    using s(2) assms(3) by (auto simp: reader_run_def start_reader_def split: if_splits)
  with s(1) system_follows [OF assms(2)] system_completes show ?thesis by auto
qed

lemma two_orders_fill: "snd (market_run (feed_limits empty_config) [order_of (make_frame 0), order_of (make_frame 1)]) = 1"
  using two_frames_fill by (simp add: two_frames_def reader_run_def start_reader_def buffer_def frames_one)

theorem epoll_process_correct_witness:
  "\<exists>s h c. epoll_main Feed_Sockets.demo_answers = Some (0, s) \<and> Feed_Sockets.fds s = {5}
     \<and> handler_reach (feed_limits empty_config) True 65536 blank h \<and> seen h = main_trace Feed_Sockets.demo_answers
     \<and> loop (flow h) = L_Exit \<and> cst h = Some c \<and> matched c = 1"
proof -
  let ?q = Feed_Sockets.demo_answers and ?lim = "feed_limits empty_config"
  have "main_trace ?q = (if listens ?q then main_trace ?q else [])" by (simp add: demo_listens)
  from epoll_process_correct [OF demo_answers_ok default_limits_ok this]
  obtain s where s: "epoll_main ?q = Some (0, s)" "rdr s = reader_run (main_trace ?q)" "Feed_Sockets.fds s = int ` dom (partial (rdr s))"
    and f: "\<forall>acq h. handler_reach ?lim acq 65536 blank h \<and> prefix (seen h) (main_trace ?q) \<longrightarrow>
         follows_market ?lim acq (main_trace ?q) (map snd (pushed (rdr s))) h"
    and e: "\<forall>acq. \<exists>h. handler_reach ?lim acq 65536 blank h \<and> seen h = main_trace ?q \<and> loop (flow h) = L_Exit"
    using demo_listens by auto
  from e obtain h where h: "handler_reach ?lim True 65536 blank h" "seen h = main_trace ?q" "loop (flow h) = L_Exit" by blast
  with f have "follows_market ?lim True (main_trace ?q) (map snd (pushed (rdr s))) h" by auto
  with h s(2) obtain c where c: "cst h = Some c" "shows_market c (market_run ?lim [order_of (make_frame 0), order_of (make_frame 1)])"
    by (auto simp: follows_market_def demo_reader)
  have "Feed_Sockets.fds s = {5}" using s(2,3) by (simp add: demo_reader)
  with s(1) h c two_orders_fill show ?thesis by (intro exI conjI) (assumption | simp add: shows_market_def)+
qed



section \<open>From one session to the other\<close>

lemma numbered_Cons:
  "map f (x # xs) = map of_nat [k..<k + length (x # xs)] \<Longrightarrow> f x = of_nat k \<and> map f xs = map of_nat [Suc k..<Suc k + length xs]"
  using upt_conv_Cons [of k "k + length (x # xs)"] by (simp del: upt_Suc)

lemma routed_consecutive:
  "map mseq ms = map of_nat [k..<k + length ms] \<Longrightarrow> \<forall>m\<in>set ms. gap_before m = 0 \<Longrightarrow> consecutive (of_nat k) ms"
proof (induction ms arbitrary: k)
  case (Cons m ms)
  note h = numbered_Cons [OF Cons.prems(1)]
  from Cons.IH [OF h [THEN conjunct2]] Cons.prems(2) h show ?case by (simp add: add.commute del: upt_Suc)
qed simp

lemma numbered_consec:
  "map Session.seq ins = map of_nat [k..<k + length ins] \<Longrightarrow> \<forall>i\<in>set ins. admin i = App \<Longrightarrow> k + length ins < 2 ^ 64 \<Longrightarrow>
   consec (of_nat k) ins"
proof (induction ins arbitrary: k)
  case (Cons i ins)
  note h = numbered_Cons [OF Cons.prems(1)]
  have "k < 2 ^ 64 - 1" using Cons.prems(3) by simp
  then have "unat (of_nat k :: u64) \<noteq> unat (- 1 :: u64)" by (simp add: unat_of_nat unsigned_minus_1_eq_mask mask_eq_exp_minus_1)
  then have "(of_nat k :: u64) \<noteq> - 1" by metis
  moreover have "consec (of_nat (Suc k)) ins" using Cons.IH [OF h [THEN conjunct2]] Cons.prems(2,3) by simp
  ultimately show ?case using h Cons.prems(2) by (simp add: add.commute del: upt_Suc)
qed simp

text \<open>The numbers of the next \<open>n\<close> outbound messages.\<close>

fun claims :: "nat \<Rightarrow> Session \<Rightarrow> u64 list \<times> Session" where
  "claims 0 s = ([], s)"
| "claims (Suc n) s = (let (k, s1) = claim_outbound_seq s; (ks, s2) = claims n s1 in (k # ks, s2))"

lemma claims_numbers:
  "next_out s = of_nat k \<Longrightarrow> fst (claims n s) = map of_nat [k..<k + n] \<and> next_out (snd (claims n s)) = of_nat (k + n)"
proof (induction n arbitrary: s k)
  case (Suc n)
  let ?s = "s\<lparr>next_out := next_out s + 1\<rparr>"
  have "next_out ?s = of_nat (Suc k)" using Suc.prems by (simp add: add.commute)
  from Suc.IH [OF this] show ?case
    using Suc.prems upt_conv_Cons [of k "k + Suc n"] by (simp add: claim_outbound_seq_def case_prod_beta Let_def del: upt_Suc)
qed simp

lemma logon_accepted:
  assumes "Session.seq m = next_in (new_session peer)" "admin m = Logon"
  shows "let (out, s) = on_message m t (new_session peer) in \<not> disconnect out \<and> reject out = NoReject
    \<and> state s = Active \<and> queued s = [] \<and> next_in s = next_in (new_session peer) + 1"
  using assms by (simp add: on_message_def accept_in_sequence_def after_accept_def no_outcome_def Let_def)
    (simp add: new_session_def)

text \<open>
  (C20) From one session to the other: a session logs on and then numbers its outbound messages with
  \<^verbatim>\<open>claim_outbound_seq\<close>; they are encoded and cut into reads in any way.  Then the decoder at the other end
  gives back exactly these messages, and a session there that expects the number of the logon (as two
  new sessions with the same configuration do) accepts it, delivers every one of the messages as it
  comes in, asks for nothing, never disconnects, and ends up expecting the number that the sender
  gives next.  The numbers stay below the largest of 64 bits.
\<close>

theorem session_stream_delivered:
  assumes "begin_logon t0 (new_session cfg) = (k, s0)" "claims (length ms) s0 = (map mseq ms, s1)"
    and "next_in (new_session peer) = k" "unat k + length ms < 2 ^ 64 - 1"
    and "\<forall>m\<in>set ms. message_ok m \<and> gap_before m = 0" "44 \<le> mb" "concat chunks = concat (map encoded ms)"
    and "Session.seq lg = k" "admin lg = Logon"
    and "map Session.seq ins = map mseq (fst (receive (new_decoder mb) chunks))" "\<forall>i\<in>set ins. admin i = App"
  shows "fst (receive (new_decoder mb) chunks) = ms
    \<and> (\<exists>out p outs p'. on_message lg t1 (new_session peer) = (out, p) \<and> reject out = NoReject \<and> \<not> disconnect out
        \<and> Session.feed ins t2 p = (outs, p') \<and> length outs = length ms
        \<and> (\<forall>out\<in>set outs. deliver out \<and> \<not> send_resend_request out \<and> \<not> disconnect out)
        \<and> state p' = Active \<and> next_in p' = next_out s1)"
proof -
  let ?n = "length ms" and ?k = "Suc (unat k)"
  have s0: "next_out s0 = of_nat ?k" using assms(1) by (auto simp: begin_logon_def claim_outbound_seq_def add.commute)
  have sq: "map mseq ms = map of_nat [?k..<?k + ?n]" and out: "next_out s1 = of_nat (?k + ?n)"
    using claims_numbers [OF s0, of ?n] assms(2) by simp_all
  have "consecutive (of_nat ?k) ms" using routed_consecutive [OF sq] assms(5) by simp
  then have "with_gaps (False, 0, 0) ms = ms" using with_gaps_consecutive by (cases ms) auto
  moreover have "fst (receive (new_decoder mb) chunks) = with_gaps (False, 0, 0) ms"
    using parse_encoded [of ms mb] assms(5,6) by (simp add: receive_parse assms(7))
  ultimately have r: "fst (receive (new_decoder mb) chunks) = ms" by simp
  have l: "length ins = ?n" using assms(10) r by (metis length_map)
  obtain o1 p where p: "on_message lg t1 (new_session peer) = (o1, p)" "reject o1 = NoReject" "\<not> disconnect o1"
    "state p = Active" "queued p = []" "next_in p = of_nat ?k"
    using logon_accepted [of lg peer t1] assms(3,8,9) by (auto simp: add.commute split: prod.splits)
  have "consec (next_in p) ins" using numbered_consec [of ins ?k] assms(4,10,11) r sq l p(6) by simp
  from feed_in_sequence [OF p(4,5) this, of t2] obtain outs p' where
    "Session.feed ins t2 p = (outs, p')" "length outs = ?n" "\<forall>out\<in>set outs. deliver out \<and> \<not> send_resend_request out \<and> \<not> disconnect out"
    "state p' = Active" "next_in p' = next_out s1" using l p(6) out by auto
  with r p(1-3) show ?thesis by blast
qed

text \<open>An order behind a logon.\<close>

definition second_msg :: Message where
  "second_msg = \<lparr>mtype = NewOrder, mseq = 2, gap_before = 0,
     body = NewOrderBody \<lparr>no_client_order_id = 0x301, no_symbol = 7, no_side = Buy, no_type = Limit, tif = 0, no_price = 100, no_qty = 5\<rparr>\<rparr>"

theorem session_stream_delivered_witness:
  "fst (receive (new_decoder 64) [take 5 (encoded second_msg), drop 5 (encoded second_msg)]) = [second_msg]
   \<and> (\<exists>out p outs p'. on_message (adm_msg 1 Logon) 0 (new_session test_cfg) = (out, p)
        \<and> Session.feed [app_msg 2 False] 0 p = (outs, p') \<and> next_in p' = 3)"
proof -
  let ?chunks = "[take 5 (encoded second_msg), drop 5 (encoded second_msg)]"
  let ?s0 = "snd (begin_logon 0 (new_session test_cfg))"
  have b: "begin_logon 0 (new_session test_cfg) = (1, ?s0)" "next_out ?s0 = 2"
    by (simp_all add: begin_logon_def claim_outbound_seq_def new_session_def test_cfg_def)
  have c: "claims (length [second_msg]) ?s0 = (map mseq [second_msg], ?s0\<lparr>next_out := 3\<rparr>)"
    using b(2) by (simp add: claim_outbound_seq_def second_msg_def)
  have ok: "\<forall>m\<in>set [second_msg]. message_ok m \<and> gap_before m = 0" by (simp add: second_msg_def message_ok_def i64_ok_def)
  have cc: "concat ?chunks = concat (map encoded [second_msg])" by simp
  have r: "fst (receive (new_decoder 64) ?chunks) = [second_msg]"
    using parse_encoded [of "[second_msg]" 64 "(False, 0, 0)"] ok cc by (simp add: receive_parse second_msg_def del: receive.simps)
  have i: "map Session.seq [app_msg 2 False] = map mseq (fst (receive (new_decoder 64) ?chunks))"
    unfolding r by (simp add: app_msg_def second_msg_def)
  have n: "next_in (new_session test_cfg) = 1" by (simp add: new_session_def test_cfg_def)
  have u: "unat (1 :: u64) + length [second_msg] < 2 ^ 64 - 1" by simp
  have m: "(44 :: nat) \<le> 64" by simp
  have lg: "Session.seq (adm_msg 1 Logon) = 1" "admin (adm_msg 1 Logon) = Logon" by (simp_all add: adm_msg_def)
  have ad: "\<forall>i\<in>set [app_msg 2 False]. admin i = App" by (simp add: app_msg_def)
  from session_stream_delivered [OF b(1) c n u ok m cc lg i ad, of 0 0] show ?thesis by (simp del: receive.simps) blast
qed

text \<open>
  The number of a logon and that of the first order collide: the session gives its own logon the first number
  of the stream, the router starts again at 1 after a logon, and a peer that has accepted the logon takes
  the order for a message that it already has, and disconnects.
\<close>

theorem first_order_refused:
  assumes "router_ok r" "route req (on_logon v r) = Some (res, r')" "decision res = Routed" "res_venue res = v"
    and "next_outbound_seq cfg \<le> 1" "next_inbound_seq peer \<le> 1"
    and "Session.seq m = fst (begin_logon t0 (new_session cfg))" "admin m = Logon"
    and "Session.seq x = res_venue_seq res" "admin x = App" "\<not> poss_dup x"
  shows "disconnect (fst (on_message x t2 (snd (on_message m t1 (new_session peer)))))
    \<and> reject (fst (on_message x t2 (snd (on_message m t1 (new_session peer))))) = SequenceTooLow"
proof -
  have one: "n = 0 \<or> n = 1" if "n \<le> 1" for n :: u64 using that by (auto simp: word_le_nat_alt word_unat_eq_iff)
  have m: "Session.seq m = 1" using assms(7) one [OF assms(5)] by (auto simp: begin_logon_def claim_outbound_seq_def new_session_def)
  have n: "next_in (new_session peer) = 1" using one [OF assms(6)] by (auto simp: new_session_def)
  have x: "Session.seq x = 1"
    using on_logon_ok [OF assms(1), of v] assms(2)
  proof (cases rule: route_cases)
    case (routed i)
    then have p: "venue_ptr v r = Some i"
      using assms(4) by (auto simp: on_logon_def venue_ptr_def upd_venue_def split: option.splits if_splits)
    from venue_ptr_bound [OF p] have "i < length (venues r)" .
    then show ?thesis using routed(9) assms(9) p by (simp add: on_logon_def upd_venue_def)
  qed (use assms(3) in simp)
  have "snd (on_message m t1 (new_session peer)) = (new_session peer)\<lparr>last_inbound_ms := t1, test_request_outstanding := False,
      next_in := 2, state := Active\<rparr>"
    using m n assms(8) by (simp add: on_message_def accept_in_sequence_def after_accept_def Let_def) (simp add: new_session_def)
  then show ?thesis using x assms(10,11) by (simp add: on_message_def Let_def no_outcome_def)
qed

end
